(* ===== verification/Prelude.thy ===== *)
theory Prelude
  imports Main "HOL-Library.Word" "HOL-Library.Monad_Syntax"
begin

text \<open>
  Shared vocabulary of the development: machine integers and addresses as the sender's C code
  uses them, the option monad in which every C function that touches memory is written, the
  generic driver of a goto-style loop, and the lemma collections the component theories share.

  A C function becomes a function into \<open>option\<close>. \<open>None\<close> stands for every way in which the C
  function has no defined result: a dereference of a null, dangling or wrongly typed pointer,
  and a loop that does not end (\<open>partial_function (option)\<close>). So a theorem of the form
  \<open>f x = Some y\<close> states memory safety, termination and the result at once.
\<close>

unbundle bit_operations_syntax

named_theorems mem_simps \<open>how the fields of the memory change under its updates\<close>
named_theorems hdr_simps \<open>reading and writing the bit fields of a MEADcast header\<close>
named_theorems topo_simps \<open>the views of the topology under its updates\<close>


section \<open>Machine integers\<close>

type_synonym ptr = nat
type_synonym size_t = nat
type_synonym uint8 = "8 word"
type_synonym uint16 = "16 word"
type_synonym uint32 = "32 word"
type_synonym in6_addr = "128 word"

abbreviation (input) NULL :: ptr where "NULL \<equiv> 0"
abbreviation (input) EXIT_SUCCESS :: int where "EXIT_SUCCESS \<equiv> 0"
abbreviation (input) EXIT_FAILURE :: int where "EXIT_FAILURE \<equiv> 1"

text \<open>
  Sizes and counters are natural numbers below \<open>2 ^ 64\<close>. A counter of the program counts
  allocated objects and cannot reach that bound; a subtraction can pass zero, and then wraps.
\<close>

definition size_sub :: "size_t \<Rightarrow> size_t \<Rightarrow> size_t" where
  "size_sub a b = (if b \<le> a then a - b else 2 ^ 64 + a - b)"

lemma size_sub_le [simp]: "b \<le> a \<Longrightarrow> size_sub a b = a - b"
  by (simp add: size_sub_def)

lemma size_sub_wraps: "size_sub 0 1 = 2 ^ 64 - 1"
  by (simp add: size_sub_def)

text \<open>The cast \<open>(int) x\<close> of a \<open>size_t\<close>: the low 32 bits, read as two's complement.\<close>

definition int_of_size :: "size_t \<Rightarrow> int" where
  "int_of_size x = signed_take_bit 31 (int x)"

lemma int_of_size_small: "x < 2 ^ 31 \<Longrightarrow> int_of_size x = int x"
  unfolding int_of_size_def by (rule signed_take_bit_int_eq_self) auto


section \<open>The option monad\<close>

lemmas bind_eq_Some = Option.bind_eq_Some_conv

definition guard :: "bool \<Rightarrow> unit option" where
  "guard b = (if b then Some () else None)"

lemma guard_eq_Some [simp]: "guard b = Some u \<longleftrightarrow> b"
  by (simp add: guard_def)

lemma guard_True [simp]: "guard True = Some ()"
  by (simp add: guard_def)


section \<open>Goto-style loops\<close>

text \<open>
  A loop with labels is a step function: from a state at a label, either the state at the
  label it jumps to (\<open>Inl\<close>) or the result of the loop (\<open>Inr\<close>).
\<close>

partial_function (option) run :: "('s \<Rightarrow> ('s + 'r) option) \<Rightarrow> 's \<Rightarrow> 'r option" where
  "run step s = do {
     x \<leftarrow> step s;
     case x of Inl s' \<Rightarrow> run step s' | Inr r \<Rightarrow> Some r
   }"

declare run.simps [code]

text \<open>
  The contract of such a loop: an invariant that every step keeps, under which no step is
  undefined, and a well-founded relation that every jump descends. The client's fact, proved
  once: the loop returns, and its result satisfies the postcondition.
\<close>

locale measured_loop =
  fixes step :: "'s \<Rightarrow> ('s + 'r) option"
    and inv :: "'s \<Rightarrow> bool"
    and post :: "'r \<Rightarrow> bool"
    and R :: "('s \<times> 's) set"
  assumes wf_R: "wf R"
    and step_ok: "inv s \<Longrightarrow>
      (\<exists>s'. step s = Some (Inl s') \<and> inv s' \<and> (s', s) \<in> R) \<or>
      (\<exists>r. step s = Some (Inr r) \<and> post r)"
begin

lemma run_ok: "inv s \<Longrightarrow> \<exists>r. run step s = Some r \<and> post r"
proof (induction s rule: wf_induct_rule [OF wf_R])
  case (1 s)
  from step_ok [OF 1(2)] show ?case
  proof
    assume "\<exists>s'. step s = Some (Inl s') \<and> inv s' \<and> (s', s) \<in> R"
    then obtain s' where s': "step s = Some (Inl s')" "inv s'" "(s', s) \<in> R" by blast
    from 1(1) [OF s'(3,2)] s'(1) show ?thesis by (simp add: run.simps [of step s])
  next
    assume "\<exists>r. step s = Some (Inr r) \<and> post r"
    then show ?thesis by (auto simp: run.simps [of step s])
  qed
qed

end


section \<open>Lists\<close>

lemma drop_eq_Cons_nth: "drop i xs = y # ys \<Longrightarrow> i < length xs \<and> xs ! i = y \<and> drop (Suc i) xs = ys"
  by (metis drop_all drop_Suc linorder_not_less list.distinct(1) list.sel(3) nth_via_drop tl_drop)

lemma distinct_map_eqD:
  "distinct (map f xs) \<Longrightarrow> x \<in> set xs \<Longrightarrow> y \<in> set xs \<Longrightarrow> f x = f y \<Longrightarrow> x = y"
  by (auto simp: distinct_map inj_on_def)

lemma list_all2_in_right: "list_all2 P xs ys \<Longrightarrow> y \<in> set ys \<Longrightarrow> \<exists>x \<in> set xs. P x y"
  by (induction xs ys rule: list_all2_induct) auto

lemma list_all2_in_left: "list_all2 P xs ys \<Longrightarrow> x \<in> set xs \<Longrightarrow> \<exists>y \<in> set ys. P x y"
  by (induction xs ys rule: list_all2_induct) auto

lemma filter_neq_split:
  assumes "xs = ys @ z # zs" and "f z = v" and "v \<notin> f ` set ys" and "v \<notin> f ` set zs"
  shows "filter (\<lambda>x. f x \<noteq> v) xs = ys @ zs"
proof -
  have "filter (\<lambda>x. f x \<noteq> v) ys = ys" and "filter (\<lambda>x. f x \<noteq> v) zs = zs"
    using assms(3,4) by (auto simp: filter_id_conv)
  with assms(1,2) show ?thesis by simp
qed

end
