(* ===== verification/Checksum.thy ===== *)
theory Checksum
  imports Prelude
begin

text \<open>
  The internet checksum of \<open>checksum.c\<close>. A buffer is the list of its bytes; reading behind its
  end is undefined (\<open>None\<close>). The sums are 32-bit words, as in the code, and the lemmas show
  where they do not wrap. What the functions compute is stated over the natural number that the
  buffer stands for as a sequence of 16-bit words, the last one padded with a zero byte.
\<close>


section \<open>Operations\<close>

text \<open>The loop of \<open>net_checksum_add\<close> from index \<open>i\<close> on.\<close>

function add_loop :: "nat \<Rightarrow> nat \<Rightarrow> uint8 list \<Rightarrow> uint32 \<Rightarrow> uint32 option" where
  "add_loop i len buf s =
     (if i < len then do {
        guard (i < length buf);
        add_loop (i + 1) len buf
          (if odd i then s + ucast (buf ! i) else s + push_bit 8 (ucast (buf ! i)))
      }
      else Some s)"
  by pat_completeness auto

termination by (relation "measure (\<lambda>(i, len, _). len - i)") auto

declare add_loop.simps [simp del]

definition net_checksum_add :: "nat \<Rightarrow> uint8 list \<Rightarrow> uint32 option" where
  "net_checksum_add len buf = add_loop 0 len buf 0"

lemma fold_step:
  "unat ((s AND 0xFFFF) + drop_bit 16 s :: uint32) = unat s mod 2 ^ 16 + unat s div 2 ^ 16"
proof -
  have m: "s AND 0xFFFF = take_bit 16 s" by (simp add: take_bit_eq_mask mask_eq_exp_minus_1)
  have "unat (take_bit 16 s) = unat s mod 2 ^ 16" 
    by (simp only: unsigned_take_bit_eq) (simp add: take_bit_eq_mod)
  moreover have d: "unat (drop_bit 16 s) = unat s div 2 ^ 16" 
    by (simp only: unat_drop_bit_eq) (simp add: drop_bit_eq_div)
  moreover have "unat s div 2 ^ 16 < 2 ^ 16" using unsigned_less [of s] by (simp add: div_less_iff_less_mult)
  ultimately show ?thesis unfolding m by (simp add: unat_word_ariths)
qed

lemma high_part: "drop_bit 16 s \<noteq> 0 \<longleftrightarrow> 2 ^ 16 \<le> unat (s :: uint32)"
proof -
  have "drop_bit 16 s \<noteq> 0 \<longleftrightarrow> unat (drop_bit 16 s) \<noteq> 0" by (simp only: unat_eq_0)
  also have "unat (drop_bit 16 s) = unat s div 2 ^ 16"
    by (simp only: unat_drop_bit_eq) (simp add: drop_bit_eq_div)
  finally show ?thesis by (auto simp: div_eq_0_iff)
qed

lemma fold_decreases:
  assumes "(2 :: nat) ^ 16 \<le> x"
  shows "x mod 2 ^ 16 + x div 2 ^ 16 < x"
proof -
  have "1 \<le> x div 2 ^ 16" using assms by (metis div_le_mono div_self power_not_zero zero_neq_numeral)
  then have "x div 2 ^ 16 < x div 2 ^ 16 * 2 ^ 16" by simp
  then show ?thesis using div_mult_mod_eq [of x "2 ^ 16"] by linarith
qed

function fold_carry :: "uint32 \<Rightarrow> uint32" where
  "fold_carry s = (if drop_bit 16 s \<noteq> 0 then fold_carry ((s AND 0xFFFF) + drop_bit 16 s) else s)"
  by pat_completeness auto

termination
  by (relation "measure unat") (use fold_decreases in \<open>auto simp: high_part fold_step\<close>)

declare fold_carry.simps [simp del]

definition net_checksum_finish :: "uint32 \<Rightarrow> uint16" where
  "net_checksum_finish s = ucast (NOT (fold_carry s))"

definition net_checksum_tcpudp ::
    "uint16 \<Rightarrow> uint16 \<Rightarrow> uint16 \<Rightarrow> uint8 list \<Rightarrow> uint8 list \<Rightarrow> uint8 list \<Rightarrow> uint16 option" where
  "net_checksum_tcpudp len npad proto src dst buf = do {
     let s = 0;
     x \<leftarrow> net_checksum_add (unat len + unat npad) buf;
     let s = s + x;
     x \<leftarrow> net_checksum_add 16 src;
     let s = s + x;
     x \<leftarrow> net_checksum_add 16 dst;
     let s = s + x;
     let s = s + (ucast proto + ucast len);
     Some (net_checksum_finish s)
   }"


section \<open>The sum of the 16-bit words\<close>

text \<open>The value of a sequence of bytes; the first byte is the high half of a word if \<open>hi\<close>.\<close>

fun words_sum :: "bool \<Rightarrow> uint8 list \<Rightarrow> nat" where
  "words_sum hi [] = 0"
| "words_sum hi (b # bs) = (if hi then 256 * unat b else unat b) + words_sum (\<not> hi) bs"

lemma words_sum_pad [simp]: "words_sum hi (bs @ replicate n 0) = words_sum hi bs"
  by (induction bs arbitrary: hi) (induction n arbitrary: hi, simp_all)

lemma words_sum_bound:
  "words_sum True bs \<le> 65535 * ((length bs + 1) div 2)" "words_sum False bs \<le> 65535 * (length bs div 2) + 255"
proof (induction bs)
  case (Cons b bs)
  have "unat b < 2 ^ LENGTH(8)" by (rule unsigned_less)
  then have b: "unat b \<le> 255" by simp
  { case 1 show ?case using Cons.IH(2) b by simp }
  { case 2 show ?case using Cons.IH(1) b by simp }
qed simp_all

lemma words_sum_update:
  "i < length bs \<Longrightarrow> bs ! i = 0 \<Longrightarrow>
   words_sum hi (bs[i := b]) = words_sum hi bs + (if even i = hi then 256 * unat b else unat b)"
proof (induction bs arbitrary: i hi)
  case (Cons x bs)
  then show ?case by (cases i) auto
qed simp

lemma add_loop_ok:
  "i \<le> len \<Longrightarrow> len \<le> length buf \<Longrightarrow>
   add_loop i len buf s = Some (s + word_of_nat (words_sum (even i) (drop i (take len buf))))"
proof (induction i len buf s rule: add_loop.induct)
  case (1 i len buf s)
  show ?case
  proof (cases "i < len")
    case False
    with 1(2) show ?thesis by (simp add: add_loop.simps [of len len])
  next
    case True
    with 1(3) have i: "i < length buf" by simp
    have d: "drop i (take len buf) = buf ! i # drop (Suc i) (take len buf)"
      using True i 1(3) by (simp add: Cons_nth_drop_Suc [symmetric])
    have lo: "ucast (buf ! i) = (word_of_nat (unat (buf ! i)) :: uint32)" by simp
    have hi: "push_bit 8 (ucast (buf ! i)) = (word_of_nat (256 * unat (buf ! i)) :: uint32)"
      by (simp add: push_bit_eq_mult)
    from 1(1) [OF True _] True i 1(3) show ?thesis
      by (subst add_loop.simps) (simp add: d hi)
  qed
qed

lemma net_checksum_add_ok:
  "len \<le> length buf \<Longrightarrow> net_checksum_add len buf = Some (word_of_nat (words_sum True (take len buf)))"
  by (simp add: net_checksum_add_def add_loop_ok)

lemma add_loop_short: "length buf < len \<Longrightarrow> i \<le> length buf \<Longrightarrow> add_loop i len buf s = None"
proof (induction i len buf s rule: add_loop.induct)
  case (1 i len buf s)
  show ?case
  proof (cases "i < length buf")
    case True
    with 1 show ?thesis by (subst add_loop.simps) simp
  next
    case False
    with 1(2,3) show ?thesis by (subst add_loop.simps) (simp add: guard_def)
  qed
qed


section \<open>Folding the carries\<close>

lemma carry_mod: "(r + q * 2 ^ 16) mod 65535 = (r + q) mod (65535 :: nat)"
proof -
  have "r + q * 2 ^ 16 = r + q + q * 65535" by simp
  then show ?thesis by (simp only: mod_mult_self1)
qed

lemma fold_carry_ok:
  "unat (fold_carry s) < 2 ^ 16 \<and> unat (fold_carry s) mod 65535 = unat s mod 65535 \<and>
   (fold_carry s = 0 \<longleftrightarrow> s = 0)"
proof (induction s rule: fold_carry.induct)
  case (1 s)
  show ?case
  proof (cases "drop_bit 16 s = 0")
    case True
    then have "unat s < 2 ^ 16" using high_part [of s] by simp
    then show ?thesis using True by (simp add: fold_carry.simps [of s])
  next
    case False
    let ?s = "(s AND 0xFFFF) + drop_bit 16 s"
    note IH = 1 [OF False]
    have "unat ?s mod 65535 = (unat s mod 2 ^ 16 + unat s div 2 ^ 16 * 2 ^ 16) mod 65535"
      unfolding fold_step by (rule carry_mod [symmetric])
    also have "unat s mod 2 ^ 16 + unat s div 2 ^ 16 * 2 ^ 16 = unat s"
      using mod_div_mult_eq by blast
    finally have m: "unat ?s mod 65535 = unat s mod 65535" .
    have "2 ^ 16 \<le> unat s" using False high_part by blast
    then have "1 \<le> unat s div 2 ^ 16" by (metis div_le_mono div_self power_not_zero zero_neq_numeral)
    then have "unat ?s \<noteq> 0" unfolding fold_step by simp
    then have "?s \<noteq> 0" "s \<noteq> 0" using False by auto
    then show ?thesis using IH m False by (simp add: fold_carry.simps [of s])
  qed
qed

lemma net_checksum_finish_ok: "unat (net_checksum_finish s) = 65535 - unat (fold_carry s)"
proof -
  have "fold_carry s = take_bit 16 (fold_carry s)"
    using fold_carry_ok [of s]
    by (metis take_bit_nat_eq_self_iff unsigned_take_bit_eq word_unat_eq_iff)
  then have "ucast (NOT (fold_carry s)) = NOT (ucast (fold_carry s) :: uint16)"
    by (intro bit_eqI) (simp add: bit_simps)
  moreover have "unat (ucast (fold_carry s) :: uint16) = unat (fold_carry s)"
    using fold_carry_ok [of s] by (simp add: unsigned_ucast_eq take_bit_nat_eq_self)
  moreover have "unat (NOT w) = 65535 - unat w" for w :: uint16
  proof -
    have "NOT w = - 1 - w" by (simp add: not_eq_complement)
    moreover have "unat (- 1 - w) = unat (- 1 :: uint16) - unat w" by (intro unat_sub word_order.extremum)
    moreover have "unat (- 1 :: uint16) = 65535"
      by (simp add: unsigned_minus_1_eq_mask mask_eq_exp_minus_1)
    ultimately show ?thesis by simp
  qed
  ultimately show ?thesis by (simp add: net_checksum_finish_def)
qed



section \<open>The checksum of a segment\<close>

text \<open>The sum the checksum is taken of: the segment and the pseudo header.\<close>

definition segment_sum :: "uint16 \<Rightarrow> uint16 \<Rightarrow> uint8 list \<Rightarrow> uint8 list \<Rightarrow> uint8 list \<Rightarrow> nat" where
  "segment_sum len proto src dst buf = words_sum True (take (unat len) buf) +
     words_sum True (take 16 src) + words_sum True (take 16 dst) + unat proto + unat len"

lemma segment_sum_bound: "segment_sum len proto src dst buf < 2 ^ 32 - 65535"
proof -
  have w: "unat (x :: uint16) \<le> 65535" for x
  proof -
    have "unat x < 2 ^ LENGTH(16)" by (rule unsigned_less)
    then show ?thesis by simp
  qed
  have b: "words_sum True (take n bs) \<le> 65535 * ((n + 1) div 2)" for n bs
  proof -
    have "words_sum True (take n bs) \<le> 65535 * ((length (take n bs) + 1) div 2)"
      by (rule words_sum_bound)
    also have "\<dots> \<le> 65535 * ((n + 1) div 2)" by (intro mult_le_mono div_le_mono) auto
    finally show ?thesis .
  qed
  have "(unat len + 1) div 2 \<le> 65536 div 2" using w [of len] by (intro div_le_mono) simp
  then have "65535 * ((unat len + 1) div 2) \<le> 65535 * 32768" by simp
  then have "words_sum True (take (unat len) buf) \<le> 65535 * 32768"
    using b [of "unat len" buf] by (rule order_trans [rotated])
  moreover have "words_sum True (take 16 bs) \<le> 65535 * 8" for bs using b [of 16 bs] by simp
  from this [of src] this [of dst]
  have "words_sum True (take 16 src) + words_sum True (take 16 dst) \<le> 65535 * 16" by simp
  ultimately show ?thesis using w [of len] w [of proto] unfolding segment_sum_def by simp
qed

lemma net_checksum_tcpudp_eq:
  assumes "unat len + unat npad \<le> length buf" "16 \<le> length src" "16 \<le> length dst"
  shows "net_checksum_tcpudp len npad proto src dst buf = Some (net_checksum_finish (word_of_nat
    (words_sum True (take (unat len + unat npad) buf) +
     words_sum True (take 16 src) + words_sum True (take 16 dst) + unat proto + unat len)))"
  using assms by (simp add: net_checksum_tcpudp_def net_checksum_add_ok ac_simps)

lemma net_checksum_tcpudp_sum:
  assumes "unat len \<le> length buf" "16 \<le> length src" "16 \<le> length dst"
  shows "net_checksum_tcpudp len 0 proto src dst buf =
    Some (net_checksum_finish (word_of_nat (segment_sum len proto src dst buf)))"
  using net_checksum_tcpudp_eq [of len 0 buf src dst proto] assms by (simp add: segment_sum_def)

text \<open>The checksum that belongs to a sum, without words.\<close>

lemma finish_sum:
  assumes "n < 2 ^ 32"
  shows "\<exists>r. unat (net_checksum_finish (word_of_nat n)) = 65535 - r \<and> r \<le> 65535 \<and>
    r mod 65535 = n mod 65535 \<and> (r = 0 \<longleftrightarrow> n = 0)"
proof -
  let ?s = "word_of_nat n :: uint32"
  have n: "unat ?s = n" using assms by (simp add: unat_of_nat)
  have "?s = 0 \<longleftrightarrow> n = 0" using n by (metis unat_0 unat_eq_0)
  moreover have "unat (fold_carry ?s) = 0 \<longleftrightarrow> fold_carry ?s = 0" by (rule unat_eq_0)
  ultimately show ?thesis
    using fold_carry_ok [of ?s] n net_checksum_finish_ok [of ?s]
    by (intro exI [of _ "unat (fold_carry ?s)"]) auto
qed

text \<open>
  A 16-bit value is stored in network byte order; \<open>store16\<close> is the assignment
  \<open>field = htons(x)\<close> to the field at offset \<open>i\<close>, \<open>load16\<close> its reading \<open>ntohs(field)\<close>.
\<close>

definition store16 :: "nat \<Rightarrow> uint16 \<Rightarrow> uint8 list \<Rightarrow> uint8 list" where
  "store16 i x buf = buf[i := ucast (drop_bit 8 x), i + 1 := ucast x]"

definition load16 :: "nat \<Rightarrow> uint8 list \<Rightarrow> uint16" where
  "load16 i buf = push_bit 8 (ucast (buf ! i)) OR ucast (buf ! (i + 1))"

lemma length_store16 [simp]: "length (store16 i x buf) = length buf"
  by (simp add: store16_def)

lemma load16_store16: "i + 1 < length buf \<Longrightarrow> load16 i (store16 i x buf) = x"
  by (rule bit_eqI) (auto simp: load16_def store16_def bit_simps)

lemma load16_other: "i + 1 < j \<or> j + 1 < i \<Longrightarrow> load16 i (store16 j x buf) = load16 i buf"
  by (auto simp: load16_def store16_def nth_list_update)

lemma unat_halves: "256 * unat (ucast (drop_bit 8 x) :: uint8) + unat (ucast x :: uint8) = unat (x :: uint16)"
proof -
  have x: "unat x < 2 ^ LENGTH(16)" by (rule unsigned_less)
  then have "unat x div 2 ^ 8 < 2 ^ 8" by (simp add: div_less_iff_less_mult)
  then have "unat (ucast (drop_bit 8 x) :: uint8) = unat x div 2 ^ 8"
    by (simp only: unsigned_ucast_eq unat_drop_bit_eq drop_bit_eq_div take_bit_eq_mod) (simp add: unat_div)
  moreover have "unat (ucast x :: uint8) = unat x mod 2 ^ 8"
    by (simp only: unsigned_ucast_eq take_bit_eq_mod) simp
  ultimately show ?thesis using mult_div_mod_eq [of "2 ^ 8" "unat x"] by simp
qed

lemma words_sum_store16:
  assumes "even i" "i + 1 < length bs" "bs ! i = 0" "bs ! (i + 1) = 0"
  shows "words_sum True (store16 i x bs) = words_sum True bs + unat x"
  using assms by (simp add: store16_def words_sum_update unat_halves [symmetric])

lemma take_store16: "i + 1 < n \<Longrightarrow> take n (store16 i x bs) = store16 i x (take n bs)"
  by (simp add: store16_def take_update_swap)

text \<open>
  A segment with the checksum in it checks: over it the function gives 0. A checksum of 0 is
  possible as well; in UDP it means that there is none.
\<close>

lemma checksum_checks:
  assumes len: "unat len \<le> length buf" "16 \<le> length src" "16 \<le> length dst"
    and i: "even i" "i + 1 < unat len" "buf ! i = 0" "buf ! (i + 1) = 0"
    and c: "net_checksum_tcpudp len 0 proto src dst buf = Some c"
  shows "net_checksum_tcpudp len 0 proto src dst (store16 i c buf) = Some 0"
proof -
  let ?n = "segment_sum len proto src dst buf"
  have bound: "?n < 2 ^ 32 - 65535" by (rule segment_sum_bound)
  have cw: "c = net_checksum_finish (word_of_nat ?n)" using c net_checksum_tcpudp_sum [OF len] by simp
  have n32: "?n < 2 ^ 32" using bound by simp
  obtain r where r: "unat c = 65535 - r" "r \<le> 65535" "r mod 65535 = ?n mod 65535" "r = 0 \<longleftrightarrow> ?n = 0"
    using finish_sum [OF n32, folded cw] that by (elim exE conjE)
  have n': "segment_sum len proto src dst (store16 i c buf) = ?n + unat c"
    using i len(1) by (simp add: segment_sum_def take_store16 words_sum_store16)
  have "(?n + unat c) mod 65535 = (r + (65535 - r)) mod 65535"
    unfolding r(1) by (rule mod_add_cong [OF r(3) [symmetric] refl])
  then have m: "(?n + unat c) mod 65535 = 0" using r(2) by simp
  have "?n + unat c \<noteq> 0" using r(1,4) by auto
  have n32': "?n + unat c < 2 ^ 32" using bound r(1) by simp
  obtain r' where r': "unat (net_checksum_finish (word_of_nat (?n + unat c))) = 65535 - r'"
      "r' \<le> 65535" "r' mod 65535 = (?n + unat c) mod 65535" "r' = 0 \<longleftrightarrow> ?n + unat c = 0"
    using finish_sum [OF n32'] that by (elim exE conjE)
  have "r' = 65535" using m r'(2-4) \<open>?n + unat c \<noteq> 0\<close> by (cases "r' = 65535") auto
  then have "net_checksum_finish (word_of_nat (?n + unat c)) = 0"
    using r'(1) by (simp add: unat_eq_0 [symmetric])
  then show ?thesis using net_checksum_tcpudp_sum [of len "store16 i c buf" src dst proto] len n' by simp
qed

end
