(* ===== verification/Header.thy ===== *)
theory Header
  imports Prelude
begin

text \<open>
  The MEADcast header of \<open>core.h\<close>, its size (\<open>get_mdc_hdr_size\<close> of \<open>core.c\<close>) and the
  functions of \<open>tx.c\<close> that fill one in (\<open>set_rt_hdr\<close>, \<open>set_dcvr_hdr\<close>, \<open>set_data_hdr\<close>).

  The union of \<open>flags\<close> and its bit fields is the 32-bit word \<open>flags\<close> with one reading and
  one writing function per field. The fields are laid out from the least significant bit, as
  the compilers of the little-endian targets of the program do; the constant \<open>0x101\<close> that
  \<open>set_dcvr_hdr\<close> stores relies on the same layout.
\<close>


section \<open>Data of core.h\<close>

definition IPV6_MEADCAST :: uint8 where "IPV6_MEADCAST = 253"
definition IPPROTO_NONE :: uint8 where "IPPROTO_NONE = 59"
definition IPPROTO_UDP :: uint8 where "IPPROTO_UDP = 17"

record ip6_rthdr =
  ip6r_nxt :: uint8
  ip6r_len :: uint8
  ip6r_type :: uint8
  ip6r_segleft :: uint8

record ip6_mdc_hdr =
  mdc_rthdr :: ip6_rthdr
  mdc_flags :: uint32
  mdc_dlvm :: uint32
  mdc_rtm :: uint32
  mdc_addr :: "in6_addr list"

definition hdr_dsts :: "ip6_mdc_hdr \<Rightarrow> uint32" where
  "hdr_dsts h = mdc_flags h AND 0xFF"

definition hdr_dcv :: "ip6_mdc_hdr \<Rightarrow> bool" where
  "hdr_dcv h = bit (mdc_flags h) 8"

definition hdr_rsp :: "ip6_mdc_hdr \<Rightarrow> bool" where
  "hdr_rsp h = bit (mdc_flags h) 9"

definition hdr_hops :: "ip6_mdc_hdr \<Rightarrow> uint32" where
  "hdr_hops h = drop_bit 10 (mdc_flags h) AND 0x3F"

definition hdr_res :: "ip6_mdc_hdr \<Rightarrow> uint32" where
  "hdr_res h = drop_bit 16 (mdc_flags h)"

text \<open>The assignment \<open>hdr->dsts = len\<close>: the low byte of \<open>len\<close> replaces the field.\<close>

definition set_dsts :: "size_t \<Rightarrow> ip6_mdc_hdr \<Rightarrow> ip6_mdc_hdr" where
  "set_dsts len h =
     h\<lparr>mdc_flags := (mdc_flags h AND NOT 0xFF) OR (word_of_nat len AND 0xFF)\<rparr>"

text \<open>A header of zero bytes with room for \<open>len\<close> addresses, as \<open>calloc\<close> returns it.\<close>

definition zero_hdr :: "size_t \<Rightarrow> ip6_mdc_hdr" where
  "zero_hdr len = \<lparr>mdc_rthdr = \<lparr>ip6r_nxt = 0, ip6r_len = 0, ip6r_type = 0, ip6r_segleft = 0\<rparr>,
     mdc_flags = 0, mdc_dlvm = 0, mdc_rtm = 0, mdc_addr = replicate len 0\<rparr>"


section \<open>Operations\<close>

definition sizeof_mdc_hdr :: size_t where "sizeof_mdc_hdr = 16"
definition sizeof_in6_addr :: size_t where "sizeof_in6_addr = 16"

definition get_mdc_hdr_size :: "size_t \<Rightarrow> size_t" where
  "get_mdc_hdr_size num_dst =
     (let mdc_pl = sizeof_mdc_hdr + num_dst * sizeof_in6_addr;
          pad = size_sub 8 (mdc_pl AND 7) AND 7
      in mdc_pl + pad)"

definition set_rt_hdr :: "uint8 \<Rightarrow> uint8 \<Rightarrow> uint8 \<Rightarrow> uint8 \<Rightarrow> ip6_mdc_hdr \<Rightarrow> ip6_mdc_hdr" where
  "set_rt_hdr nh len type segleft h =
     h\<lparr>mdc_rthdr := (mdc_rthdr h)\<lparr>ip6r_nxt := nh, ip6r_len := len, ip6r_type := type,
       ip6r_segleft := segleft\<rparr>\<rparr>"

text \<open>Returns the header and its length, cut to a byte by the function's return type.\<close>

definition set_dcvr_hdr :: "ip6_mdc_hdr \<Rightarrow> ip6_mdc_hdr \<times> uint8" where
  "set_dcvr_hdr h =
     (let h = h\<lparr>mdc_flags := 0x101\<rparr>;
          h = h\<lparr>mdc_dlvm := 0\<rparr>;
          h = h\<lparr>mdc_rtm := 0\<rparr>;
          mdc_len = get_mdc_hdr_size 1;
          rt_len = word_of_nat (size_sub (mdc_len div 8) 1);
          h = set_rt_hdr IPPROTO_NONE rt_len IPV6_MEADCAST 0 h
      in (h, word_of_nat mdc_len))"

text \<open>
  The header that \<open>set_data_hdr\<close> allocates and fills: \<open>addrs\<close> is the caller's array, of
  which the first \<open>len\<close> entries are copied.
\<close>

definition set_data_hdr :: "in6_addr list \<Rightarrow> size_t \<Rightarrow> uint32 \<Rightarrow> ip6_mdc_hdr" where
  "set_data_hdr addrs len bm =
     (let mdc_len = get_mdc_hdr_size len;
          rt_len = word_of_nat (size_sub (mdc_len div 8) 1);
          hdr = zero_hdr len;
          hdr = set_rt_hdr IPPROTO_UDP rt_len IPV6_MEADCAST 0 hdr;
          hdr = set_dsts len hdr;
          hdr = hdr\<lparr>mdc_dlvm := bm\<rparr>;
          hdr = hdr\<lparr>mdc_rtm := bm\<rparr>
      in hdr\<lparr>mdc_addr := take len addrs\<rparr>)"


section \<open>Size and fields\<close>

lemma and_7_nat: "(x :: nat) AND 7 = x mod 8"
  using take_bit_eq_mask [of 3 x] by (simp add: mask_eq_exp_minus_1 take_bit_eq_mod)

lemma get_mdc_hdr_size_eq [hdr_simps]: "get_mdc_hdr_size n = 16 * (n + 1)"
proof -
  have "(16 + n * 16) mod 8 = (0 :: nat)" by presburger
  then show ?thesis
    by (simp add: get_mdc_hdr_size_def Let_def sizeof_mdc_hdr_def sizeof_in6_addr_def and_7_nat)
qed

lemma mdc_flags_set_dsts [hdr_simps]:
  "mdc_flags (set_dsts len h) = (mdc_flags h AND NOT 0xFF) OR (word_of_nat len AND 0xFF)"
  by (simp add: set_dsts_def)

lemma and_FF: "(w :: uint32) AND 0xFF = take_bit 8 w"
  by (simp add: take_bit_eq_mask mask_eq_exp_minus_1)

lemma bit_masks [simp]:
  "bit (0xFF :: int) i \<longleftrightarrow> i < 8"
  "bit (0x3F :: int) i \<longleftrightarrow> i < 6"
  "bit (0x3FFFFF :: int) i \<longleftrightarrow> i < 22"
proof -
  have m: "(0xFF :: int) = mask 8" "(0x3F :: int) = mask 6" "(0x3FFFFF :: int) = mask 22"
    by (simp_all add: mask_eq_exp_minus_1)
  show "bit (0xFF :: int) i \<longleftrightarrow> i < 8" unfolding m by (simp only: bit_mask_iff) simp
  show "bit (0x3F :: int) i \<longleftrightarrow> i < 6" unfolding m by (simp only: bit_mask_iff) simp
  show "bit (0x3FFFFF :: int) i \<longleftrightarrow> i < 22" unfolding m by (simp only: bit_mask_iff) simp
qed

lemma hdr_dsts_set_dsts [hdr_simps]: "hdr_dsts (set_dsts len h) = word_of_nat len AND 0xFF"
  unfolding hdr_dsts_def mdc_flags_set_dsts by (rule bit_eqI) (auto simp: bit_simps)

lemma set_dsts_other [hdr_simps]:
  "hdr_dcv (set_dsts len h) = hdr_dcv h"
  "hdr_rsp (set_dsts len h) = hdr_rsp h"
  "hdr_hops (set_dsts len h) = hdr_hops h"
proof -
  show "hdr_dcv (set_dsts len h) = hdr_dcv h"
    by (simp add: hdr_dcv_def mdc_flags_set_dsts bit_simps)
  show "hdr_rsp (set_dsts len h) = hdr_rsp h"
    by (simp add: hdr_rsp_def mdc_flags_set_dsts bit_simps)
  show "hdr_hops (set_dsts len h) = hdr_hops h"
    unfolding hdr_hops_def mdc_flags_set_dsts by (rule bit_eqI) (auto simp: bit_simps)
qed

lemma set_data_hdr_fields [hdr_simps]:
  "mdc_addr (set_data_hdr addrs len bm) = take len addrs"
  "mdc_dlvm (set_data_hdr addrs len bm) = bm"
  "mdc_rtm (set_data_hdr addrs len bm) = bm"
  "hdr_dsts (set_data_hdr addrs len bm) = word_of_nat len AND 0xFF"
  "hdr_dcv (set_data_hdr addrs len bm) \<longleftrightarrow> False"
  "hdr_rsp (set_data_hdr addrs len bm) \<longleftrightarrow> False"
  by (simp_all add: set_data_hdr_def Let_def set_rt_hdr_def zero_hdr_def hdr_dsts_def hdr_dcv_def
      hdr_rsp_def set_dsts_def bit_simps)

lemma set_data_hdr_rthdr [hdr_simps]:
  "mdc_rthdr (set_data_hdr addrs len bm) =
     \<lparr>ip6r_nxt = IPPROTO_UDP, ip6r_len = word_of_nat (2 * len + 1),
      ip6r_type = IPV6_MEADCAST, ip6r_segleft = 0\<rparr>"
  by (simp add: set_data_hdr_def Let_def set_rt_hdr_def zero_hdr_def set_dsts_def
      get_mdc_hdr_size_eq)

lemma unat_hdr_dsts_set_data_hdr [hdr_simps]:
  "len < 256 \<Longrightarrow> unat (hdr_dsts (set_data_hdr addrs len bm)) = len"
  by (simp add: set_data_hdr_fields and_FF unsigned_take_bit_eq unat_of_nat
      take_bit_nat_eq_self)

end
