(* ===== verification/Memory.thy ===== *)
theory Memory
  imports Header
begin

text \<open>
  The data types of \<open>group.h\<close> and \<open>tree.h\<close>, and the memory they live in.

  The memory keeps one partial map per type of object, so an update of a router leaves every list
  cell where it is, as C's typed pointers promise. A pointer is the number of an object; an
  object and its first member (a leaf or router and its \<open>struct node\<close>) have the same one, and a
  pointer to the receiver inside a leaf is the number of that leaf. Number 0 is the null pointer.
  Allocation hands out numbers that were never used before; freeing removes the object, and using
  it afterwards is undefined (\<open>None\<close>). Memory that \<open>malloc\<close> returns and the program does not
  initialise reads as zero; the program writes those members before it reads them.
\<close>


section \<open>Data of group.h and tree.h\<close>

definition AF_INET6 :: uint16 where "AF_INET6 = 10"

definition LEAF_NODE :: uint8 where "LEAF_NODE = 0"
definition ROUTER_NODE :: uint8 where "ROUTER_NODE = 1"
definition BITMAP_LIMIT :: size_t where "BITMAP_LIMIT = 32"

text \<open>The value of \<open>(size_t) -1\<close>; evaluation leaves it as it is.\<close>

definition SIZE_MAX :: size_t where "SIZE_MAX = 2 ^ 64 - 1"

declare SIZE_MAX_def [code del]

record sockaddr_in6 =
  sin6_family :: uint16
  sin6_port :: uint16
  sin6_addr :: in6_addr

record addr =
  addr_sa :: sockaddr_in6
  addr_port :: uint16

record rcvr =
  rcvr_addr :: addr
  rcvr_hops :: size_t
  rcvr_next :: ptr

record child =
  child_v :: ptr
  child_n :: ptr

record node =
  node_parent :: ptr
  node_type :: uint8

record leaf =
  leaf_node :: node
  leaf_val :: rcvr

record router =
  router_node :: node
  router_sa :: sockaddr_in6
  router_hops :: size_t
  router_child :: ptr
  router_leaf :: ptr
  router_nchild :: size_t
  router_fchild :: size_t
  router_nleaf :: size_t
  router_fleaf :: size_t

record tx_group =
  txg_mdc :: ptr
  txg_nuni :: size_t
  txg_uni :: "addr list"

record heap =
  cells :: "ptr \<Rightarrow> child option"
  leafs :: "ptr \<Rightarrow> leaf option"
  routers :: "ptr \<Rightarrow> router option"
  hdrs :: "ptr \<Rightarrow> ip6_mdc_hdr option"
  brk :: ptr

definition empty_heap :: heap where
  "empty_heap = \<lparr>cells = Map.empty, leafs = Map.empty, routers = Map.empty, hdrs = Map.empty,
     brk = 1\<rparr>"


section \<open>Allocation\<close>

definition new_cell :: "child \<Rightarrow> heap \<Rightarrow> ptr \<times> heap" where
  "new_cell c h = (brk h, h\<lparr>cells := (cells h)(brk h \<mapsto> c), brk := Suc (brk h)\<rparr>)"

definition new_leaf :: "leaf \<Rightarrow> heap \<Rightarrow> ptr \<times> heap" where
  "new_leaf l h = (brk h, h\<lparr>leafs := (leafs h)(brk h \<mapsto> l), brk := Suc (brk h)\<rparr>)"

definition new_router :: "router \<Rightarrow> heap \<Rightarrow> ptr \<times> heap" where
  "new_router r h = (brk h, h\<lparr>routers := (routers h)(brk h \<mapsto> r), brk := Suc (brk h)\<rparr>)"

definition new_hdr :: "ip6_mdc_hdr \<Rightarrow> heap \<Rightarrow> ptr \<times> heap" where
  "new_hdr d h = (brk h, h\<lparr>hdrs := (hdrs h)(brk h \<mapsto> d), brk := Suc (brk h)\<rparr>)"

text \<open>
  \<open>free\<close>: nothing happens for a null pointer, and for a pointer that is not to an object it is
  undefined.
\<close>

definition del_cell :: "ptr \<Rightarrow> heap \<Rightarrow> heap" where
  "del_cell c h = h\<lparr>cells := (cells h)(c := None)\<rparr>"

definition free_cell :: "ptr \<Rightarrow> heap \<Rightarrow> heap option" where
  "free_cell c h = (if c = NULL then Some h else do { _ \<leftarrow> cells h c; Some (del_cell c h) })"

definition free_leaf :: "ptr \<Rightarrow> heap \<Rightarrow> heap option" where
  "free_leaf l h =
     (if l = NULL then Some h else do { _ \<leftarrow> leafs h l; Some (h\<lparr>leafs := (leafs h)(l := None)\<rparr>) })"

definition del_router :: "ptr \<Rightarrow> heap \<Rightarrow> heap" where
  "del_router r h = h\<lparr>routers := (routers h)(r := None)\<rparr>"

definition free_router_obj :: "ptr \<Rightarrow> heap \<Rightarrow> heap option" where
  "free_router_obj r h = (if r = NULL then Some h else do { _ \<leftarrow> routers h r; Some (del_router r h) })"

lemma free_ok:
  "c \<noteq> NULL \<Longrightarrow> cells h c \<noteq> None \<Longrightarrow> free_cell c h = Some (del_cell c h)"
  "r \<noteq> NULL \<Longrightarrow> routers h r \<noteq> None \<Longrightarrow> free_router_obj r h = Some (del_router r h)"
  by (auto simp: free_cell_def free_router_obj_def)


section \<open>Access through pointers\<close>

text \<open>A router behind a pointer: writing requires that it is there, as reading does.\<close>

definition upd_router :: "ptr \<Rightarrow> (router \<Rightarrow> router) \<Rightarrow> heap \<Rightarrow> heap option" where
  "upd_router p f h = do {
     r \<leftarrow> routers h p;
     Some (h\<lparr>routers := (routers h)(p \<mapsto> f r)\<rparr>)
   }"

text \<open>\<open>get_node(p)\<close>: the \<open>struct node\<close> at the start of the leaf or router \<open>p\<close>.\<close>

definition get_node :: "ptr \<Rightarrow> heap \<Rightarrow> node option" where
  "get_node p h = (case leafs h p of
     Some l \<Rightarrow> Some (leaf_node l)
   | None \<Rightarrow> (case routers h p of Some r \<Rightarrow> Some (router_node r) | None \<Rightarrow> None))"

text \<open>\<open>get_node(p)->parent = q\<close>.\<close>

definition set_node_parent :: "ptr \<Rightarrow> ptr \<Rightarrow> heap \<Rightarrow> heap option" where
  "set_node_parent p q h = (case leafs h p of
     Some l \<Rightarrow> Some (h\<lparr>leafs := (leafs h)(p \<mapsto> leaf_node_update (node_parent_update (\<lambda>_. q)) l)\<rparr>)
   | None \<Rightarrow> (case routers h p of
       Some r \<Rightarrow>
         Some (h\<lparr>routers := (routers h)(p \<mapsto> router_node_update (node_parent_update (\<lambda>_. q)) r)\<rparr>)
     | None \<Rightarrow> None))"

text \<open>\<open>set_parent\<close> of \<open>tree.h\<close>: \<open>p\<close> becomes the parent of the node behind the cell \<open>c\<close>.\<close>

definition set_parent :: "ptr \<Rightarrow> ptr \<Rightarrow> heap \<Rightarrow> (int \<times> heap) option" where
  "set_parent c p h =
     (if c = NULL then Some (EXIT_FAILURE, h)
      else do {
        ce \<leftarrow> cells h c;
        if child_v ce = NULL then Some (EXIT_FAILURE, h)
        else do {
          h' \<leftarrow> set_node_parent (child_v ce) p h;
          Some (EXIT_SUCCESS, h')
        }
      })"


section \<open>Facts about the memory\<close>

text \<open>The parent and the type of a node, for stating properties.\<close>

definition parent_of :: "heap \<Rightarrow> ptr \<Rightarrow> ptr option" where
  "parent_of h p = map_option node_parent (get_node p h)"

lemma get_node_leaf [mem_simps]: "leafs h p = Some l \<Longrightarrow> get_node p h = Some (leaf_node l)"
  by (simp add: get_node_def)

lemma get_node_router [mem_simps]:
  "leafs h p = None \<Longrightarrow> routers h p = Some r \<Longrightarrow> get_node p h = Some (router_node r)"
  by (simp add: get_node_def)

lemma upd_router_Some [mem_simps]:
  "routers h p = Some r \<Longrightarrow> upd_router p f h = Some (h\<lparr>routers := (routers h)(p \<mapsto> f r)\<rparr>)"
  by (simp add: upd_router_def)

lemma set_node_parent_leaf [mem_simps]:
  "leafs h p = Some l \<Longrightarrow> set_node_parent p q h =
     Some (h\<lparr>leafs := (leafs h)(p \<mapsto> leaf_node_update (node_parent_update (\<lambda>_. q)) l)\<rparr>)"
  by (simp add: set_node_parent_def)

lemma set_node_parent_router [mem_simps]:
  "leafs h p = None \<Longrightarrow> routers h p = Some r \<Longrightarrow> set_node_parent p q h =
     Some (h\<lparr>routers := (routers h)(p \<mapsto> router_node_update (node_parent_update (\<lambda>_. q)) r)\<rparr>)"
  by (simp add: set_node_parent_def)

text \<open>
  The effect of \<open>set_node_parent\<close> as a total function, for leafs and routers alike.
\<close>

definition is_node :: "heap \<Rightarrow> ptr \<Rightarrow> bool" where
  "is_node h v \<longleftrightarrow> leafs h v \<noteq> None \<or> routers h v \<noteq> None"

definition with_parent :: "ptr \<Rightarrow> ptr \<Rightarrow> heap \<Rightarrow> heap" where
  "with_parent v p h = h\<lparr>
     leafs := (leafs h)(v := map_option (leaf_node_update (node_parent_update (\<lambda>_. p))) (leafs h v)),
     routers := (routers h)(v := (if leafs h v = None
       then map_option (router_node_update (node_parent_update (\<lambda>_. p))) (routers h v)
       else routers h v))\<rparr>"

definition with_parents :: "ptr list \<Rightarrow> ptr \<Rightarrow> heap \<Rightarrow> heap" where
  "with_parents vs p h = fold (\<lambda>v. with_parent v p) vs h"

lemma set_node_parent_ok: "is_node h v \<Longrightarrow> set_node_parent v p h = Some (with_parent v p h)"
proof (cases "leafs h v")
  case None
  moreover assume "is_node h v"
  ultimately show ?thesis
    by (auto simp: is_node_def set_node_parent_def with_parent_def fun_upd_idem intro!: heap.equality)
next
  case (Some l)
  then show ?thesis
    by (auto simp: set_node_parent_def with_parent_def fun_upd_idem intro!: heap.equality)
qed

lemma with_parent_other [mem_simps]:
  "cells (with_parent v p h) = cells h"
  "hdrs (with_parent v p h) = hdrs h"
  "brk (with_parent v p h) = brk h"
  "is_node (with_parent v p h) w = is_node h w"
  by (auto simp: with_parent_def is_node_def)

lemma with_parents_simps [mem_simps]:
  "with_parents [] p h = h"
  "with_parents (v # vs) p h = with_parents vs p (with_parent v p h)"
  by (simp_all add: with_parents_def)

lemma with_parents_append [mem_simps]:
  "with_parents (vs @ ws) p h = with_parents ws p (with_parents vs p h)"
  by (simp add: with_parents_def)

lemma with_parents_other [mem_simps]:
  "cells (with_parents vs p h) = cells h"
  "hdrs (with_parents vs p h) = hdrs h"
  "brk (with_parents vs p h) = brk h"
  "is_node (with_parents vs p h) w = is_node h w"
  by (induction vs arbitrary: h) (simp_all add: mem_simps)

end
