(* ===== verification/Lists.thy ===== *)
theory Lists
  imports Memory
begin

text \<open>
  The singly linked lists of \<open>list.h\<close> and \<open>list.c\<close>.

  A router owns two counted lists, its child routers and its leafs. The C functions take the
  addresses of the three members of such a list (head, length, number of free elements); the model
  passes their values as a record \<open>lhead\<close> and the callers write the new values back. The content
  of a list is the relation \<open>chain\<close>: the cells from the head on, each with the node it points to.
  The theorems say what each operation does to that content.
\<close>


section \<open>Operations\<close>

record lhead =
  lh_l :: ptr
  lh_n :: size_t
  lh_f :: size_t

definition upd_cell :: "ptr \<Rightarrow> (child \<Rightarrow> child) \<Rightarrow> heap \<Rightarrow> heap option" where
  "upd_cell c f h = do {
     ce \<leftarrow> cells h c;
     Some (h\<lparr>cells := (cells h)(c \<mapsto> f ce)\<rparr>)
   }"

definition upd_leaf :: "ptr \<Rightarrow> (leaf \<Rightarrow> leaf) \<Rightarrow> heap \<Rightarrow> heap option" where
  "upd_leaf p f h = do {
     l \<leftarrow> leafs h p;
     Some (h\<lparr>leafs := (leafs h)(p \<mapsto> f l)\<rparr>)
   }"

definition add_child :: "ptr \<Rightarrow> lhead \<Rightarrow> ptr \<Rightarrow> heap \<Rightarrow> (int \<times> lhead \<times> heap) option" where
  "add_child p l c h = do {
     (e, h) \<leftarrow> set_parent c p h;
     if e \<noteq> 0 then Some (EXIT_FAILURE, l, h)
     else do {
       h \<leftarrow> upd_cell c (child_n_update (\<lambda>_. if lh_n l \<noteq> 0 then lh_l l else NULL)) h;
       Some (EXIT_SUCCESS, \<lparr>lh_l = c, lh_n = lh_n l + 1, lh_f = lh_f l + 1\<rparr>, h)
     }
   }"

text \<open>The loop of \<open>add_childs\<close>: the last cell from \<open>i\<close> on and the number of cells.\<close>

partial_function (option) add_childs_loop ::
    "ptr \<Rightarrow> ptr \<Rightarrow> size_t \<Rightarrow> heap \<Rightarrow> (ptr \<times> size_t \<times> heap) option" where
  "add_childs_loop p i m h = do {
     ce \<leftarrow> cells h i;
     if child_n ce \<noteq> NULL then do {
       (_, h) \<leftarrow> set_parent i p h;
       ce \<leftarrow> cells h i;
       add_childs_loop p (child_n ce) (m + 1) h
     }
     else Some (i, m, h)
   }"

declare add_childs_loop.simps [code]

definition add_childs :: "ptr \<Rightarrow> lhead \<Rightarrow> ptr \<Rightarrow> heap \<Rightarrow> (int \<times> lhead \<times> heap) option" where
  "add_childs p l c h =
     (if c = NULL then Some (- 1, l, h)
      else do {
        (i, m, h) \<leftarrow> add_childs_loop p c 1 h;
        (_, h) \<leftarrow> set_parent i p h;
        h \<leftarrow> upd_cell i (child_n_update (\<lambda>_. if lh_n l \<noteq> 0 then lh_l l else NULL)) h;
        Some (0, \<lparr>lh_l = c, lh_n = lh_n l + m, lh_f = lh_f l + m\<rparr>, h)
      })"

text \<open>The search of \<open>rm_child\<close>: the cell before the one for \<open>v\<close>, or null.\<close>

partial_function (option) rm_find :: "ptr \<Rightarrow> ptr \<Rightarrow> heap \<Rightarrow> ptr option" where
  "rm_find v i h = do {
     ci \<leftarrow> cells h i;
     if child_n ci \<noteq> NULL then do {
       cn \<leftarrow> cells h (child_n ci);
       if child_v cn = v then Some i else rm_find v (child_n ci) h
     }
     else Some NULL
   }"

declare rm_find.simps [code]

definition dec_head :: "lhead \<Rightarrow> lhead" where
  "dec_head l =
     (let l = (if lh_n l > 0 then l\<lparr>lh_n := lh_n l - 1\<rparr> else l)
      in if lh_f l > 0 then l\<lparr>lh_f := lh_f l - 1\<rparr> else l)"

definition rm_child :: "ptr \<Rightarrow> lhead \<Rightarrow> heap \<Rightarrow> (ptr \<times> lhead \<times> heap) option" where
  "rm_child v l h =
     (if v = NULL \<or> lh_l l = NULL then Some (NULL, l, h)
      else do {
        i \<leftarrow> rm_find v (lh_l l) h;
        if i \<noteq> NULL then do {
          ci \<leftarrow> cells h i;
          let j = child_n ci;
          cj \<leftarrow> cells h j;
          h \<leftarrow> upd_cell i (child_n_update (\<lambda>_. child_n cj)) h;
          h \<leftarrow> upd_cell j (child_n_update (\<lambda>_. NULL)) h;
          Some (j, dec_head l, h)
        }
        else do {
          let j = lh_l l;
          cj \<leftarrow> cells h j;
          if child_v cj = v then do {
            h \<leftarrow> upd_cell j (child_n_update (\<lambda>_. NULL)) h;
            Some (j, (dec_head l)\<lparr>lh_l := child_n cj\<rparr>, h)
          }
          else Some (NULL, l, h)
        }
      })"

fun nth_cell :: "size_t \<Rightarrow> ptr \<Rightarrow> heap \<Rightarrow> ptr option" where
  "nth_cell 0 l h = Some l"
| "nth_cell (Suc i) l h =
     (if l = NULL then Some NULL else do { ce \<leftarrow> cells h l; nth_cell i (child_n ce) h })"

definition get_free :: "lhead \<Rightarrow> heap \<Rightarrow> ptr option" where
  "get_free l h =
     (if lh_l l = NULL \<or> lh_f l = 0 \<or> lh_f l > lh_n l then Some NULL
      else nth_cell (lh_n l - lh_f l) (lh_l l) h)"


section \<open>The two lists of a router\<close>

definition child_list :: "router \<Rightarrow> lhead" where
  "child_list r = \<lparr>lh_l = router_child r, lh_n = router_nchild r, lh_f = router_fchild r\<rparr>"

definition leaf_list :: "router \<Rightarrow> lhead" where
  "leaf_list r = \<lparr>lh_l = router_leaf r, lh_n = router_nleaf r, lh_f = router_fleaf r\<rparr>"

definition put_child_list :: "lhead \<Rightarrow> router \<Rightarrow> router" where
  "put_child_list l r =
     r\<lparr>router_child := lh_l l, router_nchild := lh_n l, router_fchild := lh_f l\<rparr>"

definition put_leaf_list :: "lhead \<Rightarrow> router \<Rightarrow> router" where
  "put_leaf_list l r =
     r\<lparr>router_leaf := lh_l l, router_nleaf := lh_n l, router_fleaf := lh_f l\<rparr>"

definition add_router :: "ptr \<Rightarrow> ptr \<Rightarrow> heap \<Rightarrow> (int \<times> heap) option" where
  "add_router p c h = do {
     r \<leftarrow> routers h p;
     (e, l, h) \<leftarrow> add_child p (child_list r) c h;
     h \<leftarrow> upd_router p (put_child_list l) h;
     Some (e, h)
   }"

definition add_leaf :: "ptr \<Rightarrow> ptr \<Rightarrow> heap \<Rightarrow> (int \<times> heap) option" where
  "add_leaf p c h = do {
     r \<leftarrow> routers h p;
     (e, l, h) \<leftarrow> add_child p (leaf_list r) c h;
     h \<leftarrow> upd_router p (put_leaf_list l) h;
     Some (e, h)
   }"

definition rm_router :: "ptr \<Rightarrow> ptr \<Rightarrow> heap \<Rightarrow> (ptr \<times> heap) option" where
  "rm_router p c h = do {
     h \<leftarrow> upd_router c (router_node_update (node_parent_update (\<lambda>_. NULL))) h;
     r \<leftarrow> routers h p;
     (j, l, h) \<leftarrow> rm_child c (child_list r) h;
     h \<leftarrow> upd_router p (put_child_list l) h;
     Some (j, h)
   }"

definition rm_leaf :: "ptr \<Rightarrow> ptr \<Rightarrow> heap \<Rightarrow> (ptr \<times> heap) option" where
  "rm_leaf p c h = do {
     h \<leftarrow> upd_leaf c (leaf_node_update (node_parent_update (\<lambda>_. NULL))) h;
     r \<leftarrow> routers h p;
     (j, l, h) \<leftarrow> rm_child c (leaf_list r) h;
     h \<leftarrow> upd_router p (put_leaf_list l) h;
     Some (j, h)
   }"

definition get_free_leaf :: "ptr \<Rightarrow> heap \<Rightarrow> ptr option" where
  "get_free_leaf p h = do { r \<leftarrow> routers h p; get_free (leaf_list r) h }"

definition get_free_router :: "ptr \<Rightarrow> heap \<Rightarrow> ptr option" where
  "get_free_router p h = do { r \<leftarrow> routers h p; get_free (child_list r) h }"


section \<open>The receiver list\<close>

text \<open>
  \<open>insert_head\<close> on the list of all receivers. Its third argument, the optional counter, is
  the address of \<open>nrcvr\<close> at its one call.
\<close>

definition insert_head :: "ptr \<Rightarrow> ptr \<Rightarrow> size_t \<Rightarrow> heap \<Rightarrow> (ptr \<times> size_t \<times> heap) option" where
  "insert_head head v n h = do {
     h \<leftarrow> upd_leaf v (leaf_val_update (rcvr_next_update (\<lambda>_. if head \<noteq> NULL then head else NULL))) h;
     Some (v, n + 1, h)
   }"

partial_function (option) get_len_loop :: "size_t \<Rightarrow> ptr \<Rightarrow> heap \<Rightarrow> size_t option" where
  "get_len_loop len p h =
     (if p = NULL then Some len
      else do { l \<leftarrow> leafs h p; get_len_loop (len + 1) (rcvr_next (leaf_val l)) h })"

declare get_len_loop.simps [code]

definition get_len :: "ptr \<Rightarrow> heap \<Rightarrow> size_t option" where
  "get_len p h = get_len_loop 0 p h"


section \<open>The content of a list\<close>

fun chain :: "(ptr \<Rightarrow> child option) \<Rightarrow> ptr \<Rightarrow> (ptr \<times> ptr) list \<Rightarrow> bool" where
  "chain m p [] \<longleftrightarrow> p = NULL"
| "chain m p ((c, v) # xs) \<longleftrightarrow> p = c \<and> c \<noteq> NULL \<and>
     (case m c of None \<Rightarrow> False | Some ce \<Rightarrow> child_v ce = v \<and> chain m (child_n ce) xs)"

lemma chain_NULL [simp]: "chain m 0 xs \<longleftrightarrow> xs = []"
  by (cases xs) auto

lemma chain_ConsE:
  assumes "chain m p (x # xs)"
  obtains v ce where "x = (p, v)" "p \<noteq> NULL" "m p = Some ce" "child_v ce = v"
    "chain m (child_n ce) xs"
  using assms by (cases x) (auto split: option.splits)

lemma chain_unique: "chain m p xs \<Longrightarrow> chain m p ys \<Longrightarrow> xs = ys"
proof (induction xs arbitrary: p ys)
  case Nil
  then show ?case by simp
next
  case (Cons x xs)
  then show ?case by (cases ys) (auto elim!: chain_ConsE)
qed

lemma chain_cell:
  "chain m p xs \<Longrightarrow> (c, v) \<in> set xs \<Longrightarrow> c \<noteq> NULL \<and> (\<exists>ce. m c = Some ce \<and> child_v ce = v)"
proof (induction xs arbitrary: p)
  case (Cons x xs)
  then show ?case by (auto elim!: chain_ConsE)
qed simp

lemma chain_append:
  "chain m p (xs @ y # ys) \<Longrightarrow> chain m (fst y) (y # ys)"
  by (induction xs arbitrary: p) (auto elim!: chain_ConsE split: option.splits)

lemma chain_distinct: "chain m p xs \<Longrightarrow> distinct (map fst xs)"
proof (induction xs arbitrary: p)
  case (Cons x xs)
  from Cons.prems obtain v ce where x: "x = (p, v)" "m p = Some ce" "chain m (child_n ce) xs"
    by (auto elim: chain_ConsE)
  have "p \<notin> fst ` set xs"
  proof
    assume "p \<in> fst ` set xs"
    then obtain w where "(p, w) \<in> set xs" by force
    then obtain as bs where xs: "xs = as @ (p, w) # bs" by (auto simp: in_set_conv_decomp)
    with x(3) have "chain m p ((p, w) # bs)" using chain_append [of m _ as "(p, w)" bs] by simp
    then have "x # xs = (p, w) # bs" using Cons.prems by (metis chain_unique)
    then have "length xs = length bs" by simp
    with xs show False by simp
  qed
  with Cons.IH [OF x(3)] x(1) show ?case by simp
qed simp

lemma chain_cong:
  "chain m p xs \<Longrightarrow> (\<And>c. c \<in> fst ` set xs \<Longrightarrow> m' c = m c) \<Longrightarrow> chain m' p xs"
proof (induction xs arbitrary: p)
  case (Cons x xs)
  from Cons.prems(1) obtain v ce where x: "x = (p, v)" "p \<noteq> NULL" "m p = Some ce" "child_v ce = v"
    "chain m (child_n ce) xs" by (auto elim: chain_ConsE)
  moreover have "m' p = m p" using Cons.prems(2) x(1) by simp
  moreover have "chain m' (child_n ce) xs" using Cons.IH [OF x(5)] Cons.prems(2) by simp
  ultimately show ?case by simp
qed simp

lemma chain_upd: "chain m p xs \<Longrightarrow> c \<notin> fst ` set xs \<Longrightarrow> chain (m(c := x)) p xs"
  by (erule chain_cong) auto

lemma chain_head: "chain m p xs \<Longrightarrow> p = (case xs of [] \<Rightarrow> NULL | x # _ \<Rightarrow> fst x)"
  by (cases xs) auto

lemma chain_Cons_upd:
  "chain m p xs \<Longrightarrow> c \<notin> fst ` set xs \<Longrightarrow> c \<noteq> NULL \<Longrightarrow> child_v ce = v \<Longrightarrow> child_n ce = p \<Longrightarrow>
   chain (m(c \<mapsto> ce)) c ((c, v) # xs)"
  by (simp add: chain_upd)


section \<open>What the operations do to the content\<close>

lemma set_parent_ok:
  assumes "cells h c = Some ce" "c \<noteq> NULL" "child_v ce \<noteq> NULL" "is_node h (child_v ce)"
  shows "set_parent c p h = Some (EXIT_SUCCESS, with_parent (child_v ce) p h)"
  using assms by (simp add: set_parent_def set_node_parent_ok)

lemma add_child_ok:
  assumes "chain (cells h) (lh_l l) xs" "lh_n l = length xs"
    and "cells h c = Some ce" "c \<noteq> NULL" "child_v ce \<noteq> NULL" "is_node h (child_v ce)"
  shows "add_child p l c h = Some (EXIT_SUCCESS,
    \<lparr>lh_l = c, lh_n = lh_n l + 1, lh_f = lh_f l + 1\<rparr>,
    (with_parent (child_v ce) p h)\<lparr>cells := (cells h)(c \<mapsto> ce\<lparr>child_n := lh_l l\<rparr>)\<rparr>)"
proof -
  have "lh_n l = 0 \<Longrightarrow> lh_l l = NULL" using assms(1,2) by simp
  with assms show ?thesis
    by (auto simp: add_child_def set_parent_ok upd_cell_def mem_simps)
qed

lemma add_childs_loop_ok:
  assumes "chain (cells h) i (xs @ [(e, v)])" "\<And>w. w \<in> snd ` set xs \<Longrightarrow> w \<noteq> NULL \<and> is_node h w"
  shows "add_childs_loop p i m h = Some (e, m + length xs, with_parents (map snd xs) p h)"
  using assms
proof (induction xs arbitrary: i m h)
  case Nil
  then show ?case
    by (subst add_childs_loop.simps) (auto simp: mem_simps split: option.splits)
next
  case (Cons x xs)
  from Cons.prems(1) obtain w ce where x: "x = (i, w)" "i \<noteq> NULL" "cells h i = Some ce"
      "child_v ce = w" "chain (cells h) (child_n ce) (xs @ [(e, v)])"
    by (auto elim: chain_ConsE)
  let ?h = "with_parent w p h"
  have "add_childs_loop p (child_n ce) (m + 1) ?h =
      Some (e, m + 1 + length xs, with_parents (map snd xs) p ?h)"
    using Cons.prems(2) x(5) by (intro Cons.IH) (auto simp: mem_simps)
  moreover have "child_n ce \<noteq> NULL" using x(5) by (cases xs) auto
  ultimately show ?case
    using x Cons.prems(2) set_parent_ok [of h i ce p]
    by (simp add: add_childs_loop.simps [of p i] mem_simps)
qed

lemma chain_snoc_upd:
  "chain m c (zs @ [(e, v)]) \<Longrightarrow> chain m p xs \<Longrightarrow> fst ` set (zs @ [(e, v)]) \<inter> fst ` set xs = {} \<Longrightarrow>
   m e = Some ce \<Longrightarrow> chain (m(e \<mapsto> ce\<lparr>child_n := p\<rparr>)) c (zs @ (e, v) # xs)"
proof (induction zs arbitrary: c)
  case Nil
  then show ?case
    using chain_upd [of m p xs e] by (auto simp: fun_upd_def split: option.splits)
next
  case (Cons z zs)
  from Cons.prems(1) have "e \<notin> fst ` set [z]"
    using chain_distinct [OF Cons.prems(1)] by auto
  with Cons show ?case by (cases z) (auto split: option.splits)
qed

lemma add_childs_ok:
  assumes zs: "chain (cells h) c zs" "zs \<noteq> []"
      "\<And>w. w \<in> snd ` set zs \<Longrightarrow> w \<noteq> NULL \<and> is_node h w"
    and xs: "chain (cells h) (lh_l l) xs" "lh_n l = length xs"
    and disj: "fst ` set zs \<inter> fst ` set xs = {}"
  shows "\<exists>m. add_childs p l c h = Some (0,
      \<lparr>lh_l = c, lh_n = lh_n l + length zs, lh_f = lh_f l + length zs\<rparr>,
      (with_parents (map snd zs) p h)\<lparr>cells := m\<rparr>) \<and>
    chain m c (zs @ xs) \<and> (\<forall>x. x \<notin> fst ` set zs \<longrightarrow> m x = cells h x)"
proof -
  obtain ys e v where zs_eq: "zs = ys @ [(e, v)]" using zs(2) by (metis rev_exhaust surj_pair)
  obtain ce where ce: "cells h e = Some ce" "e \<noteq> NULL" "child_v ce = v"
    using chain_cell [OF zs(1), of e v] zs_eq by auto
  let ?h = "with_parents (map snd ys) p h"
  let ?m = "(cells h)(e \<mapsto> ce\<lparr>child_n := lh_l l\<rparr>)"
  have loop: "add_childs_loop p c 1 h = Some (e, 1 + length ys, ?h)"
    using zs zs_eq by (intro add_childs_loop_ok) auto
  have "v \<noteq> NULL" "is_node h v" using zs(3) zs_eq by auto
  then have sp: "set_parent e p ?h = Some (EXIT_SUCCESS, with_parent v p ?h)"
    using ce set_parent_ok [of ?h e ce p] by (simp add: mem_simps)
  have "lh_n l = 0 \<Longrightarrow> lh_l l = NULL" using xs by simp
  then have "add_childs p l c h = Some (0,
      \<lparr>lh_l = c, lh_n = lh_n l + length zs, lh_f = lh_f l + length zs\<rparr>,
      (with_parents (map snd zs) p h)\<lparr>cells := ?m\<rparr>)"
    using zs(1) zs_eq loop sp ce chain_NULL [of "cells h" zs]
    by (cases "c = NULL") (auto simp: add_childs_def upd_cell_def mem_simps with_parents_append)
  moreover have "chain ?m c (zs @ xs)"
    using chain_snoc_upd [of "cells h" c ys e v "lh_l l" xs ce] zs(1) xs(1) disj zs_eq ce(1) by simp
  moreover have "\<forall>x. x \<notin> fst ` set zs \<longrightarrow> ?m x = cells h x" using zs_eq by auto
  ultimately show ?thesis by blast
qed

lemma rm_find_hit:
  "chain (cells h) i (ys @ (q, w) # (c, v) # zs) \<Longrightarrow> v \<notin> snd ` set (tl (ys @ [(q, w)])) \<Longrightarrow>
   rm_find v i h = Some q"
proof (induction ys arbitrary: i)
  case Nil
  then show ?case
    by (subst rm_find.simps) (auto split: option.splits)
next
  case (Cons y ys)
  from Cons.prems(1) obtain u ce where y: "y = (i, u)" "cells h i = Some ce"
      "chain (cells h) (child_n ce) (ys @ (q, w) # (c, v) # zs)"
    by (auto elim: chain_ConsE)
  obtain c' u' rest where split: "ys @ (q, w) # (c, v) # zs = (c', u') # rest"
      and u': "u' \<in> snd ` set (ys @ [(q, w)])"
    by (cases ys) auto
  have "u' \<noteq> v" using Cons.prems(2) u' by auto
  moreover have "v \<notin> snd ` set (tl (ys @ [(q, w)]))"
    using Cons.prems(2) by (cases ys) auto
  then have "rm_find v (child_n ce) h = Some q" by (rule Cons.IH [OF y(3)])
  ultimately show ?case
    using y(2,3) split by (auto simp: rm_find.simps [of v i] split: option.splits)
qed

lemma rm_find_miss:
  "chain (cells h) i (x # xs) \<Longrightarrow> v \<notin> snd ` set xs \<Longrightarrow> rm_find v i h = Some NULL"
proof (induction xs arbitrary: i x)
  case Nil
  then show ?case by (auto simp: rm_find.simps [of v i] elim!: chain_ConsE)
next
  case (Cons y xs)
  from Cons.prems(1) obtain u ce where x: "x = (i, u)" "cells h i = Some ce"
      "chain (cells h) (child_n ce) (y # xs)"
    by (auto elim: chain_ConsE)
  have "rm_find v (child_n ce) h = Some NULL" using Cons x(3) by simp
  then show ?case
    using x(2,3) Cons.prems(2) by (auto simp: rm_find.simps [of v i] elim!: chain_ConsE)
qed

lemma in_chain_split:
  assumes "(c, v) \<in> set xs" "distinct (map snd xs)"
  obtains ys zs where "xs = ys @ (c, v) # zs" "v \<notin> snd ` set ys" "v \<notin> snd ` set zs"
proof -
  from assms(1) obtain ys zs where "xs = ys @ (c, v) # zs" by (auto simp: in_set_conv_decomp)
  with assms(2) that show thesis by auto
qed

lemma rm_child_miss:
  assumes "chain (cells h) (lh_l l) xs" "v \<notin> snd ` set xs"
  shows "rm_child v l h = Some (NULL, l, h)"
proof (cases xs)
  case Nil
  with assms show ?thesis by (simp add: rm_child_def)
next
  case (Cons x xs')
  with assms(1) obtain w ce where "x = (lh_l l, w)" "cells h (lh_l l) = Some ce" "child_v ce = w"
    by (auto elim: chain_ConsE)
  moreover have "rm_find v (lh_l l) h = Some NULL" if "lh_l l \<noteq> NULL"
    using assms Cons by (auto intro: rm_find_miss)
  ultimately show ?thesis using assms(2) Cons by (auto simp: rm_child_def)
qed

lemma dec_head_eq: "dec_head l = l\<lparr>lh_n := lh_n l - 1, lh_f := lh_f l - 1\<rparr>"
  by (cases l) (auto simp: dec_head_def Let_def)

lemma chain_cut:
  assumes "chain m p (ys @ (q, w) # (c, v) # zs)" "m q = Some cq" "m c = Some cc"
  shows "chain (m(q \<mapsto> cq\<lparr>child_n := child_n cc\<rparr>)) p (ys @ (q, w) # zs)"
proof -
  have d: "distinct (map fst (ys @ (q, w) # (c, v) # zs))" by (rule chain_distinct [OF assms(1)])
  have "chain m q ((q, w) # (c, v) # zs)" using chain_append [OF assms(1)] by simp
  then have "chain m (child_n cc) zs" "q \<noteq> NULL" "child_v cq = w" using assms(2,3) by auto
  then have tail: "chain (m(q \<mapsto> cq\<lparr>child_n := child_n cc\<rparr>)) q ((q, w) # zs)"
    using d by (simp add: chain_upd)
  from assms(1) d show ?thesis
  proof (induction ys arbitrary: p)
    case Nil
    then have "p = q" by simp
    with tail show ?case by (simp only: append_Nil)
  next
    case (Cons y ys)
    then show ?case by (cases y) (auto split: option.splits)
  qed
qed

text \<open>
  Removing a node that is in the list: its cell is cut out and returned, the cells of other lists
  do not change, and the two counters go down by one, the free one not below zero.
\<close>

abbreviation head_of :: "(ptr \<times> ptr) list \<Rightarrow> ptr" where
  "head_of xs \<equiv> (case xs of [] \<Rightarrow> NULL | x # _ \<Rightarrow> fst x)"

lemma rm_child_hit:
  assumes ch: "chain (cells h) (lh_l l) xs" and xs: "xs = ys @ (c, v) # zs"
    and v: "v \<noteq> NULL" "v \<notin> snd ` set ys" "v \<notin> snd ` set zs"
  shows "\<exists>m. rm_child v l h = Some (c,
      \<lparr>lh_l = head_of (ys @ zs), lh_n = lh_n l - 1, lh_f = lh_f l - 1\<rparr>, h\<lparr>cells := m\<rparr>) \<and>
    chain m (head_of (ys @ zs)) (ys @ zs) \<and>
    m c = Some \<lparr>child_v = v, child_n = NULL\<rparr> \<and>
    (\<forall>x. x \<notin> fst ` set xs \<longrightarrow> m x = cells h x)"
proof -
  obtain cc where cc: "cells h c = Some cc" "child_v cc = v" "c \<noteq> NULL"
    using chain_cell [OF ch, of c v] xs by auto
  have d: "distinct (map fst xs)" by (rule chain_distinct [OF ch])
  let ?cc = "cc\<lparr>child_n := NULL\<rparr>"
  have cc': "?cc = \<lparr>child_v = v, child_n = NULL\<rparr>" using cc(2) by (cases cc) simp
  show ?thesis
  proof (cases ys rule: rev_cases)
    case Nil
    with ch xs have l: "lh_l l = c" and tl: "chain (cells h) (child_n cc) zs" using cc by auto
    have "rm_find v c h = Some NULL"
      using rm_find_miss [of h c "(c, v)" zs v] ch xs Nil l v(3) by simp
    then have "rm_child v l h = Some (c, (dec_head l)\<lparr>lh_l := child_n cc\<rparr>,
        h\<lparr>cells := (cells h)(c \<mapsto> ?cc)\<rparr>)"
      using v(1) cc l by (simp add: rm_child_def upd_cell_def)
    moreover have "child_n cc = head_of zs" by (rule chain_head [OF tl])
    moreover have "chain ((cells h)(c \<mapsto> ?cc)) (head_of zs) zs"
      using tl d xs Nil chain_head [OF tl] by (simp add: chain_upd)
    ultimately show ?thesis
      using Nil xs cc' by (intro exI [of _ "(cells h)(c \<mapsto> ?cc)"]) (auto simp: dec_head_eq)
  next
    case (snoc ys' qw)
    obtain q w where qw: "qw = (q, w)" by (cases qw)
    with snoc xs have xs': "xs = ys' @ (q, w) # (c, v) # zs" by simp
    obtain cq where cq: "cells h q = Some cq" "q \<noteq> NULL"
      using chain_cell [OF ch, of q w] xs' by auto
    have "chain (cells h) q ((q, w) # (c, v) # zs)" using chain_append [of _ _ ys'] ch xs' by auto
    then have qn: "child_n cq = c" using cq by auto
    let ?m = "(cells h)(q \<mapsto> cq\<lparr>child_n := child_n cc\<rparr>)"
    let ?m' = "?m(c \<mapsto> ?cc)"
    have "v \<notin> snd ` set (tl (ys' @ [(q, w)]))"
      using v(2) snoc qw by (cases ys') auto
    then have "rm_find v (lh_l l) h = Some q"
      using ch xs' by (intro rm_find_hit) auto
    moreover have "lh_l l \<noteq> NULL" using ch xs by (cases ys) auto
    moreover have "c \<noteq> q" using d xs' by auto
    ultimately have "rm_child v l h = Some (c, dec_head l, h\<lparr>cells := ?m'\<rparr>)"
      using v(1) cc cq qn by (simp add: rm_child_def upd_cell_def)
    moreover have "lh_l l = head_of (ys @ zs)"
      using ch xs snoc qw by (cases ys') (auto split: option.splits)
    moreover have "chain ?m' (head_of (ys @ zs)) (ys @ zs)"
    proof -
      have "chain ?m (lh_l l) (ys @ zs)"
        using chain_cut [of "cells h" "lh_l l" ys' q w c v zs cq cc] ch xs' cq cc snoc qw by simp
      moreover have "c \<notin> fst ` set (ys @ zs)" using d xs by auto
      ultimately show ?thesis using \<open>lh_l l = head_of (ys @ zs)\<close> by (simp add: chain_upd)
    qed
    ultimately show ?thesis
      using cc' xs' by (intro exI [of _ ?m']) (auto simp: dec_head_eq)
  qed
qed

text \<open>The first free element is the one after the used elements, which come first.\<close>

lemma nth_cell_ok:
  "chain (cells h) p xs \<Longrightarrow> nth_cell i p h = Some (head_of (drop i xs))"
proof (induction i arbitrary: p xs)
  case 0
  then show ?case by (simp add: chain_head)
next
  case (Suc i)
  then show ?case by (cases xs) (auto elim!: chain_ConsE)
qed

lemma get_free_ok:
  assumes "chain (cells h) (lh_l l) xs" "lh_n l = length xs" "lh_f l \<le> length xs"
  shows "get_free l h = Some (head_of (drop (length xs - lh_f l) xs))"
  using assms nth_cell_ok [OF assms(1)]
  by (auto simp: get_free_def)

end
