(* ===== verification/Topology.thy ===== *)
theory Topology
  imports Lists
begin

text \<open>
  The topology tree as it lies in memory, and the abstraction the tree component is proved
  against.

  A router owns two lists, so a list is named by a kind and the router that owns it. A \<^emph>\<open>view\<close>
  gives for every such name the content of the list. The relation \<open>repr h V\<close> says that the
  memory \<open>h\<close> represents the view \<open>V\<close>: every list of every router is the list \<open>V\<close> says, the
  length counters are right, every node in a list has the owner of the list as its parent, and
  every node with a parent is in its parent's list. The two primitives of \<open>list.h\<close>, taking a
  node out of its list and putting it at the head of another, refine the update of the view at
  one point.
\<close>


section \<open>Kinds of lists\<close>

datatype kind = Kid | Leaf

fun list_of :: "kind \<Rightarrow> router \<Rightarrow> lhead" where
  "list_of Kid = child_list"
| "list_of Leaf = leaf_list"

fun put_list :: "kind \<Rightarrow> lhead \<Rightarrow> router \<Rightarrow> router" where
  "put_list Kid = put_child_list"
| "put_list Leaf = put_leaf_list"

fun has :: "heap \<Rightarrow> kind \<Rightarrow> ptr \<Rightarrow> bool" where
  "has h Kid v \<longleftrightarrow> routers h v \<noteq> None"
| "has h Leaf v \<longleftrightarrow> leafs h v \<noteq> None"

definition add_node :: "kind \<Rightarrow> ptr \<Rightarrow> ptr \<Rightarrow> heap \<Rightarrow> (int \<times> heap) option" where
  "add_node k p c h = do {
     r \<leftarrow> routers h p;
     (e, l, h) \<leftarrow> add_child p (list_of k r) c h;
     h \<leftarrow> upd_router p (put_list k l) h;
     Some (e, h)
   }"

definition rm_node :: "kind \<Rightarrow> ptr \<Rightarrow> ptr \<Rightarrow> heap \<Rightarrow> (ptr \<times> heap) option" where
  "rm_node k p v h = do {
     guard (has h k v);
     r \<leftarrow> routers (with_parent v NULL h) p;
     (j, l, h) \<leftarrow> rm_child v (list_of k r) (with_parent v NULL h);
     h \<leftarrow> upd_router p (put_list k l) h;
     Some (j, h)
   }"

lemma add_router_node: "add_router = add_node Kid"
  by (intro ext) (simp add: add_router_def add_node_def)

lemma add_leaf_node: "add_leaf = add_node Leaf"
  by (intro ext) (simp add: add_leaf_def add_node_def)

lemma rm_router_node: "leafs h v = None \<Longrightarrow> rm_router p v h = rm_node Kid p v h"
  by (cases "routers h v")
    (simp_all add: rm_router_def rm_node_def upd_router_def with_parent_def guard_def fun_upd_idem)

lemma rm_leaf_node: "rm_leaf p v h = rm_node Leaf p v h"
  by (cases "leafs h v")
    (simp_all add: rm_leaf_def rm_node_def upd_leaf_def with_parent_def guard_def fun_upd_idem)


section \<open>Observations of the memory\<close>

definition par :: "heap \<Rightarrow> ptr \<Rightarrow> ptr" where
  "par h v = (case get_node v h of None \<Rightarrow> NULL | Some n \<Rightarrow> node_parent n)"

definition rlist :: "heap \<Rightarrow> kind \<times> ptr \<Rightarrow> lhead option" where
  "rlist h = (\<lambda>(k, r). map_option (list_of k) (routers h r))"

definition free_of :: "heap \<Rightarrow> kind \<times> ptr \<Rightarrow> size_t" where
  "free_of h kr = (case rlist h kr of None \<Rightarrow> 0 | Some l \<Rightarrow> lh_f l)"

definition rdata :: "heap \<Rightarrow> ptr \<Rightarrow> (sockaddr_in6 \<times> size_t) option" where
  "rdata h r = map_option (\<lambda>rr. (router_sa rr, router_hops rr)) (routers h r)"

definition ldata :: "heap \<Rightarrow> ptr \<Rightarrow> rcvr option" where
  "ldata h l = map_option leaf_val (leafs h l)"

text \<open>The addresses of a list of receivers.\<close>

definition rcvr_addrs :: "heap \<Rightarrow> ptr list \<Rightarrow> addr list" where
  "rcvr_addrs h ls = map (\<lambda>l. rcvr_addr (the (ldata h l))) ls"

text \<open>Everything but the lists, the parents and the counters is the same.\<close>

definition same_data :: "heap \<Rightarrow> heap \<Rightarrow> bool" where
  "same_data h h' \<longleftrightarrow> rdata h' = rdata h \<and> ldata h' = ldata h \<and> hdrs h' = hdrs h \<and> brk h' = brk h"

lemma same_data_refl [simp]: "same_data h h"
  by (simp add: same_data_def)

lemma same_data_trans [trans]: "same_data h h' \<Longrightarrow> same_data h' h'' \<Longrightarrow> same_data h h''"
  by (simp add: same_data_def)

lemma rdata_None: "rdata h r = None \<longleftrightarrow> routers h r = None"
  by (simp add: rdata_def)

lemma ldata_None: "ldata h l = None \<longleftrightarrow> leafs h l = None"
  by (simp add: ldata_def)

lemma same_data_dom:
  assumes "same_data h h'"
  shows "routers h' r = None \<longleftrightarrow> routers h r = None" "leafs h' r = None \<longleftrightarrow> leafs h r = None"
  using assms by (auto simp: same_data_def simp flip: rdata_None ldata_None)

lemma same_data_has: "same_data h h' \<Longrightarrow> has h' k v = has h k v"
  by (cases k) (auto simp: same_data_dom)

lemma list_of_put [mem_simps]: "list_of k (put_list k' l r) = (if k = k' then l else list_of k r)"
  by (cases k; cases k') (auto simp: child_list_def leaf_list_def put_child_list_def put_leaf_list_def)

lemma put_list_other [mem_simps]:
  "router_node (put_list k l r) = router_node r"
  "router_sa (put_list k l r) = router_sa r"
  "router_hops (put_list k l r) = router_hops r"
  by (cases k; simp add: put_child_list_def put_leaf_list_def)+

lemma list_of_node [mem_simps]: "list_of k (router_node_update f r) = list_of k r"
  by (cases k) (simp_all add: child_list_def leaf_list_def)


section \<open>The representation relation\<close>

type_synonym view = "kind \<times> ptr \<Rightarrow> (ptr \<times> ptr) list"

definition node_ok :: "heap \<Rightarrow> bool" where
  "node_ok h \<longleftrightarrow>
     (\<forall>r rr. routers h r = Some rr \<longrightarrow> node_type (router_node rr) = ROUTER_NODE) \<and>
     (\<forall>l lf. leafs h l = Some lf \<longrightarrow> node_type (leaf_node lf) = LEAF_NODE) \<and>
     (\<forall>v. leafs h v = None \<or> routers h v = None) \<and>
     leafs h NULL = None \<and> routers h NULL = None \<and> cells h NULL = None \<and> 0 < brk h \<and>
     (\<forall>v \<ge> brk h. leafs h v = None \<and> routers h v = None \<and> cells h v = None \<and> hdrs h v = None)"

definition list_ok :: "(ptr \<Rightarrow> child option) \<Rightarrow> lhead \<Rightarrow> (ptr \<times> ptr) list \<Rightarrow> bool" where
  "list_ok m l xs \<longleftrightarrow> chain m (lh_l l) xs \<and> lh_n l = length xs \<and> lh_f l \<le> length xs \<and>
     distinct (map snd xs)"

definition repr :: "heap \<Rightarrow> view \<Rightarrow> bool" where
  "repr h V \<longleftrightarrow> node_ok h \<and>
     (\<forall>kr l. rlist h kr = Some l \<longrightarrow> list_ok (cells h) l (V kr)) \<and>
     (\<forall>kr. rlist h kr = None \<longrightarrow> V kr = []) \<and>
     (\<forall>k r c v. (c, v) \<in> set (V (k, r)) \<longrightarrow> has h k v \<and> par h v = r) \<and>
     (\<forall>k v. has h k v \<and> par h v \<noteq> NULL \<longrightarrow> v \<in> snd ` set (V (k, par h v)))"

lemma rlist_None [simp]: "rlist h (k, r) = None \<longleftrightarrow> routers h r = None"
  by (simp add: rlist_def)

lemma rlist_Some: "routers h r = Some rr \<Longrightarrow> rlist h (k, r) = Some (list_of k rr)"
  by (simp add: rlist_def)

lemma rlist_SomeE:
  assumes "rlist h (k, r) = Some l"
  obtains rr where "routers h r = Some rr" "l = list_of k rr"
  using assms by (auto simp: rlist_def)

lemma reprD:
  assumes "repr h V"
  shows repr_node_ok: "node_ok h"
    and repr_list: "rlist h kr = Some l \<Longrightarrow> list_ok (cells h) l (V kr)"
    and repr_None: "rlist h kr = None \<Longrightarrow> V kr = []"
    and repr_in: "(c, v) \<in> set (V (k, r)) \<Longrightarrow> has h k v \<and> par h v = r"
    and repr_par: "has h k v \<Longrightarrow> par h v \<noteq> NULL \<Longrightarrow> v \<in> snd ` set (V (k, par h v))"
  using assms unfolding repr_def by blast+

lemma node_okD:
  assumes "node_ok h"
  shows node_ok_disj: "leafs h v = Some lf \<Longrightarrow> routers h v = None"
    and node_ok_disj': "routers h v = Some rr \<Longrightarrow> leafs h v = None"
    and node_ok_leaf_NULL: "leafs h NULL = None"
    and node_ok_router_NULL: "routers h NULL = None"
    and node_ok_cell: "cells h NULL = None"
    and node_ok_rtype: "routers h v = Some rr \<Longrightarrow> node_type (router_node rr) = ROUTER_NODE"
    and node_ok_ltype: "leafs h v = Some lf \<Longrightarrow> node_type (leaf_node lf) = LEAF_NODE"
    and node_ok_fresh: "brk h \<le> v \<Longrightarrow> leafs h v = None \<and> routers h v = None \<and> cells h v = None"
  using assms unfolding node_ok_def by (metis option.distinct(1))+

lemma node_ok_NULL: "node_ok h \<Longrightarrow> has h k v \<Longrightarrow> v \<noteq> NULL"
  using node_ok_leaf_NULL [of h] node_ok_router_NULL [of h] by (cases k) (auto intro: gr0I)

lemma has_is_node: "has h k v \<Longrightarrow> is_node h v"
  by (cases k) (auto simp: is_node_def)

lemma has_kind_unique: "node_ok h \<Longrightarrow> has h k v \<Longrightarrow> has h k' v \<Longrightarrow> k = k'"
  using node_ok_disj by (cases k; cases k') auto

lemma par_leaf: "leafs h v = Some l \<Longrightarrow> par h v = node_parent (leaf_node l)"
  by (simp add: par_def mem_simps)

lemma par_router: "leafs h v = None \<Longrightarrow> routers h v = Some r \<Longrightarrow> par h v = node_parent (router_node r)"
  by (simp add: par_def mem_simps)

text \<open>
  A cell determines its node, a node its parent and its kind: so the lists of a represented view
  do not share cells.
\<close>

lemma repr_cell:
  assumes "repr h V" "(c, v) \<in> set (V (k, r))"
  shows "c \<noteq> NULL \<and> (\<exists>ce. cells h c = Some ce \<and> child_v ce = v) \<and> (\<exists>rr. routers h r = Some rr)"
proof -
  obtain rr where rr: "routers h r = Some rr"
    using assms repr_None [OF assms(1), of "(k, r)"] by (cases "routers h r") auto
  with repr_list [OF assms(1) rlist_Some [OF rr], of k] chain_cell assms(2) show ?thesis
    by (auto simp: list_ok_def)
qed

lemma repr_cell_unique:
  assumes "repr h V" "(c, v) \<in> set (V (k, r))" "(c, v') \<in> set (V (k', r'))"
  shows "v' = v \<and> k' = k \<and> r' = r"
proof -
  have "v' = v" using repr_cell [OF assms(1,2)] repr_cell [OF assms(1,3)] by auto
  moreover have "has h k v" "par h v = r" "has h k' v'" "par h v' = r'"
    using repr_in [OF assms(1)] assms(2,3) by auto
  ultimately show ?thesis using has_kind_unique [OF repr_node_ok [OF assms(1)]] by auto
qed

lemma repr_cells_disjoint:
  "repr h V \<Longrightarrow> (k, r) \<noteq> (k', r') \<Longrightarrow> fst ` set (V (k, r)) \<inter> fst ` set (V (k', r')) = {}"
  using repr_cell_unique by fastforce

lemma repr_loose_cell:
  assumes "repr h V" "cells h c = Some ce" "par h (child_v ce) = NULL"
  shows "c \<notin> fst ` set (V (k, r))"
proof
  assume "c \<in> fst ` set (V (k, r))"
  then obtain v where cv: "(c, v) \<in> set (V (k, r))" by auto
  with repr_cell [OF assms(1) cv] repr_in [OF assms(1) cv] assms(2,3)
  obtain rr where "routers h NULL = Some rr" by auto
  with node_ok_router_NULL [OF repr_node_ok [OF assms(1)]] show False by simp
qed


section \<open>The primitives on observations\<close>

lemma rdata_with_parent [mem_simps]: "rdata (with_parent v q h) = rdata h"
  by (intro ext) (simp add: rdata_def with_parent_def option.map_comp o_def)

lemma ldata_with_parent [mem_simps]: "ldata (with_parent v q h) = ldata h"
  by (intro ext) (simp add: ldata_def with_parent_def option.map_comp o_def)

lemma rlist_with_parent [mem_simps]: "rlist (with_parent v q h) = rlist h"
  by (intro ext) (auto simp: rlist_def with_parent_def option.map_comp o_def mem_simps)

lemma has_with_parent [mem_simps]: "has (with_parent v q h) k w = has h k w"
  by (cases k) (simp_all add: with_parent_def)

lemma par_with_parent [mem_simps]: "is_node h v \<Longrightarrow> par (with_parent v q h) = (par h)(v := q)"
  by (intro ext) (auto simp: par_def get_node_def with_parent_def is_node_def split: option.splits)

lemma node_ok_with_parent [mem_simps]: "node_ok h \<Longrightarrow> node_ok (with_parent v q h)"
  unfolding node_ok_def by (auto simp: with_parent_def)

lemma obs_cells [mem_simps]:
  "rdata (h\<lparr>cells := m\<rparr>) = rdata h" "ldata (h\<lparr>cells := m\<rparr>) = ldata h"
  "rlist (h\<lparr>cells := m\<rparr>) = rlist h" "has (h\<lparr>cells := m\<rparr>) k = has h k"
  "par (h\<lparr>cells := m\<rparr>) = par h"
  by (intro ext; cases k; auto simp: rdata_def ldata_def rlist_def par_def get_node_def
      split: option.splits)+

text \<open>Writing a list back to its router.\<close>

definition put :: "kind \<Rightarrow> ptr \<Rightarrow> lhead \<Rightarrow> heap \<Rightarrow> heap" where
  "put k p l h = h\<lparr>routers := (routers h)(p := map_option (put_list k l) (routers h p))\<rparr>"

lemma upd_router_put: "routers h p \<noteq> None \<Longrightarrow> upd_router p (put_list k l) h = Some (put k p l h)"
  by (auto simp: upd_router_def put_def)

lemma obs_put [mem_simps]:
  "rdata (put k p l h) = rdata h" "ldata (put k p l h) = ldata h" "cells (put k p l h) = cells h"
  "hdrs (put k p l h) = hdrs h" "brk (put k p l h) = brk h" "par (put k p l h) = par h"
  "has (put k p l h) k' v = has h k' v"
  by (cases k'; auto simp: rdata_def ldata_def put_def par_def get_node_def mem_simps
      option.map_comp o_def intro!: ext split: option.splits)+

lemma rlist_put [mem_simps]:
  "routers h p \<noteq> None \<Longrightarrow> rlist (put k p l h) = (rlist h)((k, p) \<mapsto> l)"
  by (auto simp: rlist_def put_def mem_simps fun_eq_iff)

lemma node_ok_put [mem_simps]: "node_ok h \<Longrightarrow> node_ok (put k p l h)"
  unfolding node_ok_def by (auto simp: put_def mem_simps)

lemma node_ok_cells:
  "node_ok h \<Longrightarrow> m NULL = None \<Longrightarrow> (\<And>x. brk h \<le> x \<Longrightarrow> m x = None) \<Longrightarrow> node_ok (h\<lparr>cells := m\<rparr>)"
  unfolding node_ok_def by simp

lemma free_of_rlist: "rlist h' = (rlist h)(kr \<mapsto> l) \<Longrightarrow> free_of h' = (free_of h)(kr := lh_f l)"
  by (intro ext) (simp add: free_of_def)

text \<open>One list changes, and at most one node changes its parent.\<close>

lemma repr_upd:
  assumes R: "repr h V" and ok: "node_ok h'"
    and rlist: "rlist h' = (rlist h)((k, p) \<mapsto> l)" "list_ok (cells h') l xs"
    and cells: "\<And>c kr. kr \<noteq> (k, p) \<Longrightarrow> c \<in> fst ` set (V kr) \<Longrightarrow> cells h' c = cells h c"
    and has: "\<And>k v. has h' k v = has h k v"
    and mem: "\<And>c v. (c, v) \<in> set xs \<Longrightarrow> has h k v \<and> par h' v = p"
    and old: "\<And>c v k' r. (k', r) \<noteq> (k, p) \<Longrightarrow> (c, v) \<in> set (V (k', r)) \<Longrightarrow> par h' v = r"
    and new: "\<And>k' v. has h k' v \<Longrightarrow> par h' v \<noteq> NULL \<Longrightarrow>
      v \<in> snd ` set ((V((k, p) := xs)) (k', par h' v))"
  shows "repr h' (V((k, p) := xs))"
  unfolding repr_def
proof (intro conjI allI impI)
  show "node_ok h'" by (rule ok)
next
  fix kr l'
  assume l': "rlist h' kr = Some l'"
  show "list_ok (cells h') l' ((V((k, p) := xs)) kr)"
  proof (cases "kr = (k, p)")
    case True
    with l' rlist show ?thesis by simp
  next
    case False
    with l' rlist(1) have "list_ok (cells h) l' (V kr)" using repr_list [OF R] by simp
    with False cells [OF False] show ?thesis by (auto simp: list_ok_def elim!: chain_cong)
  qed
next
  fix kr
  assume "rlist h' kr = None"
  then show "(V((k, p) := xs)) kr = []" using rlist(1) repr_None [OF R] by (auto split: if_splits)
next
  fix k' r c v
  assume "(c, v) \<in> set ((V((k, p) := xs)) (k', r))"
  then show "has h' k' v" and "par h' v = r"
    using mem old repr_in [OF R] by (auto simp: has split: if_splits)
next
  fix k' v
  assume "has h' k' v \<and> par h' v \<noteq> NULL"
  then show "v \<in> snd ` set ((V((k, p) := xs)) (k', par h' v))" using new by (simp add: has)
qed


section \<open>Refinement of the two primitives\<close>

theorem rm_node_ok:
  assumes R: "repr h V" and xs: "V (k, p) = ys @ (c, v) # zs"
  shows "\<exists>h'. rm_node k p v h = Some (c, h') \<and> repr h' (V((k, p) := ys @ zs)) \<and> same_data h h' \<and>
    par h' = (par h)(v := NULL) \<and> cells h' c = Some \<lparr>child_v = v, child_n = NULL\<rparr> \<and>
    free_of h' = (free_of h)((k, p) := free_of h (k, p) - 1) \<and>
    (\<forall>x. x \<notin> fst ` set (V (k, p)) \<longrightarrow> cells h' x = cells h x)"
proof -
  note N = repr_node_ok [OF R]
  have cv: "(c, v) \<in> set (V (k, p))" using xs by simp
  obtain rr where rr: "routers h p = Some rr" using repr_cell [OF R cv] by blast
  have v: "has h k v" "par h v = p" using repr_in [OF R cv] by auto
  let ?h1 = "with_parent v NULL h"
  obtain rr1 where rr1: "routers ?h1 p = Some rr1" and l1: "list_of k rr1 = list_of k rr"
    using rlist_Some [OF rr] by (metis rlist_SomeE rlist_with_parent)
  let ?l = "list_of k rr"
  let ?l' = "\<lparr>lh_l = head_of (ys @ zs), lh_n = lh_n ?l - 1, lh_f = lh_f ?l - 1\<rparr>"
  have ok: "list_ok (cells h) ?l (V (k, p))" by (rule repr_list [OF R rlist_Some [OF rr]])
  then have d: "v \<notin> snd ` set ys" "v \<notin> snd ` set zs" using xs by (auto simp: list_ok_def)
  obtain m where m: "rm_child v ?l ?h1 = Some (c, ?l', ?h1\<lparr>cells := m\<rparr>)"
      "chain m (head_of (ys @ zs)) (ys @ zs)" "m c = Some \<lparr>child_v = v, child_n = NULL\<rparr>"
      "\<And>x. x \<notin> fst ` set (V (k, p)) \<Longrightarrow> m x = cells h x"
    using rm_child_hit [of ?h1 ?l "V (k, p)" ys c v zs] ok xs d node_ok_NULL [OF N v(1)]
    by (auto simp: list_ok_def mem_simps)
  define h' where h': "h' = put k p ?l' (?h1\<lparr>cells := m\<rparr>)"
  have run: "rm_node k p v h = Some (c, h')"
    using v(1) rr1 l1 m(1) by (simp add: rm_node_def upd_router_put h')
  have L: "rlist h' = (rlist h)((k, p) \<mapsto> ?l')" using rr1 by (simp add: h' mem_simps)
  have P: "par h' = (par h)(v := NULL)" using has_is_node [OF v(1)] by (simp add: h' mem_simps)
  have C: "x \<in> fst ` set (V kr) \<Longrightarrow> cells h x \<noteq> None" for x kr
    using repr_cell [OF R] by (cases kr) force
  have unlisted: "w \<noteq> v" if "(x, w) \<in> set (V (k', r))" "(k', r) \<noteq> (k, p)" for x w k' r
    using repr_in [OF R that(1)] v that(2) has_kind_unique [OF N] by auto
  have "node_ok h'"
    unfolding h'
  proof (intro node_ok_put node_ok_cells node_ok_with_parent N)
    show "m NULL = None" using m(4) [of NULL] C node_ok_cell [OF N] by metis
  next
    fix x assume "brk ?h1 \<le> x"
    then show "m x = None" using m(4) [of x] C node_ok_fresh [OF N] by (metis with_parent_other(3))
  qed
  moreover have "list_ok (cells h') ?l' (ys @ zs)"
    using m(2) ok xs by (auto simp: h' list_ok_def mem_simps)
  moreover have "cells h' x = cells h x" if "kr \<noteq> (k, p)" "x \<in> fst ` set (V kr)" for x kr
  proof -
    obtain k' r' where kr: "kr = (k', r')" by (cases kr)
    have "x \<notin> fst ` set (V (k, p))"
      using repr_cells_disjoint [OF R, of k' r' k p] that kr by auto
    then show ?thesis using m(4) by (simp add: h' mem_simps)
  qed
  ultimately have "repr h' (V((k, p) := ys @ zs))"
  proof (intro repr_upd [OF R _ L])
    show "has h' k' w = has h k' w" for k' w by (simp add: h' mem_simps)
    show "has h k w \<and> par h' w = p" if "(x, w) \<in> set (ys @ zs)" for x w
    proof -
      have "w \<noteq> v" using that d by force
      then show ?thesis using that repr_in [OF R, of x w k p] xs by (auto simp: P)
    qed
    show "par h' w = r" if "(k', r) \<noteq> (k, p)" "(x, w) \<in> set (V (k', r))" for x w k' r
      using that unlisted [OF that(2,1)] repr_in [OF R that(2)] by (simp add: P)
    show "w \<in> snd ` set ((V((k, p) := ys @ zs)) (k', par h' w))"
      if "has h k' w" "par h' w \<noteq> NULL" for k' w
      using that repr_par [OF R that(1)] xs by (auto simp: P split: if_splits)
  qed
  moreover have "free_of h (k, p) = lh_f ?l" using rr by (simp add: free_of_def rlist_def)
  ultimately show ?thesis
    using run P m(3,4) free_of_rlist [OF L]
    by (intro exI [of _ h']) (auto simp: h' same_data_def mem_simps)
qed

theorem add_node_ok:
  assumes R: "repr h V" and p: "routers h p \<noteq> None"
    and c: "cells h c = Some ce" "child_v ce = v" and v: "has h k v" "par h v = NULL"
  shows "\<exists>h'. add_node k p c h = Some (EXIT_SUCCESS, h') \<and> repr h' (V((k, p) := (c, v) # V (k, p))) \<and>
    same_data h h' \<and> par h' = (par h)(v := p) \<and>
    free_of h' = (free_of h)((k, p) := free_of h (k, p) + 1) \<and>
    (\<forall>x. x \<noteq> c \<longrightarrow> cells h' x = cells h x)"
proof -
  note N = repr_node_ok [OF R]
  obtain rr where rr: "routers h p = Some rr" using p by blast
  let ?l = "list_of k rr" and ?h1 = "with_parent v p h"
  let ?l' = "\<lparr>lh_l = c, lh_n = lh_n ?l + 1, lh_f = lh_f ?l + 1\<rparr>"
  let ?m = "(cells h)(c \<mapsto> ce\<lparr>child_n := lh_l ?l\<rparr>)"
  define h' where h': "h' = put k p ?l' (?h1\<lparr>cells := ?m\<rparr>)"
  have ok: "list_ok (cells h) ?l (V (k, p))" by (rule repr_list [OF R rlist_Some [OF rr]])
  have c0: "c \<noteq> NULL" using c(1) node_ok_cell [OF N] by (metis option.distinct(1))
  have v0: "v \<noteq> NULL" by (rule node_ok_NULL [OF N v(1)])
  have loose: "c \<notin> fst ` set (V kr)" for kr
    using repr_loose_cell [OF R c(1)] c(2) v(2) by (cases kr) auto
  have add: "add_child p ?l c h = Some (EXIT_SUCCESS, ?l', ?h1\<lparr>cells := ?m\<rparr>)"
    using add_child_ok [of h ?l "V (k, p)" c ce p] ok c c0 v0 has_is_node [OF v(1)]
    by (auto simp: list_ok_def)
  have rr1: "routers ?h1 p \<noteq> None" using rr by (auto simp: with_parent_def)
  have run: "add_node k p c h = Some (EXIT_SUCCESS, h')"
    using rr add rr1 by (simp add: add_node_def upd_router_put h')
  have L: "rlist h' = (rlist h)((k, p) \<mapsto> ?l')" using rr1 by (simp add: h' mem_simps)
  have P: "par h' = (par h)(v := p)" using has_is_node [OF v(1)] by (simp add: h' mem_simps)
  have unlisted: "w \<noteq> v" if "(x, w) \<in> set (V (k', r))" for x w k' r
  proof
    assume "w = v"
    with repr_in [OF R that] v(2) have "r = NULL" by simp
    with repr_cell [OF R that] node_ok_router_NULL [OF N] show False by auto
  qed
  have "node_ok h'"
    unfolding h'
  proof (intro node_ok_put node_ok_cells node_ok_with_parent N)
    show "?m NULL = None" using c0 node_ok_cell [OF N] by simp
  next
    fix x assume "brk ?h1 \<le> x"
    then show "?m x = None" using c(1) node_ok_fresh [OF N, of x] by (auto simp: mem_simps)
  qed
  moreover have "list_ok (cells h') ?l' ((c, v) # V (k, p))"
    using ok c loose [of "(k, p)"] unlisted [of _ v k p] c0
    by (auto simp: h' list_ok_def mem_simps intro!: chain_upd)
  moreover have "cells h' x = cells h x" if "x \<in> fst ` set (V kr)" for x kr
    using loose [of kr] that by (auto simp: h' mem_simps)
  ultimately have "repr h' (V((k, p) := (c, v) # V (k, p)))"
  proof (intro repr_upd [OF R _ L])
    show "has h' k' w = has h k' w" for k' w by (simp add: h' mem_simps)
    show "has h k w \<and> par h' w = p" if "(x, w) \<in> set ((c, v) # V (k, p))" for x w
      using that v repr_in [OF R, of x w k p] by (auto simp: P)
    show "par h' w = r" if "(k', r) \<noteq> (k, p)" "(x, w) \<in> set (V (k', r))" for x w k' r
      using unlisted [OF that(2)] repr_in [OF R that(2)] by (simp add: P)
    show "w \<in> snd ` set ((V((k, p) := (c, v) # V (k, p))) (k', par h' w))"
      if "has h k' w" "par h' w \<noteq> NULL" for k' w
      using that repr_par [OF R that(1)] has_kind_unique [OF N v(1), of k'] by (auto simp: P)
  qed
  moreover have "free_of h (k, p) = lh_f ?l" using rr by (simp add: free_of_def rlist_def)
  ultimately show ?thesis
    using run P free_of_rlist [OF L]
    by (intro exI [of _ h']) (auto simp: h' same_data_def mem_simps)
qed

end
