(* ===== verification/Judy.thy ===== *)
theory Judy
  imports Memory "HOL-Library.AList"
begin

text \<open>
  The hash table \<open>ht\<close> from addresses to nodes. The program keeps it in a JudyHS array of the
  library libJudy, which is not part of the repository: its operations are a parameter \<open>J\<close> of
  the definitions that use it, and what the program relies on, the documented behaviour of the
  macros \<open>JHSI\<close>, \<open>JHSG\<close> and \<open>JHSD\<close>, is the locale \<open>judy_hs\<close>.
\<close>

record 't judy =
  jnil :: 't
    \<comment> \<open>the empty array, a null pointer\<close>
  jhsi :: "'t \<Rightarrow> in6_addr \<Rightarrow> 't option"
    \<comment> \<open>\<open>JHSI\<close>: the array with the key in it, a new key with value 0; \<open>None\<close> is \<open>PJERR\<close>\<close>
  jhsg :: "'t \<Rightarrow> in6_addr \<Rightarrow> ptr option"
    \<comment> \<open>\<open>JHSG\<close>: the value of the key; \<open>None\<close> is a null pointer\<close>
  jput :: "'t \<Rightarrow> in6_addr \<Rightarrow> ptr \<Rightarrow> 't"
    \<comment> \<open>a store through the value pointer that \<open>JHSI\<close> or \<open>JHSG\<close> returned\<close>
  jhsd :: "'t \<Rightarrow> in6_addr \<Rightarrow> 't"
    \<comment> \<open>\<open>JHSD\<close>: the array without the key\<close>

locale judy_hs =
  fixes J :: "'t judy"
  assumes jhsg_jnil: "jhsg J (jnil J) k = None"
    and jhsg_jhsi: "jhsi J t k = Some t' \<Longrightarrow>
      jhsg J t' x = (if x = k then Some (case jhsg J t k of None \<Rightarrow> NULL | Some v \<Rightarrow> v) else jhsg J t x)"
    and jhsg_jput: "jhsg J t k = Some v \<Longrightarrow>
      jhsg J (jput J t k w) x = (if x = k then Some w else jhsg J t x)"
    and jhsg_jhsd: "jhsg J (jhsd J t k) x = (if x = k then None else jhsg J t x)"
begin

lemma jhsg_not_nil: "jhsg J t k = Some v \<Longrightarrow> t \<noteq> jnil J"
  using jhsg_jnil by auto

lemma jhsg_jhsi_same:
  "jhsi J t k = Some t' \<Longrightarrow> jhsg J t' k = Some (case jhsg J t k of None \<Rightarrow> NULL | Some v \<Rightarrow> v)"
  by (simp add: jhsg_jhsi)

lemma jhsg_insert_put:
  "jhsi J t k = Some t' \<Longrightarrow> jhsg J (jput J t' k w) = (jhsg J t)(k \<mapsto> w)"
  by (intro ext) (simp add: jhsg_jput [OF jhsg_jhsi_same] jhsg_jhsi)

lemma jhsg_jhsd_fun: "jhsg J (jhsd J t k) = (jhsg J t)(k := None)"
  by (intro ext) (simp add: jhsg_jhsd)

lemma jhsi_present: "jhsi J t k = Some t' \<Longrightarrow> jhsg J t k = Some v \<Longrightarrow> jhsg J t' = jhsg J t"
  by (intro ext) (simp add: jhsg_jhsi)

end

text \<open>An association list is such a table; it never runs out of memory.\<close>

definition alist_judy :: "(in6_addr \<times> ptr) list judy" where
  "alist_judy = \<lparr>
     jnil = [],
     jhsi = (\<lambda>t k. Some (case map_of t k of None \<Rightarrow> (k, NULL) # t | Some _ \<Rightarrow> t)),
     jhsg = map_of,
     jput = (\<lambda>t k v. AList.update k v t),
     jhsd = (\<lambda>t k. AList.delete k t)\<rparr>"

interpretation alist: judy_hs alist_judy
proof
  fix t t' :: "(in6_addr \<times> ptr) list" and k x v w
  show "jhsg alist_judy (jnil alist_judy) k = None" by (simp add: alist_judy_def)
  show "jhsg alist_judy t' x =
      (if x = k then Some (case jhsg alist_judy t k of None \<Rightarrow> NULL | Some v \<Rightarrow> v)
       else jhsg alist_judy t x)" if "jhsi alist_judy t k = Some t'"
    using that by (auto simp: alist_judy_def split: option.splits)
  show "jhsg alist_judy (jput alist_judy t k w) x = (if x = k then Some w else jhsg alist_judy t x)"
    by (simp add: alist_judy_def update_conv')
  show "jhsg alist_judy (jhsd alist_judy t k) x = (if x = k then None else jhsg alist_judy t x)"
    by (simp add: alist_judy_def delete_conv')
qed

end
