(* ===== verification/Tree.thy ===== *)
theory Tree
  imports Topology Judy
begin

text \<open>
  The operations of \<open>tree.c\<close> that change the topology tree: creating leafs and routers, moving a
  node below another router (\<open>adopt\<close>), putting a new router above a node (\<open>insert\<close>), finding the
  place of a router on the path to a leaf (\<open>get_path_pos\<close>), and taking a router out of the tree
  (\<open>free_router\<close>, \<open>cut_router\<close>). Each refines an update of the view of \<open>Topology\<close>.
\<close>


section \<open>Operations\<close>

partial_function (option) get_child_loop :: "ptr \<Rightarrow> ptr \<Rightarrow> heap \<Rightarrow> ptr option" where
  "get_child_loop n l h =
     (if l = NULL then Some NULL
      else do {
        ce \<leftarrow> cells h l;
        if child_v ce = n then Some l else get_child_loop n (child_n ce) h
      })"

declare get_child_loop.simps [code]

definition get_child :: "ptr \<Rightarrow> ptr \<Rightarrow> heap \<Rightarrow> ptr option" where
  "get_child n l h = (if n = NULL \<or> l = NULL then Some NULL else get_child_loop n l h)"

definition leaf_init :: "sockaddr_in6 \<Rightarrow> uint16 \<Rightarrow> ptr \<Rightarrow> leaf" where
  "leaf_init sa port p =
     \<lparr>leaf_node = \<lparr>node_parent = p, node_type = LEAF_NODE\<rparr>,
      leaf_val = \<lparr>rcvr_addr = \<lparr>addr_sa = sa, addr_port = port\<rparr>, rcvr_hops = SIZE_MAX,
        rcvr_next = NULL\<rparr>\<rparr>"

definition create_leaf :: "sockaddr_in6 \<Rightarrow> uint16 \<Rightarrow> ptr \<Rightarrow> heap \<Rightarrow> (ptr \<times> heap) option" where
  "create_leaf sa port p h =
     (if p = NULL then Some (NULL, h)
      else do {
        let (l, h) = new_leaf (leaf_init sa port p) h;
        let (c, h) = new_cell \<lparr>child_v = l, child_n = NULL\<rparr> h;
        (e, h) \<leftarrow> add_leaf p c h;
        if e \<noteq> 0 then do { h \<leftarrow> free_leaf l h; h \<leftarrow> free_cell c h; Some (NULL, h) }
        else Some (l, h)
      })"

text \<open>\<open>calloc\<close>: every member is zero but the ones set.\<close>

definition router_init :: "sockaddr_in6 \<Rightarrow> ptr \<Rightarrow> router" where
  "router_init sa p =
     \<lparr>router_node = \<lparr>node_parent = p, node_type = ROUTER_NODE\<rparr>, router_sa = sa, router_hops = 0,
      router_child = NULL, router_leaf = NULL, router_nchild = 0, router_fchild = 0,
      router_nleaf = 0, router_fleaf = 0\<rparr>"

definition create_router :: "sockaddr_in6 \<Rightarrow> ptr \<Rightarrow> heap \<Rightarrow> (ptr \<times> heap) option" where
  "create_router sa p h =
     (if p = NULL then Some (new_router (router_init sa NULL) h)
      else do {
        let (r, h) = new_router (router_init sa p) h;
        let (c, h) = new_cell \<lparr>child_v = r, child_n = NULL\<rparr> h;
        (e, h) \<leftarrow> add_router p c h;
        if e \<noteq> 0 then do { h \<leftarrow> free_router_obj r h; h \<leftarrow> free_cell c h; Some (NULL, h) }
        else Some (r, h)
      })"

text \<open>
  \<open>free_router\<close> returns the lists of the freed router with their lengths; \<open>None\<close> inside is the
  error return for a null pointer.
\<close>

definition free_router ::
    "'t judy \<Rightarrow> ptr \<Rightarrow> heap \<Rightarrow> 't \<Rightarrow> ((ptr \<times> size_t \<times> ptr \<times> size_t) option \<times> heap \<times> 't) option" where
  "free_router J r h t =
     (if r = NULL then Some (None, h, t)
      else do {
        rr \<leftarrow> routers h r;
        let p = node_parent (router_node rr);
        pr \<leftarrow> routers h p;
        _ \<leftarrow> get_child r (router_child pr) h;
        (c, h) \<leftarrow> rm_router p r h;
        rr \<leftarrow> routers h r;
        let out = (router_child rr, router_nchild rr, router_leaf rr, router_nleaf rr);
        let t = jhsd J t (sin6_addr (router_sa rr));
        h \<leftarrow> free_cell c h;
        h \<leftarrow> free_router_obj r h;
        Some (Some out, h, t)
      })"

definition cut_router :: "'t judy \<Rightarrow> ptr \<Rightarrow> heap \<Rightarrow> 't \<Rightarrow> (int \<times> heap \<times> 't) option" where
  "cut_router J r h t =
     (if r = NULL then Some (- 1, h, t)
      else do {
        rr \<leftarrow> routers h r;
        let p = node_parent (router_node rr);
        (out, h, t) \<leftarrow> free_router J r h t;
        (childs, nchild, lfs, nleaf) \<leftarrow> out;
        pr \<leftarrow> routers h p;
        (_, l, h) \<leftarrow> add_childs p (child_list pr) childs h;
        h \<leftarrow> upd_router p (put_child_list l) h;
        pr \<leftarrow> routers h p;
        (_, l, h) \<leftarrow> add_childs p (leaf_list pr) lfs h;
        h \<leftarrow> upd_router p (put_leaf_list l) h;
        Some (0, h, t)
      })"

definition adopt :: "ptr \<Rightarrow> ptr \<Rightarrow> heap \<Rightarrow> (int \<times> heap) option" where
  "adopt p c h =
     (if p = NULL \<or> c = NULL then Some (- 1, h)
      else do {
        ce \<leftarrow> cells h c;
        let n = child_v ce;
        if n = NULL then Some (- 1, h)
        else do {
          nd \<leftarrow> get_node n h;
          let r = node_parent nd;
          if r = NULL then Some (- 1, h)
          else if node_type nd = ROUTER_NODE then do {
            (_, h) \<leftarrow> rm_router r n h;
            add_router p c h
          }
          else if node_type nd = LEAF_NODE then do {
            (_, h) \<leftarrow> rm_leaf r n h;
            add_leaf p c h
          }
          else Some (- 1, h)
        }
      })"

definition insert_router :: "sockaddr_in6 \<Rightarrow> ptr \<Rightarrow> heap \<Rightarrow> (ptr \<times> heap) option" where
  "insert_router sa c h =
     (if c = NULL then Some (NULL, h)
      else do {
        ce \<leftarrow> cells h c;
        if child_v ce = NULL then Some (NULL, h)
        else do {
          nd \<leftarrow> get_node (child_v ce) h;
          (p, h) \<leftarrow> create_router sa (node_parent nd) h;
          (e, h) \<leftarrow> adopt p c h;
          Some (if e \<noteq> 0 then NULL else p, h)
        }
      })"

partial_function (option) get_path_pos_loop ::
    "ptr \<Rightarrow> ptr \<Rightarrow> size_t \<Rightarrow> heap \<Rightarrow> (ptr \<times> ptr) option" where
  "get_path_pos_loop n p hops h =
     (if p = NULL then Some (n, p)
      else do {
        r \<leftarrow> routers h p;
        if router_hops r \<le> hops then Some (n, p)
        else get_path_pos_loop p (node_parent (router_node r)) hops h
      })"

declare get_path_pos_loop.simps [code]

definition get_path_pos :: "ptr \<Rightarrow> uint8 \<Rightarrow> heap \<Rightarrow> ptr option" where
  "get_path_pos l hops h =
     (if l = NULL then Some NULL
      else do {
        lf \<leftarrow> leafs h l;
        (n, p) \<leftarrow> get_path_pos_loop l (node_parent (leaf_node lf)) (unat hops) h;
        nd \<leftarrow> get_node n h;
        r \<leftarrow> routers h p;
        get_child n (if node_type nd = ROUTER_NODE then router_child r else router_leaf r) h
      })"


section \<open>New objects\<close>

lemma get_child_loop_ok:
  "chain (cells h) l xs \<Longrightarrow> distinct (map snd xs) \<Longrightarrow> (c, v) \<in> set xs \<Longrightarrow> get_child_loop v l h = Some c"
proof (induction xs arbitrary: l)
  case Nil
  then show ?case by simp
next
  case (Cons x xs)
  then show ?case
    by (subst get_child_loop.simps) (force elim!: chain_ConsE)
qed

lemma get_child_ok:
  assumes "repr h V" "routers h r = Some rr" "(c, v) \<in> set (V (k, r))"
  shows "get_child v (lh_l (list_of k rr)) h = Some c"
proof -
  have L: "list_ok (cells h) (list_of k rr) (V (k, r))"
    using repr_list [OF assms(1) rlist_Some [OF assms(2)]] .
  have "v \<noteq> NULL" using repr_in [OF assms(1,3)] node_ok_NULL [OF repr_node_ok [OF assms(1)]] by blast
  moreover have "lh_l (list_of k rr) \<noteq> NULL" using L assms(3) by (auto simp: list_ok_def intro!: gr0I)
  ultimately show ?thesis
    using L assms(3) get_child_loop_ok by (auto simp: get_child_def list_ok_def)
qed

lemma repr_new:
  assumes R: "repr h V" and ok: "node_ok h'"
    and rlist: "\<And>kr. rlist h' kr = (if rlist h kr = None \<and> rlist h' kr \<noteq> None
      then Some \<lparr>lh_l = NULL, lh_n = 0, lh_f = 0\<rparr> else rlist h kr)"
    and cells: "\<And>c. cells h c \<noteq> None \<Longrightarrow> cells h' c = cells h c"
    and has: "\<And>k v. has h k v \<Longrightarrow> has h' k v \<and> par h' v = par h v"
    and new: "\<And>k v. has h' k v \<Longrightarrow> \<not> has h k v \<Longrightarrow> par h' v = NULL"
  shows "repr h' V"
  unfolding repr_def
proof (intro conjI allI impI)
  show "node_ok h'" by (rule ok)
next
  fix kr l
  assume l: "rlist h' kr = Some l"
  show "list_ok (cells h') l (V kr)"
  proof (cases "rlist h kr")
    case None
    with l rlist [of kr] repr_None [OF R None] show ?thesis by (simp add: list_ok_def)
  next
    case (Some l')
    with l rlist [of kr] have "list_ok (cells h) l (V kr)" using repr_list [OF R] by simp
    moreover have "cells h' c = cells h c" if "c \<in> fst ` set (V kr)" for c
      using that repr_cell [OF R] cells by (cases kr) force
    ultimately show ?thesis by (auto simp: list_ok_def elim!: chain_cong)
  qed
next
  fix kr
  assume "rlist h' kr = None"
  then have "rlist h kr = None" using rlist [of kr] by (auto split: if_splits)
  then show "V kr = []" by (rule repr_None [OF R])
next
  fix k r c v
  assume "(c, v) \<in> set (V (k, r))"
  then have "has h k v" "par h v = r" using repr_in [OF R] by auto
  then show "has h' k v" and "par h' v = r" using has by auto
next
  fix k v
  assume "has h' k v \<and> par h' v \<noteq> NULL"
  then have "has h k v" using new [of k v] by auto
  then have "has h k v" "par h' v = par h v" using has [of k v] by auto
  then show "v \<in> snd ` set (V (k, par h' v))"
    using repr_par [OF R] \<open>has h' k v \<and> par h' v \<noteq> NULL\<close> by simp
qed

lemma node_ok_upto:
  "node_ok h \<Longrightarrow> has h k v \<Longrightarrow> v < brk h" "node_ok h \<Longrightarrow> cells h v \<noteq> None \<Longrightarrow> v < brk h"
  using node_ok_fresh [of h v] by (cases k; force simp: not_less [symmetric])+

lemma par_new [mem_simps]:
  "leafs h x = None \<Longrightarrow> routers h x = None \<Longrightarrow>
    par (h\<lparr>leafs := (leafs h)(x \<mapsto> l)\<rparr>) = (par h)(x := node_parent (leaf_node l))"
  "leafs h x = None \<Longrightarrow> routers h x = None \<Longrightarrow>
    par (h\<lparr>routers := (routers h)(x \<mapsto> r)\<rparr>) = (par h)(x := node_parent (router_node r))"
  "par (h\<lparr>brk := b\<rparr>) = par h"
  by (auto simp: par_def get_node_def intro!: ext split: option.splits)

lemma new_cell_repr:
  assumes R: "repr h V"
  shows "repr (snd (new_cell ce h)) V"
proof (rule repr_new [OF R])
  note N = repr_node_ok [OF R]
  show "node_ok (snd (new_cell ce h))"
    using N unfolding node_ok_def by (simp add: new_cell_def)
  show "cells (snd (new_cell ce h)) c = cells h c" if "cells h c \<noteq> None" for c
    using node_ok_upto(2) [OF N that] by (simp add: new_cell_def)
  show "has (snd (new_cell ce h)) k v \<and> par (snd (new_cell ce h)) v = par h v"
    if "has h k v" for k v
    using that by (cases k) (simp_all add: new_cell_def mem_simps)
  show "par (snd (new_cell ce h)) v = NULL"
    if "has (snd (new_cell ce h)) k v" "\<not> has h k v" for k v
    using that by (cases k) (simp_all add: new_cell_def)
qed (auto simp: new_cell_def rlist_def)

lemma new_leaf_repr:
  assumes R: "repr h V"
  shows "repr (snd (new_leaf (leaf_init sa port NULL) h)) V"
proof (rule repr_new [OF R])
  note N = repr_node_ok [OF R]
  let ?h = "snd (new_leaf (leaf_init sa port NULL) h)"
  have fresh: "leafs h (brk h) = None" "routers h (brk h) = None"
    using node_ok_fresh [OF N, of "brk h"] by auto
  show "node_ok ?h"
    using N fresh unfolding node_ok_def by (auto simp: new_leaf_def leaf_init_def)
  show "has ?h k v \<and> par ?h v = par h v" if "has h k v" for k v
    using that node_ok_upto(1) [OF N that] fresh
    by (cases k) (auto simp: new_leaf_def mem_simps)
  show "par ?h v = NULL" if "has ?h k v" "\<not> has h k v" for k v
    using that fresh
    by (cases k) (auto simp: new_leaf_def leaf_init_def mem_simps split: if_splits)
qed (auto simp: new_leaf_def rlist_def)

lemma new_router_repr:
  assumes R: "repr h V"
  shows "repr (snd (new_router (router_init sa NULL) h)) V"
proof (rule repr_new [OF R])
  note N = repr_node_ok [OF R]
  let ?h = "snd (new_router (router_init sa NULL) h)"
  have fresh: "leafs h (brk h) = None" "routers h (brk h) = None"
    using node_ok_fresh [OF N, of "brk h"] by auto
  show "node_ok ?h"
    using N fresh unfolding node_ok_def by (auto simp: new_router_def router_init_def)
  show "rlist ?h kr = (if rlist h kr = None \<and> rlist ?h kr \<noteq> None
      then Some \<lparr>lh_l = NULL, lh_n = 0, lh_f = 0\<rparr> else rlist h kr)" for kr
  proof -
    obtain k r where kr: "kr = (k, r)" by (cases kr)
    show ?thesis using fresh unfolding kr
      by (cases k) (auto simp: new_router_def rlist_def router_init_def child_list_def leaf_list_def)
  qed
  show "has ?h k v \<and> par ?h v = par h v" if "has h k v" for k v
    using that node_ok_upto(1) [OF N that] fresh
    by (cases k) (auto simp: new_router_def mem_simps)
  show "par ?h v = NULL" if "has ?h k v" "\<not> has h k v" for k v
    using that fresh
    by (cases k) (auto simp: new_router_def router_init_def mem_simps split: if_splits)
qed (auto simp: new_router_def rlist_def)

text \<open>The parent a node already has does not matter when it is added to a list.\<close>

lemma with_parent_idem [simp]: "with_parent v p (with_parent v p h) = with_parent v p h"
  by (cases "leafs h v"; cases "routers h v") (simp_all add: with_parent_def o_def)

lemma add_node_with_parent:
  assumes "cells h c = Some ce" "child_v ce = v" "is_node h v" "v \<noteq> NULL" "c \<noteq> NULL"
  shows "add_node k p c (with_parent v p h) = add_node k p c h"
proof (cases "routers h p")
  case None
  then have "routers (with_parent v p h) p = None"
    by (cases "p = v") (auto simp: with_parent_def)
  with None show ?thesis by (simp add: add_node_def)
next
  case (Some r)
  then obtain r' where r': "routers (with_parent v p h) p = Some r'" "list_of k r' = list_of k r"
    using rlist_Some [of h p r k] by (metis rlist_SomeE rlist_with_parent)
  have "set_parent c p (with_parent v p h) = set_parent c p h"
    using assms by (simp add: set_parent_ok mem_simps)
  then have "add_child p l c (with_parent v p h) = add_child p l c h" for l
    by (simp add: add_child_def)
  with Some r' show ?thesis by (simp add: add_node_def)
qed

text \<open>
  The new node of \<open>create_leaf\<close> and \<open>create_router\<close> is the next free number, its cell the one
  after that; it becomes the first element of its list.
\<close>

lemma create_leaf_ok:
  assumes R: "repr h V" and p: "routers h p \<noteq> None"
  shows "\<exists>h'. create_leaf sa port p h = Some (brk h, h') \<and>
    repr h' (V((Leaf, p) := (Suc (brk h), brk h) # V (Leaf, p))) \<and>
    rdata h' = rdata h \<and> ldata h' = (ldata h)(brk h \<mapsto> leaf_val (leaf_init sa port p)) \<and>
    hdrs h' = hdrs h \<and> brk h' = brk h + 2 \<and> par h' = (par h)(brk h := p) \<and>
    free_of h' = (free_of h)((Leaf, p) := free_of h (Leaf, p) + 1)"
proof -
  note N = repr_node_ok [OF R]
  let ?l = "brk h" and ?c = "Suc (brk h)"
  let ?ce = "\<lparr>child_v = ?l, child_n = NULL\<rparr>"
  have fresh: "leafs h ?l = None" "routers h ?l = None" "cells h ?c = None"
    using node_ok_fresh [OF N, of ?l] node_ok_fresh [OF N, of ?c] by auto
  have p0: "p \<noteq> NULL" "p \<noteq> ?l" using p fresh node_ok_router_NULL [OF N] by (auto intro!: gr0I)
  define h1 where "h1 = snd (new_leaf (leaf_init sa port NULL) h)"
  define h2 where "h2 = snd (new_cell ?ce h1)"
  have R2: "repr h2 V"
    unfolding h1_def h2_def by (intro new_cell_repr new_leaf_repr R)
  have l2: "leafs h2 ?l = Some (leaf_init sa port NULL)" and c2: "cells h2 ?c = Some ?ce"
    by (simp_all add: h1_def h2_def new_leaf_def new_cell_def)
  have "snd (new_cell ?ce (snd (new_leaf (leaf_init sa port p) h))) = with_parent ?l p h2"
    using fresh by (simp add: h1_def h2_def new_leaf_def new_cell_def with_parent_def leaf_init_def
        fun_upd_idem)
  moreover have "fst (new_leaf (leaf_init sa port p) h) = ?l"
    "fst (new_cell ?ce (snd (new_leaf (leaf_init sa port p) h))) = ?c"
    by (simp_all add: new_leaf_def new_cell_def)
  moreover have "add_node Leaf p ?c (with_parent ?l p h2) = add_node Leaf p ?c h2"
    using add_node_with_parent [OF c2 _ _ _ _, of ?l Leaf p] l2 N
    by (simp add: is_node_def node_ok_def)
  ultimately have run: "create_leaf sa port p h = (case add_node Leaf p ?c h2 of
      None \<Rightarrow> None | Some (e, h) \<Rightarrow> if e \<noteq> 0 then do { h \<leftarrow> free_leaf ?l h; h \<leftarrow> free_cell ?c h; Some (NULL, h) } else Some (?l, h))"
    using p0 by (auto simp: create_leaf_def add_leaf_node Let_def case_prod_beta split: option.splits)
  have p2: "routers h2 p \<noteq> None" using p by (simp add: h1_def h2_def new_leaf_def new_cell_def)
  have "par h2 ?l = NULL" using l2 by (simp add: par_leaf leaf_init_def)
  then obtain h' where h': "add_node Leaf p ?c h2 = Some (EXIT_SUCCESS, h')"
      "repr h' (V((Leaf, p) := (?c, ?l) # V (Leaf, p)))" "same_data h2 h'"
      "par h' = (par h2)(?l := p)"
      "free_of h' = (free_of h2)((Leaf, p) := free_of h2 (Leaf, p) + 1)"
    using add_node_ok [OF R2 p2 c2, of ?l Leaf] l2 by auto
  have "par h2 = (par h)(?l := NULL)"
    using fresh by (simp add: h1_def h2_def new_leaf_def new_cell_def mem_simps leaf_init_def)
  moreover have "rdata h2 = rdata h" "rlist h2 = rlist h" "hdrs h2 = hdrs h" "brk h2 = brk h + 2"
    "ldata h2 = (ldata h)(?l \<mapsto> leaf_val (leaf_init sa port p))"
    by (auto simp: h1_def h2_def new_leaf_def new_cell_def rdata_def rlist_def ldata_def
        leaf_init_def)
  moreover from this have "free_of h2 = free_of h" by (intro ext) (simp add: free_of_def)
  ultimately show ?thesis using run h' by (auto simp: same_data_def)
qed

lemma create_router_ok:
  assumes R: "repr h V" and p: "routers h p \<noteq> None"
  shows "\<exists>h'. create_router sa p h = Some (brk h, h') \<and>
    repr h' (V((Kid, p) := (Suc (brk h), brk h) # V (Kid, p))) \<and>
    rdata h' = (rdata h)(brk h \<mapsto> (sa, 0)) \<and> ldata h' = ldata h \<and>
    hdrs h' = hdrs h \<and> brk h' = brk h + 2 \<and> par h' = (par h)(brk h := p) \<and>
    free_of h' = (free_of h)((Kid, p) := free_of h (Kid, p) + 1) \<and>
    (\<forall>x. cells h x \<noteq> None \<longrightarrow> cells h' x = cells h x)"
proof -
  note N = repr_node_ok [OF R]
  let ?r = "brk h" and ?c = "Suc (brk h)"
  let ?ce = "\<lparr>child_v = ?r, child_n = NULL\<rparr>"
  have fresh: "leafs h ?r = None" "routers h ?r = None" "cells h ?c = None"
    using node_ok_fresh [OF N, of ?r] node_ok_fresh [OF N, of ?c] by auto
  have p0: "p \<noteq> NULL" "p \<noteq> ?r" using p fresh node_ok_router_NULL [OF N] by (auto intro!: gr0I)
  define h1 where "h1 = snd (new_router (router_init sa NULL) h)"
  define h2 where "h2 = snd (new_cell ?ce h1)"
  have R2: "repr h2 V"
    unfolding h1_def h2_def by (intro new_cell_repr new_router_repr R)
  have r2: "routers h2 ?r = Some (router_init sa NULL)" and c2: "cells h2 ?c = Some ?ce"
    and l2: "leafs h2 ?r = None"
    using fresh by (simp_all add: h1_def h2_def new_router_def new_cell_def)
  have "snd (new_cell ?ce (snd (new_router (router_init sa p) h))) = with_parent ?r p h2"
    using fresh by (simp add: h1_def h2_def new_router_def new_cell_def with_parent_def
        router_init_def fun_upd_idem)
  moreover have "fst (new_router (router_init sa p) h) = ?r"
    "fst (new_cell ?ce (snd (new_router (router_init sa p) h))) = ?c"
    by (simp_all add: new_router_def new_cell_def)
  moreover have "add_node Kid p ?c (with_parent ?r p h2) = add_node Kid p ?c h2"
    using add_node_with_parent [OF c2 _ _ _ _, of ?r Kid p] r2 N
    by (simp add: is_node_def node_ok_def)
  ultimately have run: "create_router sa p h = (case add_node Kid p ?c h2 of
      None \<Rightarrow> None | Some (e, h) \<Rightarrow>
        if e \<noteq> 0 then do { h \<leftarrow> free_router_obj ?r h; h \<leftarrow> free_cell ?c h; Some (NULL, h) } else Some (?r, h))"
    using p0 by (auto simp: create_router_def add_router_node Let_def case_prod_beta split: option.splits)
  have p2: "routers h2 p \<noteq> None" using p by (simp add: h1_def h2_def new_router_def new_cell_def)
  have "par h2 ?r = NULL" using r2 l2 by (simp add: par_router router_init_def)
  then obtain h' where h': "add_node Kid p ?c h2 = Some (EXIT_SUCCESS, h')"
      "repr h' (V((Kid, p) := (?c, ?r) # V (Kid, p)))" "same_data h2 h'"
      "par h' = (par h2)(?r := p)"
      "free_of h' = (free_of h2)((Kid, p) := free_of h2 (Kid, p) + 1)"
      "\<forall>x. x \<noteq> ?c \<longrightarrow> cells h' x = cells h2 x"
    using add_node_ok [OF R2 p2 c2, of ?r Kid] r2 by auto
  have "par h2 = (par h)(?r := NULL)"
    using fresh by (simp add: h1_def h2_def new_router_def new_cell_def mem_simps router_init_def)
  moreover have "par h ?r = NULL" using fresh by (simp add: par_def get_node_def)
  moreover have "ldata h2 = ldata h" "hdrs h2 = hdrs h" "brk h2 = brk h + 2"
    "rdata h2 = (rdata h)(?r \<mapsto> (sa, 0))" "\<forall>x. x \<noteq> ?c \<longrightarrow> cells h2 x = cells h x"
    by (auto simp: h1_def h2_def new_router_def new_cell_def rdata_def ldata_def router_init_def)
  moreover have "free_of h2 = free_of h"
  proof
    fix kr :: "kind \<times> ptr"
    obtain k r where kr: "kr = (k, r)" by (cases kr)
    show "free_of h2 kr = free_of h kr"
      using fresh unfolding kr by (cases k) (auto simp: h1_def h2_def new_router_def new_cell_def
          free_of_def rlist_def router_init_def child_list_def leaf_list_def)
  qed
  moreover have "cells h x \<noteq> None \<Longrightarrow> x \<noteq> ?c" for x using fresh(3) by auto
  ultimately show ?thesis using run h' by (simp add: same_data_def)
qed


section \<open>Moving a node\<close>

text \<open>The view after node \<open>n\<close> with cell \<open>c\<close> has moved from the list of \<open>r\<close> to that of \<open>p\<close>.\<close>

definition view_rm :: "kind \<Rightarrow> ptr \<Rightarrow> ptr \<Rightarrow> view \<Rightarrow> view" where
  "view_rm k r n V = V((k, r) := filter (\<lambda>x. snd x \<noteq> n) (V (k, r)))"

text \<open>Outside of grouping every element of a list is free.\<close>

definition all_free :: "heap \<Rightarrow> view \<Rightarrow> bool" where
  "all_free h V \<longleftrightarrow> (\<forall>kr. free_of h kr = length (V kr))"

definition view_add :: "kind \<Rightarrow> ptr \<Rightarrow> ptr \<times> ptr \<Rightarrow> view \<Rightarrow> view" where
  "view_add k p x V = V((k, p) := x # V (k, p))"

lemma rm_node_view:
  assumes R: "repr h V" and cv: "(c, v) \<in> set (V (k, p))"
  shows "\<exists>h'. rm_node k p v h = Some (c, h') \<and> repr h' (view_rm k p v V) \<and> same_data h h' \<and>
    par h' = (par h)(v := NULL) \<and> cells h' c = Some \<lparr>child_v = v, child_n = NULL\<rparr> \<and>
    free_of h' = (free_of h)((k, p) := free_of h (k, p) - 1) \<and>
    (\<forall>x. x \<notin> fst ` set (V (k, p)) \<longrightarrow> cells h' x = cells h x)"
proof -
  obtain rr where "routers h p = Some rr" using repr_cell [OF R cv] by blast
  then have "distinct (map snd (V (k, p)))"
    using repr_list [OF R rlist_Some] by (simp add: list_ok_def)
  with cv obtain ys zs where xs: "V (k, p) = ys @ (c, v) # zs" "v \<notin> snd ` set ys" "v \<notin> snd ` set zs"
    by (rule in_chain_split)
  then have "filter (\<lambda>x. snd x \<noteq> v) (V (k, p)) = ys @ zs"
    by (intro filter_neq_split) auto
  with rm_node_ok [OF R xs(1)] show ?thesis by (simp add: view_rm_def)
qed

lemma length_view_rm:
  assumes R: "repr h V" and cv: "(c, v) \<in> set (V (k, p))"
  shows "length (filter (\<lambda>x. snd x \<noteq> v) (V (k, p))) = length (V (k, p)) - 1"
proof -
  obtain rr where "routers h p = Some rr" using repr_cell [OF R cv] by blast
  then have "distinct (map snd (V (k, p)))"
    using repr_list [OF R rlist_Some] by (simp add: list_ok_def)
  with cv obtain ys zs where xs: "V (k, p) = ys @ (c, v) # zs" "v \<notin> snd ` set ys" "v \<notin> snd ` set zs"
    by (rule in_chain_split)
  then have "filter (\<lambda>x. snd x \<noteq> v) (V (k, p)) = ys @ zs"
    by (intro filter_neq_split) auto
  with xs(1) show ?thesis by simp
qed

lemma adopt_ok:
  assumes R: "repr h V" and cn: "(c, n) \<in> set (V (k, r))" and p: "routers h p \<noteq> None"
  shows "\<exists>h'. adopt p c h = Some (0, h') \<and> repr h' (view_add k p (c, n) (view_rm k r n V)) \<and>
    same_data h h' \<and> par h' = (par h)(n := p) \<and>
    (all_free h V \<longrightarrow> all_free h' (view_add k p (c, n) (view_rm k r n V)))"
proof -
  note N = repr_node_ok [OF R]
  obtain ce where ce: "cells h c = Some ce" "child_v ce = n" "c \<noteq> NULL"
    using repr_cell [OF R cn] by auto
  have n: "has h k n" "par h n = r" "n \<noteq> NULL"
    using repr_in [OF R cn] node_ok_NULL [OF N] by auto
  have r0: "r \<noteq> NULL" using repr_cell [OF R cn] node_ok_router_NULL [OF N] by (auto intro!: gr0I)
  have p0: "p \<noteq> NULL" using p node_ok_router_NULL [OF N] by (auto intro!: gr0I)
  obtain h1 where h1: "rm_node k r n h = Some (c, h1)" "repr h1 (view_rm k r n V)" "same_data h h1"
      "par h1 = (par h)(n := NULL)" "cells h1 c = Some \<lparr>child_v = n, child_n = NULL\<rparr>"
      "free_of h1 = (free_of h)((k, r) := free_of h (k, r) - 1)"
    using rm_node_view [OF R cn] by blast
  have "routers h1 p \<noteq> None" "has h1 k n"
    using p n(1) same_data_dom [OF h1(3)] same_data_has [OF h1(3)] by auto
  then obtain h2 where h2: "add_node k p c h1 = Some (EXIT_SUCCESS, h2)"
      "repr h2 (view_add k p (c, n) (view_rm k r n V))" "same_data h1 h2"
      "par h2 = (par h1)(n := p)"
      "free_of h2 = (free_of h1)((k, p) := free_of h1 (k, p) + 1)"
    using add_node_ok [OF h1(2) _ h1(5), of p n k] h1(4) by (auto simp: view_add_def)
  have "adopt p c h = Some (0, h2)"
  proof (cases k)
    case Kid
    with n(1) obtain nr where nr: "routers h n = Some nr" by auto
    then have "leafs h n = None" using node_ok_disj' [OF N] by blast
    with nr n(2) Kid h1(1) h2(1) ce n(3) r0 p0 node_ok_rtype [OF N nr] show ?thesis
      by (simp add: adopt_def mem_simps par_router add_router_node rm_router_node)
  next
    case Leaf
    with n(1) obtain lf where lf: "leafs h n = Some lf" by auto
    with n(2) Leaf h1(1) h2(1) ce n(3) r0 p0 node_ok_ltype [OF N lf] show ?thesis
      by (simp add: adopt_def mem_simps par_leaf add_leaf_node rm_leaf_node LEAF_NODE_def
          ROUTER_NODE_def)
  qed
  moreover have "all_free h2 (view_add k p (c, n) (view_rm k r n V))" if "all_free h V"
    using that length_view_rm [OF R cn]
    by (auto simp: all_free_def view_add_def view_rm_def h1(6) h2(5))
  ultimately show ?thesis using h1 h2 by (auto intro: same_data_trans)
qed

text \<open>
  \<open>insert\<close> puts a new router between a node and its parent: the new router is the first child
  router of the old parent, the node its only child.
\<close>

definition view_insert :: "kind \<Rightarrow> ptr \<Rightarrow> ptr \<Rightarrow> ptr \<Rightarrow> ptr \<Rightarrow> ptr \<Rightarrow> view \<Rightarrow> view" where
  "view_insert k c n gp c' p V = view_add k p (c, n) (view_rm k gp n (view_add Kid gp (c', p) V))"

lemma insert_router_ok:
  assumes R: "repr h V" and cn: "(c, n) \<in> set (V (k, gp))"
  shows "\<exists>h'. insert_router sa c h = Some (brk h, h') \<and>
    repr h' (view_insert k c n gp (Suc (brk h)) (brk h) V) \<and>
    rdata h' = (rdata h)(brk h \<mapsto> (sa, 0)) \<and> ldata h' = ldata h \<and> hdrs h' = hdrs h \<and>
    par h' = (par h)(brk h := gp, n := brk h) \<and>
    (all_free h V \<longrightarrow> all_free h' (view_insert k c n gp (Suc (brk h)) (brk h) V))"
proof -
  note N = repr_node_ok [OF R]
  obtain ce where ce: "cells h c = Some ce" "child_v ce = n" "c \<noteq> NULL"
    using repr_cell [OF R cn] by auto
  have n: "has h k n" "par h n = gp" "n \<noteq> NULL"
    using repr_in [OF R cn] node_ok_NULL [OF N] by auto
  obtain gr where gp: "routers h gp = Some gr" using repr_cell [OF R cn] by blast
  obtain nd where nd: "get_node n h = Some nd" "node_parent nd = gp"
    using n has_is_node [OF n(1)] by (auto simp: par_def get_node_def is_node_def split: option.splits)
  obtain h1 where h1: "create_router sa gp h = Some (brk h, h1)"
      "repr h1 (view_add Kid gp (Suc (brk h), brk h) V)"
      "rdata h1 = (rdata h)(brk h \<mapsto> (sa, 0))" "ldata h1 = ldata h" "hdrs h1 = hdrs h"
      "par h1 = (par h)(brk h := gp)"
      "free_of h1 = (free_of h)((Kid, gp) := free_of h (Kid, gp) + 1)"
    using create_router_ok [OF R, of gp sa] gp by (auto simp: view_add_def)
  have F1: "all_free h1 (view_add Kid gp (Suc (brk h), brk h) V)" if "all_free h V"
    using that by (auto simp: all_free_def view_add_def h1(7))
  have "(c, n) \<in> set (view_add Kid gp (Suc (brk h), brk h) V (k, gp))"
    using cn by (auto simp: view_add_def)
  moreover have "routers h1 (brk h) \<noteq> None"
    using h1(3) rdata_None [of h1 "brk h"] by simp
  ultimately obtain h2 where h2: "adopt (brk h) c h1 = Some (0, h2)"
      "repr h2 (view_insert k c n gp (Suc (brk h)) (brk h) V)" "same_data h1 h2"
      "par h2 = (par h1)(n := brk h)"
      "all_free h1 (view_add Kid gp (Suc (brk h), brk h) V) \<longrightarrow>
        all_free h2 (view_insert k c n gp (Suc (brk h)) (brk h) V)"
    using adopt_ok [OF h1(2), of c n k gp "brk h"] by (auto simp: view_insert_def)
  have "insert_router sa c h = Some (brk h, h2)"
    using ce n(3) nd h1(1) h2(1) by (simp add: insert_router_def)
  with h1 h2 F1 show ?thesis by (auto simp: same_data_def)
qed

end
