(* ===== verification/TopoInv.thy ===== *)
theory TopoInv
  imports Tree
begin

text \<open>
  The invariant of the topology tree between the operations of the discovery phase, and the
  search for a router's place on the path to a leaf (\<open>get_path_pos\<close>).

  The lists of child routers form a graph. The invariant \<open>topo_ok\<close> says that it has no cycle,
  that the sender is its root, that every leaf has a parent, and that routers outside the tree,
  which \<open>rec_reset_tree\<close> leaves behind, own nothing; \<open>hops_mono\<close> says that distances do not
  decrease along the tree.
\<close>


section \<open>Invariant\<close>

definition kid_edges :: "view \<Rightarrow> (ptr \<times> ptr) set" where
  "kid_edges V = {(r, v). v \<in> snd ` set (V (Kid, r))}"

definition hops_at :: "heap \<Rightarrow> ptr \<Rightarrow> size_t" where
  "hops_at h r = (case rdata h r of None \<Rightarrow> 0 | Some (_, n) \<Rightarrow> n)"

definition topo_ok :: "heap \<Rightarrow> view \<Rightarrow> ptr \<Rightarrow> bool" where
  "topo_ok h V root \<longleftrightarrow> repr h V \<and> all_free h V \<and> acyclic (kid_edges V) \<and>
     routers h root \<noteq> None \<and> par h root = NULL \<and>
     (\<forall>l. leafs h l \<noteq> None \<longrightarrow> par h l \<noteq> NULL) \<and>
     (\<forall>k r. routers h r \<noteq> None \<and> par h r = NULL \<and> r \<noteq> root \<longrightarrow> V (k, r) = [])"

definition hops_mono :: "heap \<Rightarrow> view \<Rightarrow> ptr \<Rightarrow> bool" where
  "hops_mono h V root \<longleftrightarrow> hops_at h root = 0 \<and>
     (\<forall>(r, v) \<in> kid_edges V. hops_at h r \<le> hops_at h v)"

lemma topo_okD:
  assumes "topo_ok h V root"
  shows topo_repr: "repr h V" and topo_free: "all_free h V" and topo_acyclic: "acyclic (kid_edges V)"
    and topo_root: "routers h root \<noteq> None" "par h root = NULL"
    and topo_leaf: "leafs h l \<noteq> None \<Longrightarrow> par h l \<noteq> NULL"
    and topo_detached: "routers h r \<noteq> None \<Longrightarrow> par h r = NULL \<Longrightarrow> r \<noteq> root \<Longrightarrow> V (k, r) = []"
  using assms unfolding topo_ok_def by blast+

lemma kid_edges_iff:
  assumes R: "repr h V"
  shows "(r, v) \<in> kid_edges V \<longleftrightarrow> routers h v \<noteq> None \<and> par h v = r \<and> r \<noteq> NULL"
proof
  assume "(r, v) \<in> kid_edges V"
  then obtain c where cv: "(c, v) \<in> set (V (Kid, r))" by (auto simp: kid_edges_def)
  have "r \<noteq> NULL"
    using repr_cell [OF R cv] node_ok_router_NULL [OF repr_node_ok [OF R]] by (auto intro!: gr0I)
  with repr_in [OF R cv] show "routers h v \<noteq> None \<and> par h v = r \<and> r \<noteq> NULL" by simp
next
  assume "routers h v \<noteq> None \<and> par h v = r \<and> r \<noteq> NULL"
  then show "(r, v) \<in> kid_edges V" using repr_par [OF R, of Kid v] by (simp add: kid_edges_def)
qed

lemma kid_edges_router: "repr h V \<Longrightarrow> (r, v) \<in> kid_edges V \<Longrightarrow> routers h r \<noteq> None"
  using repr_cell by (fastforce simp: kid_edges_def)

lemma finite_kid_edges: "repr h V \<Longrightarrow> finite (kid_edges V)"
proof (rule finite_subset)
  assume R: "repr h V"
  have "r < brk h \<and> v < brk h" if "(r, v) \<in> kid_edges V" for r v
    using kid_edges_router [OF R that] that node_ok_upto(1) [OF repr_node_ok [OF R], of Kid]
    by (auto simp: kid_edges_iff [OF R])
  then show "kid_edges V \<subseteq> {..<brk h} \<times> {..<brk h}" by auto
qed simp

lemma topo_wf: "topo_ok h V root \<Longrightarrow> wf (kid_edges V)"
  using finite_acyclic_wf [OF finite_kid_edges topo_acyclic] topo_repr by blast

lemma topo_wf_converse: "topo_ok h V root \<Longrightarrow> wf ((kid_edges V)\<inverse>)"
  using finite_acyclic_wf_converse [OF finite_kid_edges topo_acyclic] topo_repr by blast

lemma kid_edges_view [topo_simps]:
  "kid_edges (view_add Leaf p x V) = kid_edges V"
  "kid_edges (view_rm Leaf r n V) = kid_edges V"
  "kid_edges (view_add Kid p (c, n) V) = insert (p, n) (kid_edges V)"
  "kid_edges (view_rm Kid r n V) = kid_edges V - {(r, n)}"
  by (auto simp: kid_edges_def view_add_def view_rm_def split: if_splits)

lemma hops_mono_path:
  assumes "hops_mono h V root" and "(a, b) \<in> (kid_edges V)\<^sup>*"
  shows "hops_at h a \<le> hops_at h b"
  using assms(2)
  by (induction rule: rtrancl_induct) (use assms(1) in \<open>auto simp: hops_mono_def intro: order_trans\<close>)

text \<open>A path from \<open>n\<close> does not use an edge into \<open>n\<close>.\<close>

lemma path_avoids:
  assumes "acyclic E" and "(n, x) \<in> E\<^sup>*"
  shows "(n, x) \<in> (E - {(p, n)})\<^sup>*"
  using assms(2)
proof (induction rule: rtrancl_induct)
  case (step y z)
  have "z \<noteq> n"
  proof
    assume "z = n"
    with step.hyps have "(n, n) \<in> E\<^sup>+" by (metis rtrancl_into_trancl1)
    with assms(1) show False by (auto simp: acyclic_def)
  qed
  with step.hyps(2) have "(y, z) \<in> E - {(p, n)}" by simp
  with step.IH show ?case by (rule rtrancl_into_rtrancl)
qed simp


section \<open>The place of a router on the path to a leaf\<close>

lemma get_path_pos_loop_ok:
  assumes T: "topo_ok h V root" and H: "hops_mono h V root"
    and n: "has h k n" "par h n = p" "p \<noteq> NULL"
  shows "\<exists>n' p' k'. get_path_pos_loop n p hops h = Some (n', p') \<and> has h k' n' \<and> par h n' = p' \<and>
    p' \<noteq> NULL \<and> hops_at h p' \<le> hops \<and>
    ((n' = n \<and> k' = k) \<or> (k' = Kid \<and> hops < hops_at h n' \<and> (n', p) \<in> (kid_edges V)\<^sup>*))"
  using topo_wf [OF T] n
proof (induction p arbitrary: n k rule: wf_induct_rule)
  case (less p)
  note R = topo_repr [OF T]
  obtain c where cn: "(c, n) \<in> set (V (k, p))"
    using repr_par [OF R less.prems(1)] less.prems(2,3) by auto
  obtain pr where pr: "routers h p = Some pr" using repr_cell [OF R cn] by blast
  have hp: "hops_at h p = router_hops pr" using pr by (simp add: hops_at_def rdata_def)
  show ?case
  proof (cases "router_hops pr \<le> hops")
    case True
    with pr less.prems hp show ?thesis
      by (intro exI [of _ n] exI [of _ p] exI [of _ k]) (simp add: get_path_pos_loop.simps [of n p])
  next
    case False
    then have "p \<noteq> root" using H hp by (auto simp: hops_mono_def)
    with topo_detached [OF T, of p k] pr cn have q: "par h p \<noteq> NULL" by force
    then have e: "(par h p, p) \<in> kid_edges V" using pr by (simp add: kid_edges_iff [OF R])
    have "leafs h p = None" using node_ok_disj' [OF repr_node_ok [OF R] pr] .
    then have unfold: "get_path_pos_loop n p hops h = get_path_pos_loop p (par h p) hops h"
      using pr False less.prems(3) by (simp add: get_path_pos_loop.simps [of n p] par_router)
    obtain n' p' k' where IH: "get_path_pos_loop p (par h p) hops h = Some (n', p')" "has h k' n'"
        "par h n' = p'" "p' \<noteq> NULL" "hops_at h p' \<le> hops"
        "(n' = p \<and> k' = Kid) \<or> (k' = Kid \<and> hops < hops_at h n' \<and> (n', par h p) \<in> (kid_edges V)\<^sup>*)"
      using less.IH [OF e, of Kid p] pr q by auto
    have "k' = Kid \<and> hops < hops_at h n' \<and> (n', p) \<in> (kid_edges V)\<^sup>*"
      using IH(6) False hp e by (auto intro: rtrancl_into_rtrancl)
    with IH(1-5) unfold show ?thesis
      by (intro exI [of _ n'] exI [of _ p'] exI [of _ Kid]) simp
  qed
qed

text \<open>
  \<open>get_path_pos\<close> returns the cell of the topmost node on the path to the leaf that is farther
  away than \<open>hops\<close> (or of the leaf itself); its parent is at most \<open>hops\<close> away.
\<close>

lemma get_path_pos_ok:
  assumes T: "topo_ok h V root" and H: "hops_mono h V root" and l: "leafs h l \<noteq> None"
  shows "\<exists>c k n p. get_path_pos l hops h = Some c \<and> (c, n) \<in> set (V (k, p)) \<and>
    hops_at h p \<le> unat hops \<and>
    ((k = Leaf \<and> n = l) \<or>
     (k = Kid \<and> unat hops < hops_at h n \<and> (n, par h l) \<in> (kid_edges V)\<^sup>*))"
proof -
  note R = topo_repr [OF T]
  obtain lf where lf: "leafs h l = Some lf" using l by blast
  have l0: "l \<noteq> NULL" using node_ok_NULL [OF repr_node_ok [OF R], of Leaf l] l by simp
  obtain n p k where np: "get_path_pos_loop l (par h l) (unat hops) h = Some (n, p)" "has h k n"
      "par h n = p" "p \<noteq> NULL" "hops_at h p \<le> unat hops"
      "(n = l \<and> k = Leaf) \<or>
       (k = Kid \<and> unat hops < hops_at h n \<and> (n, par h l) \<in> (kid_edges V)\<^sup>*)"
    using get_path_pos_loop_ok [OF T H, of Leaf l "par h l" "unat hops"] l topo_leaf [OF T l] by auto
  obtain c where cn: "(c, n) \<in> set (V (k, p))" using repr_par [OF R np(2)] np(3,4) by auto
  obtain pr where pr: "routers h p = Some pr" using repr_cell [OF R cn] by blast
  have gc: "get_child n (lh_l (list_of k pr)) h = Some c" by (rule get_child_ok [OF R pr cn])
  have "\<exists>nd. get_node n h = Some nd \<and>
      (if node_type nd = ROUTER_NODE then router_child pr else router_leaf pr) = lh_l (list_of k pr)"
  proof (cases k)
    case Kid
    with np(2) obtain nr where nr: "routers h n = Some nr" by auto
    with node_ok_disj' [OF repr_node_ok [OF R] nr] node_ok_rtype [OF repr_node_ok [OF R] nr] Kid
    show ?thesis by (simp add: mem_simps child_list_def)
  next
    case Leaf
    with np(2) obtain nl where nl: "leafs h n = Some nl" by auto
    with node_ok_ltype [OF repr_node_ok [OF R] nl] Leaf
    show ?thesis by (simp add: mem_simps leaf_list_def LEAF_NODE_def ROUTER_NODE_def)
  qed
  then have "get_path_pos l hops h = Some c"
    using lf l0 np(1) pr gc par_leaf [OF lf] by (auto simp: get_path_pos_def)
  with cn np(5,6) show ?thesis by blast
qed


section \<open>The operations keep the invariant\<close>

lemma repr_cong:
  assumes R: "repr h V" and ok: "node_ok h'"
    and same: "rlist h' = rlist h" "cells h' = cells h" "\<And>k v. has h' k v = has h k v" "par h' = par h"
  shows "repr h' V"
  using R ok unfolding repr_def by (simp add: same)

lemma view_in [topo_simps]:
  "x \<in> set (view_add k p y V (k', r)) \<longleftrightarrow> x = y \<and> (k', r) = (k, p) \<or> x \<in> set (V (k', r))"
  "x \<in> set (view_rm k p n V (k', r)) \<longleftrightarrow> x \<in> set (V (k', r)) \<and> ((k', r) = (k, p) \<longrightarrow> snd x \<noteq> n)"
  by (auto simp: view_add_def view_rm_def)

definition attached :: "heap \<Rightarrow> ptr \<Rightarrow> ptr \<Rightarrow> bool" where
  "attached h root r \<longleftrightarrow> routers h r \<noteq> None \<and> (r = root \<or> par h r \<noteq> NULL)"

lemma topo_okI:
  assumes T: "topo_ok h V root" and R: "repr h' V'" and F: "all_free h' V'"
    and E: "acyclic (kid_edges V')"
    and dom: "routers h' root \<noteq> None" "par h' root = NULL"
    and leaf: "\<And>l. leafs h' l \<noteq> None \<Longrightarrow> par h' l \<noteq> NULL"
    and det: "\<And>k r. routers h' r \<noteq> None \<Longrightarrow> par h' r = NULL \<Longrightarrow> r \<noteq> root \<Longrightarrow> V' (k, r) = []"
  shows "topo_ok h' V' root"
  using assms unfolding topo_ok_def by blast

lemma topo_parent_attached:
  assumes T: "topo_ok h V root" and cn: "(c, n) \<in> set (V (k, q))"
  shows "attached h root q"
proof -
  have q: "routers h q \<noteq> None" using repr_cell [OF topo_repr [OF T] cn] by blast
  have "q = root \<or> par h q \<noteq> NULL"
    using topo_detached [OF T q, of k] cn by force
  with q show ?thesis by (simp add: attached_def)
qed

lemma adopt_topo:
  assumes T: "topo_ok h V root" and H: "hops_mono h V root" and cn: "(c, n) \<in> set (V (k, q))"
    and p: "attached h root p" and far: "k = Kid \<Longrightarrow> hops_at h p < hops_at h n"
  shows "\<exists>h' V'. adopt p c h = Some (0, h') \<and> V' = view_add k p (c, n) (view_rm k q n V) \<and>
    topo_ok h' V' root \<and> hops_mono h' V' root \<and> same_data h h' \<and> par h' = (par h)(n := p)"
proof -
  note R = topo_repr [OF T] and N = repr_node_ok [OF topo_repr [OF T]]
  let ?V = "view_add k p (c, n) (view_rm k q n V)"
  have pr: "routers h p \<noteq> None" using p by (simp add: attached_def)
  have p0: "p \<noteq> NULL" using node_ok_NULL [OF N, of Kid p] pr by simp
  obtain h' where h': "adopt p c h = Some (0, h')" "repr h' ?V" "same_data h h'"
      "par h' = (par h)(n := p)" "all_free h' ?V"
    using adopt_ok [OF R cn pr] topo_free [OF T] by blast
  have q: "attached h root q" by (rule topo_parent_attached [OF T cn])
  have n: "has h k n" "par h n = q" using repr_in [OF R cn] by auto
  have q0: "q \<noteq> NULL" using q node_ok_NULL [OF N, of Kid q] by (simp add: attached_def)
  have nr: "n \<noteq> root" using n(2) q0 topo_root(2) [OF T] by auto
  have hops: "hops_at h' x = hops_at h x" for x
    using h'(3) by (simp add: same_data_def hops_at_def)
  have acyc: "acyclic (kid_edges ?V)"
  proof (cases k)
    case Leaf
    then show ?thesis using topo_acyclic [OF T] by (simp add: topo_simps)
  next
    case Kid
    have "(n, p) \<notin> (kid_edges V)\<^sup>*"
      using hops_mono_path [OF H, of n p] far [OF Kid] by auto
    then have "(n, p) \<notin> (kid_edges V - {(q, n)})\<^sup>*"
      using rtrancl_mono [of "kid_edges V - {(q, n)}" "kid_edges V"] by blast
    moreover have "acyclic (kid_edges V - {(q, n)})"
      by (rule acyclic_subset [OF topo_acyclic [OF T]]) auto
    ultimately show ?thesis using Kid by (simp add: topo_simps)
  qed
  have "topo_ok h' ?V root"
  proof (rule topo_okI [OF T h'(2,5) acyc])
    show "routers h' root \<noteq> None" "par h' root = NULL"
      using topo_root [OF T] same_data_dom [OF h'(3)] nr by (simp_all add: h'(4))
    show "par h' l \<noteq> NULL" if "leafs h' l \<noteq> None" for l
      using that topo_leaf [OF T, of l] p0 same_data_dom [OF h'(3)] by (simp add: h'(4))
    show "?V (k', r) = []" if "routers h' r \<noteq> None" "par h' r = NULL" "r \<noteq> root" for k' r
    proof -
      have "r \<noteq> n" using that(2) p0 by (auto simp: h'(4))
      then have r: "routers h r \<noteq> None" "par h r = NULL"
        using that same_data_dom [OF h'(3)] by (auto simp: h'(4))
      then have "r \<noteq> p" using p that(3) by (auto simp: attached_def)
      moreover have "V (k', r) = []" using topo_detached [OF T r that(3)] .
      ultimately show ?thesis by (auto simp: view_add_def view_rm_def)
    qed
  qed
  moreover have "hops_mono h' ?V root"
    using H far unfolding hops_mono_def hops by (cases k) (auto simp: topo_simps)
  ultimately show ?thesis using h' by blast
qed

definition set_hops :: "ptr \<Rightarrow> size_t \<Rightarrow> heap \<Rightarrow> heap" where
  "set_hops r n h = h\<lparr>routers := (routers h)(r := map_option (router_hops_update (\<lambda>_. n)) (routers h r))\<rparr>"

lemma upd_router_hops:
  "routers h r \<noteq> None \<Longrightarrow> upd_router r (router_hops_update (\<lambda>_. n)) h = Some (set_hops r n h)"
  by (auto simp: upd_router_def set_hops_def)

lemma list_of_hops [mem_simps]: "list_of k (router_hops_update f r) = list_of k r"
  by (cases k) (simp_all add: child_list_def leaf_list_def)

lemma obs_set_hops [mem_simps]:
  "cells (set_hops r n h) = cells h" "leafs (set_hops r n h) = leafs h" "brk (set_hops r n h) = brk h"
  "hdrs (set_hops r n h) = hdrs h" "ldata (set_hops r n h) = ldata h"
  "rlist (set_hops r n h) = rlist h" "par (set_hops r n h) = par h"
  "has (set_hops r n h) k v = has h k v" "routers (set_hops r n h) x = None \<longleftrightarrow> routers h x = None"
  by (cases k; auto simp: set_hops_def ldata_def rlist_def par_def get_node_def mem_simps
      option.map_comp o_def fun_eq_iff split: option.splits)+

lemma rdata_set_hops [mem_simps]:
  "rdata (set_hops r n h) = (rdata h)(r := map_option (\<lambda>(sa, _). (sa, n)) (rdata h r))"
  by (auto simp: set_hops_def rdata_def option.map_comp o_def)

lemma hops_at_set_hops [mem_simps]:
  "routers h r \<noteq> None \<Longrightarrow> hops_at (set_hops r n h) x = (if x = r then n else hops_at h x)"
  by (auto simp: hops_at_def mem_simps rdata_def)

lemma node_ok_set_hops: "node_ok h \<Longrightarrow> node_ok (set_hops r n h)"
  unfolding node_ok_def by (auto simp: set_hops_def)

lemma set_hops_topo:
  assumes T: "topo_ok h V root"
  shows "topo_ok (set_hops r n h) V root"
proof (rule topo_okI [OF T])
  show "repr (set_hops r n h) V"
    by (rule repr_cong [OF topo_repr [OF T]])
      (simp_all add: mem_simps node_ok_set_hops repr_node_ok [OF topo_repr [OF T]])
  show "all_free (set_hops r n h) V"
    using topo_free [OF T] by (simp add: all_free_def free_of_def mem_simps)
qed (use topo_acyclic [OF T] topo_root [OF T] topo_leaf [OF T] topo_detached [OF T]
     in \<open>simp_all add: mem_simps\<close>)

lemma rdata_dom: "rdata h' = rdata h \<Longrightarrow> routers h' r = None \<longleftrightarrow> routers h r = None"
  using rdata_None [of h r] rdata_None [of h' r] by simp

lemma ldata_dom: "ldata h' = ldata h \<Longrightarrow> leafs h' l = None \<longleftrightarrow> leafs h l = None"
  using ldata_None [of h l] ldata_None [of h' l] by simp

text \<open>A new router between \<open>q\<close> and \<open>n\<close>, given its distance, keeps the graph acyclic.\<close>

lemma acyclic_insert_between:
  assumes A: "acyclic E" and e: "(q, n) \<in> E" and b: "\<And>x. (b, x) \<notin> E" "\<And>x. (x, b) \<notin> E"
  shows "acyclic (insert (b, n) (insert (q, b) E - {(q, n)}))"
proof -
  have noout: "(b, x) \<in> E\<^sup>* \<Longrightarrow> x = b" for x by (metis b(1) converse_rtranclE)
  have "b \<noteq> q" "b \<noteq> n" using b e by auto
  have A1: "acyclic (insert (q, b) E)"
    using A noout \<open>b \<noteq> q\<close> by auto
  have "(n, b) \<notin> (insert (q, b) E)\<^sup>*"
  proof
    assume "(n, b) \<in> (insert (q, b) E)\<^sup>*"
    then obtain y where y: "(n, y) \<in> (insert (q, b) E)\<^sup>*" "(y, b) \<in> insert (q, b) E"
      using \<open>b \<noteq> n\<close> by (metis rtranclE)
    with b(2) have "y = q" by auto
    with y(1) e have "(q, q) \<in> (insert (q, b) E)\<^sup>+"
      by (meson insertI2 rtrancl_into_trancl2)
    with A1 show False by (auto simp: acyclic_def)
  qed
  then have "(n, b) \<notin> (insert (q, b) E - {(q, n)})\<^sup>*"
    using rtrancl_mono [of "insert (q, b) E - {(q, n)}" "insert (q, b) E"] by blast
  moreover have "acyclic (insert (q, b) E - {(q, n)})" by (rule acyclic_subset [OF A1]) auto
  ultimately show ?thesis by simp
qed

lemma insert_topo:
  assumes T: "topo_ok h V root" and H: "hops_mono h V root" and cn: "(c, n) \<in> set (V (k, q))"
    and hp: "hops_at h q \<le> hp" "k = Kid \<Longrightarrow> hp < hops_at h n"
  shows "\<exists>h'. insert_router sa c h = Some (brk h, h') \<and> routers h' (brk h) \<noteq> None \<and>
    topo_ok (set_hops (brk h) hp h') (view_insert k c n q (Suc (brk h)) (brk h) V) root \<and>
    hops_mono (set_hops (brk h) hp h') (view_insert k c n q (Suc (brk h)) (brk h) V) root \<and>
    rdata (set_hops (brk h) hp h') = (rdata h)(brk h \<mapsto> (sa, hp)) \<and> ldata h' = ldata h \<and>
    hdrs h' = hdrs h \<and> par h' = (par h)(brk h := q, n := brk h)"
proof -
  note R = topo_repr [OF T] and N = repr_node_ok [OF topo_repr [OF T]]
  let ?b = "brk h"
  let ?V = "view_insert k c n q (Suc ?b) ?b V"
  obtain h' where h': "insert_router sa c h = Some (?b, h')" "repr h' ?V"
      "rdata h' = (rdata h)(?b \<mapsto> (sa, 0))" "ldata h' = ldata h" "hdrs h' = hdrs h"
      "par h' = (par h)(?b := q, n := ?b)" "all_free h' ?V"
    using insert_router_ok [OF R cn] topo_free [OF T] by blast
  let ?h = "set_hops ?b hp h'"
  have q: "attached h root q" by (rule topo_parent_attached [OF T cn])
  have n: "has h k n" "par h n = q" using repr_in [OF R cn] by auto
  have q0: "q \<noteq> NULL" using q node_ok_NULL [OF N, of Kid q] by (simp add: attached_def)
  have fresh: "leafs h ?b = None" "routers h ?b = None" "?b \<noteq> NULL"
    using node_ok_fresh [OF N, of ?b] N by (auto simp: node_ok_def)
  have nb: "n \<noteq> ?b" "q \<noteq> ?b" "root \<noteq> ?b" "n \<noteq> root"
    using n q q0 fresh topo_root [OF T] by (cases k; auto simp: attached_def)+
  have lonely: "(?b, x) \<notin> kid_edges V" "(x, ?b) \<notin> kid_edges V" for x
    using fresh kid_edges_router [OF R, of ?b x] by (auto simp: kid_edges_iff [OF R])
  have rb: "routers h' ?b \<noteq> None" using h'(3) rdata_None [of h' ?b] by simp
  have dom: "routers h' x = None \<longleftrightarrow> routers h x = None \<and> x \<noteq> ?b" for x
    using h'(3) rdata_None [of h' x] rdata_None [of h x] by (cases "x = ?b") auto
  have E: "kid_edges ?V = (if k = Kid then insert (?b, n) (insert (q, ?b) (kid_edges V) - {(q, n)})
      else insert (q, ?b) (kid_edges V))"
    by (cases k) (simp_all add: view_insert_def topo_simps)
  have acyc: "acyclic (kid_edges ?V)"
  proof (cases k)
    case Kid
    with cn have "(q, n) \<in> kid_edges V" by (force simp: kid_edges_def)
    from acyclic_insert_between [OF topo_acyclic [OF T] this lonely] Kid show ?thesis
      unfolding E by simp
  next
    case Leaf
    have "(?b, q) \<notin> (kid_edges V)\<^sup>*" using lonely(1) nb(2) by (metis converse_rtranclE)
    with Leaf topo_acyclic [OF T] show ?thesis unfolding E by simp
  qed
  have "topo_ok h' ?V root"
  proof (rule topo_okI [OF T h'(2,7) acyc])
    show "routers h' root \<noteq> None" "par h' root = NULL"
      using topo_root [OF T] nb by (auto simp: dom h'(6))
    show "par h' l \<noteq> NULL" if "leafs h' l \<noteq> None" for l
      using that topo_leaf [OF T, of l] fresh q0 ldata_dom [OF h'(4)] by (simp add: h'(6))
    show "?V (k', r) = []" if "routers h' r \<noteq> None" "par h' r = NULL" "r \<noteq> root" for k' r
    proof -
      have "r \<noteq> n" "r \<noteq> ?b" using that(2) q0 fresh(3) by (auto simp: h'(6) split: if_splits)
      then have r: "routers h r \<noteq> None" "par h r = NULL" using that by (auto simp: dom h'(6))
      then have "r \<noteq> q" using q that(3) by (auto simp: attached_def)
      with topo_detached [OF T r that(3)] \<open>r \<noteq> ?b\<close> show ?thesis
        by (auto simp: view_insert_def view_add_def view_rm_def)
    qed
  qed
  then have "topo_ok ?h ?V root" by (rule set_hops_topo)
  moreover have hops: "hops_at ?h x = (if x = ?b then hp else hops_at h x)" for x
    using rb by (simp add: mem_simps) (simp add: hops_at_def h'(3))
  have "hops_mono ?h ?V root"
    using H hp nb lonely unfolding hops_mono_def E hops by (auto split: if_splits)
  moreover have "rdata ?h = (rdata h)(?b \<mapsto> (sa, hp))" by (simp add: mem_simps h'(3))
  ultimately show ?thesis using h' rb by blast
qed

text \<open>A router outside the tree comes back as a child router of \<open>q\<close>.\<close>

lemma relink_topo:
  assumes T: "topo_ok h V root" and H: "hops_mono h V root"
    and r: "routers h r \<noteq> None" "par h r = NULL" "r \<noteq> root"
    and q: "attached h root q" "hops_at h q \<le> hops_at h r"
    and new: "new_cell \<lparr>child_v = r, child_n = NULL\<rparr> h = (cr, h1)"
  shows "\<exists>h2. add_router q cr h1 = Some (0, h2) \<and> topo_ok h2 (view_add Kid q (cr, r) V) root \<and>
    hops_mono h2 (view_add Kid q (cr, r) V) root \<and> rdata h2 = rdata h \<and> ldata h2 = ldata h \<and>
    hdrs h2 = hdrs h \<and> par h2 = (par h)(r := q)"
proof -
  note R = topo_repr [OF T] and N = repr_node_ok [OF topo_repr [OF T]]
  have h1: "h1 = snd (new_cell \<lparr>child_v = r, child_n = NULL\<rparr> h)" "cr = brk h"
    using new by (auto simp: new_cell_def)
  have R1: "repr h1 V" unfolding h1 by (rule new_cell_repr [OF R])
  have obs: "routers h1 = routers h" "par h1 = par h" "rdata h1 = rdata h" "ldata h1 = ldata h"
      "hdrs h1 = hdrs h" "cells h1 cr = Some \<lparr>child_v = r, child_n = NULL\<rparr>" "free_of h1 = free_of h"
    by (auto simp: h1 new_cell_def mem_simps rdata_def ldata_def free_of_def rlist_def fun_eq_iff)
  have qr: "routers h1 q \<noteq> None" "q \<noteq> r" "q \<noteq> NULL"
    using q(1) r node_ok_NULL [OF N, of Kid q] by (auto simp: attached_def obs)
  obtain h2 where h2: "add_router q cr h1 = Some (0, h2)" "repr h2 (view_add Kid q (cr, r) V)"
      "same_data h1 h2" "par h2 = (par h1)(r := q)"
      "free_of h2 = (free_of h1)((Kid, q) := free_of h1 (Kid, q) + 1)"
    using add_node_ok [OF R1 qr(1) obs(6), of r Kid] r
    by (auto simp: obs add_router_node view_add_def)
  let ?V = "view_add Kid q (cr, r) V"
  have dat: "rdata h2 = rdata h" "ldata h2 = ldata h" "hdrs h2 = hdrs h"
    using h2(3) by (simp_all add: same_data_def obs)
  have noout: "(r, x) \<notin> kid_edges V" for x
    using topo_detached [OF T r, of Kid] by (simp add: kid_edges_def)
  have acyc: "acyclic (kid_edges ?V)"
    using topo_acyclic [OF T] noout qr(2) by (auto simp: topo_simps elim: converse_rtranclE)
  have "topo_ok h2 ?V root"
  proof (rule topo_okI [OF T h2(2) _ acyc])
    show "all_free h2 ?V"
      using topo_free [OF T] by (simp add: all_free_def h2(5) obs view_add_def)
    show "routers h2 root \<noteq> None" "par h2 root = NULL"
      using topo_root [OF T] r(3) rdata_dom [OF dat(1)] by (simp_all add: h2(4) obs)
    show "par h2 l \<noteq> NULL" if "leafs h2 l \<noteq> None" for l
      using that topo_leaf [OF T, of l] qr(3) ldata_dom [OF dat(2)] by (simp add: h2(4) obs)
    show "?V (k', x) = []" if "routers h2 x \<noteq> None" "par h2 x = NULL" "x \<noteq> root" for k' x
    proof -
      have "x \<noteq> r" using that(2) qr(3) by (auto simp: h2(4))
      with that have x: "routers h x \<noteq> None" "par h x = NULL"
        using rdata_dom [OF dat(1)] by (auto simp: h2(4) obs)
      moreover have "x \<noteq> q" using q(1) x that(3) by (auto simp: attached_def)
      ultimately show ?thesis using topo_detached [OF T x that(3)] by (simp add: view_add_def)
    qed
  qed
  moreover have "hops_mono h2 ?V root"
    using H q(2) by (auto simp: hops_mono_def hops_at_def dat topo_simps)
  ultimately show ?thesis using h2 dat obs(2) by auto
qed

end
