(* ===== verification/Rx.thy ===== *)
theory Rx
  imports TopoInv
begin

text \<open>
  The receiver of discovery responses, \<open>rx.c\<close>: \<open>rx_dcvr\<close> checks a response, \<open>update_topo\<close> puts
  the answering router on the path to the receiver the response is about.

  The counter \<open>n\<close> of found routers, an address in the code, is passed and returned by value; so
  is the hash table \<open>t\<close>. A received datagram is the return value of \<open>recvfrom\<close>, the source
  address and the buffer read as a header.
\<close>


section \<open>Operations\<close>

definition update_topo ::
    "'t judy \<Rightarrow> sockaddr_in6 \<Rightarrow> in6_addr \<Rightarrow> uint8 \<Rightarrow> size_t \<Rightarrow> heap \<Rightarrow> 't \<Rightarrow>
     (int \<times> size_t \<times> heap \<times> 't) option" where
  "update_topo J rsa paddr hops n h t = (case jhsg J t paddr of
     None \<Rightarrow> Some (- 1, n, h, t)
   | Some l \<Rightarrow> do {
       nd \<leftarrow> get_node l h;
       if node_type nd \<noteq> LEAF_NODE then Some (- 1, n, h, t)
       else (case jhsi J t (sin6_addr rsa) of
         None \<Rightarrow> Some (- 1, n, h, t)
       | Some t \<Rightarrow> do {
           pv \<leftarrow> jhsg J t (sin6_addr rsa);
           if pv = NULL then do {
             c \<leftarrow> get_path_pos l hops h;
             (r, h) \<leftarrow> insert_router rsa c h;
             h \<leftarrow> upd_router r (router_hops_update (\<lambda>_. unat hops)) h;
             Some (0, n + 1, h, jput J t (sin6_addr rsa) r)
           }
           else do {
             let r = pv;
             nd \<leftarrow> get_node r h;
             if node_type nd \<noteq> ROUTER_NODE then Some (- 1, n, h, t)
             else do {
               h \<leftarrow> upd_router r (router_hops_update (\<lambda>_. unat hops)) h;
               c \<leftarrow> get_path_pos l hops h;
               rr \<leftarrow> routers h r;
               (n, h) \<leftarrow>
                 (if node_parent (router_node rr) = NULL \<and> router_nleaf rr = 0 \<and> router_nchild rr = 0
                  then do {
                    ce \<leftarrow> cells h c;
                    nd \<leftarrow> get_node (child_v ce) h;
                    let (cr, h) = new_cell \<lparr>child_v = r, child_n = NULL\<rparr> h;
                    (_, h) \<leftarrow> add_router (node_parent nd) cr h;
                    Some (n + 1, h)
                  }
                  else Some (n, h));
               (_, h) \<leftarrow> adopt r c h;
               Some (0, n, h, t)
             }
           }
         })
     })"

record dgram =
  dg_ret :: int
  dg_src :: sockaddr_in6
  dg_hdr :: ip6_mdc_hdr

text \<open>
  The return value of \<open>recvfrom\<close> is stored in a \<open>size_t\<close>, where \<open>- 1\<close> becomes the largest value.
\<close>

definition rx_dcvr ::
    "'t judy \<Rightarrow> dgram \<Rightarrow> size_t \<Rightarrow> heap \<Rightarrow> 't \<Rightarrow> (int \<times> size_t \<times> heap \<times> 't) option" where
  "rx_dcvr J d n h t =
     (let nbytes = nat (dg_ret d mod 2 ^ 64); hdr = dg_hdr d
      in if nbytes < 1 then Some (int nbytes, n, h, t)
         else if nbytes \<noteq> get_mdc_hdr_size 1 then Some (- 1, n, h, t)
         else if ip6r_type (mdc_rthdr hdr) \<noteq> IPV6_MEADCAST \<or> ip6r_nxt (mdc_rthdr hdr) \<noteq> IPPROTO_NONE \<or>
           \<not> hdr_dcv hdr \<or> \<not> hdr_rsp hdr \<or> hdr_hops hdr < 1 \<or> hdr_dsts hdr \<noteq> 1
         then Some (- 1, n, h, t)
         else (case mdc_addr hdr of
             [] \<Rightarrow> None
           | a # _ \<Rightarrow> do {
               (_, n, h, t) \<leftarrow> update_topo J (dg_src d) a (ucast (hdr_hops hdr)) n h t;
               Some (0, n, h, t)
             }))"


section \<open>The hash table and the nodes\<close>

text \<open>The table holds every node under its address, and nothing else.\<close>

definition addr_of :: "heap \<Rightarrow> ptr \<Rightarrow> in6_addr option" where
  "addr_of h v = (case ldata h v of
     Some rc \<Rightarrow> Some (sin6_addr (addr_sa (rcvr_addr rc)))
   | None \<Rightarrow> (case rdata h v of Some (sa, _) \<Rightarrow> Some (sin6_addr sa) | None \<Rightarrow> None))"

definition table_ok :: "'t judy \<Rightarrow> 't \<Rightarrow> heap \<Rightarrow> bool" where
  "table_ok J t h \<longleftrightarrow> (\<forall>a v. jhsg J t a = Some v \<longleftrightarrow> addr_of h v = Some a)"

lemma table_node:
  "table_ok J t h \<Longrightarrow> jhsg J t a = Some v \<Longrightarrow> leafs h v \<noteq> None \<or> routers h v \<noteq> None"
  by (auto simp: table_ok_def addr_of_def rdata_def ldata_def split: option.splits)

lemma addr_of_at:
  assumes "rdata h' v = rdata h v" and "ldata h' v = ldata h v"
  shows "addr_of h' v = addr_of h v"
  unfolding addr_of_def assms by (rule refl)

lemma addr_of_cong: "rdata h' = rdata h \<Longrightarrow> ldata h' = ldata h \<Longrightarrow> addr_of h' = addr_of h"
  by (intro ext addr_of_at) simp_all

lemma addr_of_router:
  "ldata h v = None \<Longrightarrow> rdata h v = Some (sa, n) \<Longrightarrow> addr_of h v = Some (sin6_addr sa)"
  by (simp add: addr_of_def)

lemma addr_of_set_hops [mem_simps]: "addr_of (set_hops r n h) = addr_of h"
  by (auto simp: addr_of_def mem_simps fun_eq_iff split: option.splits)

lemma table_ok_cong:
  "table_ok J t h \<Longrightarrow> jhsg J t' = jhsg J t \<Longrightarrow> addr_of h' = addr_of h \<Longrightarrow> table_ok J t' h'"
  by (simp add: table_ok_def)

lemma table_ok_new:
  assumes "table_ok J t h" and "jhsg J t a = None" and "jhsg J t' = (jhsg J t)(a \<mapsto> b)"
    and "addr_of h' = (addr_of h)(b \<mapsto> a)" and "addr_of h b = None"
  shows "table_ok J t' h'"
  unfolding table_ok_def
proof (intro allI)
  fix x v
  have "addr_of h v \<noteq> Some a" using assms(1,2) by (metis option.distinct(1) table_ok_def)
  then show "jhsg J t' x = Some v \<longleftrightarrow> addr_of h' v = Some x"
    using assms by (auto simp: table_ok_def)
qed


section \<open>A response keeps the topology well formed\<close>

lemma hops_mono_set_hops:
  assumes H: "hops_mono h V root" and r: "routers h r \<noteq> None" "r \<noteq> root"
    and same: "hops_at h r = n \<or> (\<forall>x. (r, x) \<notin> kid_edges V \<and> (x, r) \<notin> kid_edges V)"
  shows "hops_mono (set_hops r n h) V root"
  using H same r unfolding hops_mono_def by (auto simp: mem_simps)

text \<open>The router at the place found is an ancestor of the leaf once the node there is below it.\<close>

lemma ancestor_after_move:
  assumes T: "topo_ok h V root" and cn: "(c, n) \<in> set (V (k, p))" and l: "leafs h l \<noteq> None"
    and place: "(k = Leaf \<and> n = l) \<or> (k = Kid \<and> (n, par h l) \<in> (kid_edges V)\<^sup>*)"
    and edges: "k = Kid \<Longrightarrow> insert (r, n) (kid_edges V - {(p, n)}) \<subseteq> E"
  shows "(r, if n = l then r else par h l) \<in> E\<^sup>*"
proof (cases k)
  case Leaf
  with place show ?thesis by simp
next
  case Kid
  have "routers h n \<noteq> None" using repr_in [OF topo_repr [OF T] cn] Kid by simp
  then have "n \<noteq> l" using l node_ok_disj [OF repr_node_ok [OF topo_repr [OF T]], of l] by auto
  have "(n, par h l) \<in> (kid_edges V - {(p, n)})\<^sup>*"
    using place Kid by (intro path_avoids [OF topo_acyclic [OF T]]) auto
  then have "(n, par h l) \<in> E\<^sup>*"
    using edges [OF Kid] rtrancl_mono [of "kid_edges V - {(p, n)}" E] by auto
  moreover have "(r, n) \<in> E" using edges [OF Kid] by simp
  ultimately show ?thesis using \<open>n \<noteq> l\<close> by (auto intro: converse_rtrancl_into_rtrancl)
qed

lemma update_topo_new:
  assumes J: "judy_hs J" and T: "topo_ok h V root" and H: "hops_mono h V root" and D: "table_ok J t h"
    and l: "jhsg J t paddr = Some l" "leafs h l \<noteq> None"
    and new: "jhsg J t (sin6_addr rsa) = None" "jhsi J t (sin6_addr rsa) = Some t1"
  shows "\<exists>h' t' V'. update_topo J rsa paddr hops n h t = Some (0, n + 1, h', t') \<and>
    topo_ok h' V' root \<and> hops_mono h' V' root \<and> table_ok J t' h' \<and> ldata h' = ldata h \<and>
    hdrs h' = hdrs h \<and> jhsg J t' (sin6_addr rsa) = Some (brk h) \<and> attached h' root (brk h) \<and>
    hops_at h' (brk h) = unat hops \<and> (brk h, par h' l) \<in> (kid_edges V')\<^sup>*"
proof -
  note R = topo_repr [OF T] and N = repr_node_ok [OF topo_repr [OF T]]
  let ?a = "sin6_addr rsa"
  obtain lf where lf: "leafs h l = Some lf" using l(2) by blast
  obtain c k m p where pos: "get_path_pos l hops h = Some c" "(c, m) \<in> set (V (k, p))"
      "hops_at h p \<le> unat hops"
      "(k = Leaf \<and> m = l) \<or> (k = Kid \<and> unat hops < hops_at h m \<and> (m, par h l) \<in> (kid_edges V)\<^sup>*)"
    using get_path_pos_ok [OF T H l(2)] by blast
  let ?b = "brk h"
  let ?V = "view_insert k c m p (Suc ?b) ?b V"
  obtain h1 where h1: "insert_router rsa c h = Some (?b, h1)" "routers h1 ?b \<noteq> None"
      "topo_ok (set_hops ?b (unat hops) h1) ?V root" "hops_mono (set_hops ?b (unat hops) h1) ?V root"
      "rdata (set_hops ?b (unat hops) h1) = (rdata h)(?b \<mapsto> (rsa, unat hops))" "ldata h1 = ldata h"
      "hdrs h1 = hdrs h" "par h1 = (par h)(?b := p, m := ?b)"
    using insert_topo [OF T H pos(2,3), of rsa] pos(4) by auto
  let ?h = "set_hops ?b (unat hops) h1" and ?t = "jput J t1 ?a ?b"
  have "jhsg J t1 ?a = Some NULL" using judy_hs.jhsg_jhsi_same [OF J new(2)] new(1) by simp
  then have run: "update_topo J rsa paddr hops n h t = Some (0, n + 1, ?h, ?t)"
    using l(1) lf new(2) pos(1) h1(1,2) node_ok_ltype [OF N lf]
    by (simp add: update_topo_def mem_simps upd_router_hops)
  have t: "jhsg J ?t = (jhsg J t)(?a \<mapsto> ?b)" by (rule judy_hs.jhsg_insert_put [OF J new(2)])
  have fresh: "leafs h ?b = None" "routers h ?b = None" using node_ok_fresh [OF N, of ?b] by auto
  then have "addr_of h ?b = None" by (simp add: addr_of_def rdata_def ldata_def)
  moreover have "addr_of ?h = (addr_of h)(?b \<mapsto> ?a)"
  proof
    fix x
    show "addr_of ?h x = ((addr_of h)(?b \<mapsto> ?a)) x"
    proof (cases "x = ?b")
      case True
      have "ldata ?h ?b = None" using fresh by (simp add: mem_simps h1(6) ldata_None)
      with True h1(5) show ?thesis by (simp add: addr_of_router)
    next
      case False
      have "addr_of ?h x = addr_of h x" using False h1(5,6) by (intro addr_of_at) (simp_all add: mem_simps)
      with False show ?thesis by simp
    qed
  qed
  ultimately have tab: "table_ok J ?t ?h" by (intro table_ok_new [OF D new(1) t])
  have lb: "l \<noteq> ?b" using lf fresh by auto
  have p: "attached h root p" by (rule topo_parent_attached [OF T pos(2)])
  then have pr: "routers h p \<noteq> None" "p \<noteq> NULL" "p \<noteq> ?b"
    using node_ok_NULL [OF N, of Kid p] fresh by (auto simp: attached_def)
  have "m \<noteq> ?b" using repr_in [OF R pos(2)] fresh by (cases k) auto
  then have att: "attached ?h root ?b" using h1(2,8) pr by (simp add: attached_def mem_simps)
  have "insert (?b, m) (kid_edges V - {(p, m)}) \<subseteq> kid_edges ?V" if "k = Kid"
    using that by (auto simp: view_insert_def topo_simps)
  then have "(?b, if m = l then ?b else par h l) \<in> (kid_edges ?V)\<^sup>*"
    using pos(4) by (intro ancestor_after_move [OF T pos(2) l(2)]) auto
  moreover have "par ?h l = (if m = l then ?b else par h l)" using lb h1(8) by (simp add: mem_simps)
  moreover have "hops_at ?h ?b = unat hops" using h1(2) by (simp add: mem_simps)
  ultimately show ?thesis using run h1(3,4,6,7) tab t att by (auto simp: mem_simps)
qed

lemma update_topo_known:
  assumes J: "judy_hs J" and T: "topo_ok h V root" and H: "hops_mono h V root" and D: "table_ok J t h"
    and l: "jhsg J t paddr = Some l" "leafs h l \<noteq> None"
    and r: "jhsg J t (sin6_addr rsa) = Some r" "routers h r \<noteq> None" "r \<noteq> root"
      "par h r \<noteq> NULL \<Longrightarrow> hops_at h r = unat hops"
    and t1: "jhsi J t (sin6_addr rsa) = Some t1"
  shows "\<exists>n' h' V'. update_topo J rsa paddr hops n h t = Some (0, n', h', t1) \<and>
    topo_ok h' V' root \<and> hops_mono h' V' root \<and> table_ok J t1 h' \<and> ldata h' = ldata h \<and>
    hdrs h' = hdrs h \<and> jhsg J t1 (sin6_addr rsa) = Some r \<and> attached h' root r \<and>
    hops_at h' r = unat hops \<and> (r, par h' l) \<in> (kid_edges V')\<^sup>*"
proof -
  note R = topo_repr [OF T] and N = repr_node_ok [OF topo_repr [OF T]]
  obtain lf where lf: "leafs h l = Some lf" using l(2) by blast
  obtain rr where rr: "routers h r = Some rr" using r(2) by blast
  have r0: "r \<noteq> NULL" using node_ok_NULL [OF N, of Kid r] r(2) by simp
  have rl: "leafs h r = None" by (rule node_ok_disj' [OF N rr])
  have "r \<noteq> l" using rl lf by auto
  have jt1: "jhsg J t1 = jhsg J t" by (rule judy_hs.jhsi_present [OF J t1 r(1)])
  let ?h = "set_hops r (unat hops) h"
  have T1: "topo_ok ?h V root" by (rule set_hops_topo [OF T])
  have isolated: "(r, x) \<notin> kid_edges V \<and> (x, r) \<notin> kid_edges V" if "par h r = NULL" for x
  proof
    show "(r, x) \<notin> kid_edges V"
      using topo_detached [OF T r(2) that r(3), of Kid] by (simp add: kid_edges_def)
    show "(x, r) \<notin> kid_edges V" using that by (auto simp: kid_edges_iff [OF R])
  qed
  have H1: "hops_mono ?h V root"
    using r(4) isolated by (intro hops_mono_set_hops [OF H r(2,3)]) auto
  have l1: "leafs ?h l \<noteq> None" using l(2) by (simp add: mem_simps)
  have hr: "hops_at ?h r = unat hops" using r(2) by (simp add: mem_simps)
  obtain c k m p where pos: "get_path_pos l hops ?h = Some c" "(c, m) \<in> set (V (k, p))"
      "hops_at ?h p \<le> unat hops"
      "(k = Leaf \<and> m = l) \<or>
       (k = Kid \<and> unat hops < hops_at ?h m \<and> (m, par ?h l) \<in> (kid_edges V)\<^sup>*)"
    using get_path_pos_ok [OF T1 H1 l1] by blast
  have p: "attached ?h root p" by (rule topo_parent_attached [OF T1 pos(2)])
  have m: "has ?h k m" "par ?h m = p" using repr_in [OF topo_repr [OF T1] pos(2)] by auto
  obtain ce where ce: "cells ?h c = Some ce" "child_v ce = m"
    using repr_cell [OF topo_repr [OF T1] pos(2)] by auto
  obtain nd where nd: "get_node m ?h = Some nd" "node_parent nd = p"
    using m has_is_node [OF m(1)] by (auto simp: par_def get_node_def is_node_def split: option.splits)
  obtain rr' where rr': "routers ?h r = Some rr'" using rr by (simp add: set_hops_def)
  have rl': "list_ok (cells ?h) (list_of k' rr') (V (k', r))" for k'
    by (rule repr_list [OF topo_repr [OF T1] rlist_Some [OF rr']])
  have par': "node_parent (router_node rr') = par h r"
    using par_router [OF _ rr'] rl by (simp add: mem_simps)
  let ?cond = "par h r = NULL \<and> router_nleaf rr' = 0 \<and> router_nchild rr' = 0"
  have cond: "?cond \<longleftrightarrow> par h r = NULL"
    using topo_detached [OF T r(2) _ r(3)] rl' [of Kid] rl' [of Leaf]
    by (auto simp: list_ok_def child_list_def leaf_list_def)
  let ?link = "\<lambda>h. do {
      ce \<leftarrow> cells h c;
      nd \<leftarrow> get_node (child_v ce) h;
      let (cr, h) = new_cell \<lparr>child_v = r, child_n = NULL\<rparr> h;
      (_, h) \<leftarrow> add_router (node_parent nd) cr h;
      Some (n + 1, h)
    }"
  have run: "update_topo J rsa paddr hops n h t = do {
      (n, h) \<leftarrow> (if par h r = NULL then ?link ?h else Some (n, ?h));
      (_, h) \<leftarrow> adopt r c h;
      Some (0, n, h, t1)
    }"
    using l(1) lf t1 r(1) r0 rr rl rr' pos(1) par' cond node_ok_ltype [OF N lf] node_ok_rtype [OF N rr]
    by (cases "par h r = NULL")
      (simp_all add: update_topo_def get_node_leaf get_node_router upd_router_hops jt1
        case_prod_beta Let_def)
  have "\<exists>n2 h2 V2. (if par h r = NULL then ?link ?h else Some (n, ?h)) = Some (n2, h2) \<and>
      topo_ok h2 V2 root \<and> hops_mono h2 V2 root \<and> rdata h2 = rdata ?h \<and> ldata h2 = ldata h \<and>
      hdrs h2 = hdrs h \<and> attached h2 root r \<and> par h2 l = par h l \<and> kid_edges V \<subseteq> kid_edges V2 \<and>
      (c, m) \<in> set (V2 (k, p))"
  proof (cases "par h r = NULL")
    case True
    obtain cr h1 where new: "new_cell \<lparr>child_v = r, child_n = NULL\<rparr> ?h = (cr, h1)" by force
    obtain h2 where h2: "add_router p cr h1 = Some (0, h2)" "topo_ok h2 (view_add Kid p (cr, r) V) root"
        "hops_mono h2 (view_add Kid p (cr, r) V) root" "rdata h2 = rdata ?h" "ldata h2 = ldata ?h"
        "hdrs h2 = hdrs ?h" "par h2 = (par ?h)(r := p)"
      using relink_topo [OF T1 H1 _ _ r(3) p _ new] r(2) True pos(3) hr by (auto simp: mem_simps)
    have "p \<noteq> NULL"
      using p node_ok_NULL [OF repr_node_ok [OF topo_repr [OF T1]], of Kid p] by (simp add: attached_def)
    then have "attached h2 root r"
      using h2(7) r(2) rdata_dom [OF h2(4)] by (simp add: attached_def mem_simps)
    moreover have "?link ?h = Some (n + 1, h2)" using ce nd new h2(1) by (simp add: Let_def)
    ultimately show ?thesis
      using True h2 pos(2) \<open>r \<noteq> l\<close>
      by (intro exI [of _ "n + 1"] exI [of _ h2] exI [of _ "view_add Kid p (cr, r) V"])
        (auto simp: topo_simps mem_simps)
  next
    case False
    then show ?thesis
      using T1 H1 pos(2) r(2)
      by (intro exI [of _ n] exI [of _ ?h] exI [of _ V]) (simp add: attached_def mem_simps)
  qed
  then obtain n2 h2 V2 where s2: "(if par h r = NULL then ?link ?h else Some (n, ?h)) = Some (n2, h2)"
      "topo_ok h2 V2 root" "hops_mono h2 V2 root" "rdata h2 = rdata ?h" "ldata h2 = ldata h"
      "hdrs h2 = hdrs h" "attached h2 root r" "par h2 l = par h l" "kid_edges V \<subseteq> kid_edges V2"
      "(c, m) \<in> set (V2 (k, p))" by blast
  have hops2: "hops_at h2 x = hops_at ?h x" for x by (simp add: hops_at_def s2(4))
  obtain h3 V3 where s3: "adopt r c h2 = Some (0, h3)" "V3 = view_add k r (c, m) (view_rm k p m V2)"
      "topo_ok h3 V3 root" "hops_mono h3 V3 root" "same_data h2 h3" "par h3 = (par h2)(m := r)"
    using adopt_topo [OF s2(2,3,10,7)] pos(4) by (auto simp: hops2 hr)
  have l2: "leafs h2 l \<noteq> None" using l(2) ldata_dom [OF s2(5)] by simp
  have "(r, if m = l then r else par h2 l) \<in> (kid_edges V3)\<^sup>*"
    using pos(4) s2(8) rtrancl_mono [OF s2(9)] s3(2)
    by (intro ancestor_after_move [OF s2(2,10) l2]) (auto simp: mem_simps topo_simps)
  moreover have "par h3 l = (if m = l then r else par h2 l)" by (simp add: s3(6))
  moreover have dat: "rdata h3 = rdata ?h" "ldata h3 = ldata h" "hdrs h3 = hdrs h"
    using s3(5) s2(4,5,6) by (simp_all add: same_data_def)
  moreover have "attached h3 root r"
    using s2(7) r0 same_data_dom [OF s3(5)] s3(6) by (auto simp: attached_def)
  moreover have "hops_at h3 r = unat hops" using hr by (simp add: hops_at_def dat(1))
  moreover have "addr_of h3 = addr_of h"
    using addr_of_cong [of h3 ?h] dat(1,2) by (simp add: mem_simps)
  moreover from this have "table_ok J t1 h3" by (rule table_ok_cong [OF D jt1])
  ultimately show ?thesis using run s2(1) s3 r(1) jt1 by auto
qed


section \<open>Responses\<close>

text \<open>
  A response is consistent with the tree if the answering router is new, outside the tree, or
  known at the distance it answers with, and is not the sender itself.
\<close>

definition rsp_consistent :: "'t judy \<Rightarrow> 't \<Rightarrow> heap \<Rightarrow> ptr \<Rightarrow> in6_addr \<Rightarrow> nat \<Rightarrow> bool" where
  "rsp_consistent J t h root a hops \<longleftrightarrow> (case jhsg J t a of
     None \<Rightarrow> True
   | Some r \<Rightarrow> routers h r \<noteq> None \<and> r \<noteq> root \<and> (par h r \<noteq> NULL \<longrightarrow> hops_at h r = hops))"

text \<open>
  The state after a response of the router \<open>r\<close> about the receiver \<open>l\<close>: the tree is well formed,
  the router is in it at its distance and on the path from the sender to the receiver.
\<close>

definition learnt ::
    "'t judy \<Rightarrow> heap \<Rightarrow> heap \<Rightarrow> 't \<Rightarrow> view \<Rightarrow> ptr \<Rightarrow> in6_addr \<Rightarrow> nat \<Rightarrow> ptr \<Rightarrow> ptr \<Rightarrow> bool" where
  "learnt J h h' t' V' root a hops r l \<longleftrightarrow>
     topo_ok h' V' root \<and> hops_mono h' V' root \<and> table_ok J t' h' \<and> ldata h' = ldata h \<and>
     jhsg J t' a = Some r \<and> attached h' root r \<and> hops_at h' r = hops \<and>
     (r, par h' l) \<in> (kid_edges V')\<^sup>*"

lemma update_topo_learns:
  assumes J: "judy_hs J" and T: "topo_ok h V root" and H: "hops_mono h V root" and D: "table_ok J t h"
    and l: "jhsg J t paddr = Some l" "leafs h l \<noteq> None"
    and mem: "jhsi J t (sin6_addr rsa) = Some t1"
    and C: "rsp_consistent J t h root (sin6_addr rsa) (unat hops)"
  shows "\<exists>n' h' t' V' r. update_topo J rsa paddr hops n h t = Some (0, n', h', t') \<and>
    learnt J h h' t' V' root (sin6_addr rsa) (unat hops) r l"
proof (cases "jhsg J t (sin6_addr rsa)")
  case None
  then show ?thesis
    using update_topo_new [OF J T H D l None mem, of hops n] unfolding learnt_def by blast
next
  case (Some r)
  then have "routers h r \<noteq> None" "r \<noteq> root" "par h r \<noteq> NULL \<Longrightarrow> hops_at h r = unat hops"
    using C by (auto simp: rsp_consistent_def)
  from update_topo_known [OF J T H D l Some this mem, of n] show ?thesis
    unfolding learnt_def by blast
qed

text \<open>
  Everything else is refused: an unknown peer, a peer that is a router, a full table, and a
  responder whose address is a receiver's. Then neither tree nor table changes.
\<close>

lemma update_topo_refuses:
  assumes J: "judy_hs J" and N: "node_ok h" and D: "table_ok J t h"
    and bad: "jhsg J t paddr = None \<or> (\<exists>v. jhsg J t paddr = Some v \<and> leafs h v = None) \<or>
      jhsi J t (sin6_addr rsa) = None \<or>
      (\<exists>v. jhsg J t (sin6_addr rsa) = Some v \<and> leafs h v \<noteq> None)"
  shows "\<exists>t'. update_topo J rsa paddr hops n h t = Some (- 1, n, h, t') \<and> jhsg J t' = jhsg J t"
proof (cases "\<exists>v lf. jhsg J t paddr = Some v \<and> leafs h v = Some lf")
  case False
  show ?thesis
  proof (cases "jhsg J t paddr")
    case None
    then show ?thesis by (simp add: update_topo_def)
  next
    case (Some v)
    with False have "leafs h v = None" by auto
    with table_node [OF D Some] obtain rr where "routers h v = Some rr" by auto
    with Some \<open>leafs h v = None\<close> node_ok_rtype [OF N] show ?thesis
      by (simp add: update_topo_def get_node_router LEAF_NODE_def ROUTER_NODE_def)
  qed
next
  case True
  then obtain l lf where l: "jhsg J t paddr = Some l" "leafs h l = Some lf" by blast
  show ?thesis
  proof (cases "jhsi J t (sin6_addr rsa)")
    case None
    with l node_ok_ltype [OF N l(2)] show ?thesis by (simp add: update_topo_def get_node_leaf)
  next
    case (Some t1)
    with bad l obtain v vf where v: "jhsg J t (sin6_addr rsa) = Some v" "leafs h v = Some vf" by auto
    have t1: "jhsg J t1 = jhsg J t" by (rule judy_hs.jhsi_present [OF J Some v(1)])
    have "v \<noteq> NULL" using node_ok_leaf_NULL [OF N] v(2) by (auto intro!: gr0I)
    with l node_ok_ltype [OF N] v Some t1 show ?thesis
      by (simp add: update_topo_def get_node_leaf LEAF_NODE_def ROUTER_NODE_def)
  qed
qed

text \<open>The checks of \<open>rx_dcvr\<close>.\<close>

definition rsp_wellformed :: "dgram \<Rightarrow> bool" where
  "rsp_wellformed d \<longleftrightarrow> dg_ret d = int (get_mdc_hdr_size 1) \<and>
     ip6r_type (mdc_rthdr (dg_hdr d)) = IPV6_MEADCAST \<and> ip6r_nxt (mdc_rthdr (dg_hdr d)) = IPPROTO_NONE \<and>
     hdr_dcv (dg_hdr d) \<and> hdr_rsp (dg_hdr d) \<and> hdr_hops (dg_hdr d) \<noteq> 0 \<and> hdr_dsts (dg_hdr d) = 1"

lemma rx_dcvr_malformed:
  assumes r: "- 1 \<le> dg_ret d" "dg_ret d < 2 ^ 63" and m: "\<not> rsp_wellformed d"
  shows "rx_dcvr J d n h t = Some (if dg_ret d = 0 then 0 else - 1, n, h, t)"
proof -
  let ?k = "nat (dg_ret d mod 2 ^ 64)"
  have k0: "?k < 1 \<longleftrightarrow> dg_ret d = 0"
    using r by (cases "dg_ret d = - 1") auto
  show ?thesis
  proof (cases "?k = get_mdc_hdr_size 1")
    case True
    then have "dg_ret d = 32" using r by (cases "dg_ret d = - 1") (auto simp: get_mdc_hdr_size_eq)
    with m True show ?thesis
      by (auto simp: rx_dcvr_def Let_def rsp_wellformed_def get_mdc_hdr_size_eq)
  next
    case False
    then show ?thesis using k0 by (auto simp: rx_dcvr_def Let_def)
  qed
qed

lemma rx_dcvr_wellformed:
  assumes w: "rsp_wellformed d" and a: "mdc_addr (dg_hdr d) = a # as"
    and u: "update_topo J (dg_src d) a (ucast (hdr_hops (dg_hdr d))) n h t = Some (e, n', h', t')"
  shows "rx_dcvr J d n h t = Some (0, n', h', t')"
  using assms by (auto simp: rx_dcvr_def Let_def rsp_wellformed_def get_mdc_hdr_size_eq)

end
