(* ===== verification/Group.thy ===== *)
theory Group
  imports Rx
begin

text \<open>
  The group of receivers, \<open>group.c\<close>: creating the group (\<open>init_group\<close>), adding a receiver
  (\<open>join\<close>), the list of receivers, and the first transmission group (\<open>init_txg\<close>), which serves
  every receiver by unicast. The static variables of the file are the record \<open>group\<close>; the
  transmission group behind the atomic pointer \<open>txg\<close> is kept as a value.
\<close>


section \<open>State and operations\<close>

record 't group =
  g_ht :: 't
  g_root :: ptr
  g_rcvr :: ptr
  g_nrcvr :: size_t
  g_txg :: "tx_group option"

definition group_start :: "'t judy \<Rightarrow> 't group" where
  "group_start J =
     \<lparr>g_ht = jnil J, g_root = NULL, g_rcvr = NULL, g_nrcvr = 0, g_txg = None\<rparr>"

text \<open>\<open>_join\<close>: whether the key is new, and the table with the key in it.\<close>

definition join_key :: "'t judy \<Rightarrow> sockaddr_in6 \<Rightarrow> 't \<Rightarrow> (bool \<times> 't) option" where
  "join_key J sa t = (case jhsi J t (sin6_addr sa) of
     None \<Rightarrow> Some (False, t)
   | Some t \<Rightarrow> do {
       v \<leftarrow> jhsg J t (sin6_addr sa);
       Some (v = NULL, t)
     })"

definition init_group ::
    "'t judy \<Rightarrow> in6_addr \<Rightarrow> uint16 \<Rightarrow> 't group \<Rightarrow> heap \<Rightarrow> (int \<times> 't group \<times> heap) option" where
  "init_group J a port g h =
     (if g_root g \<noteq> NULL \<or> g_ht g \<noteq> jnil J then Some (- 1, g, h)
      else do {
        let sa = \<lparr>sin6_family = AF_INET6, sin6_port = port, sin6_addr = a\<rparr>;
        (new, t) \<leftarrow> join_key J sa (g_ht g);
        if \<not> new then Some (- 1, g\<lparr>g_ht := t\<rparr>, h)
        else do {
          (r, h) \<leftarrow> create_router sa NULL h;
          Some (0, g\<lparr>g_root := r, g_ht := jput J t a r\<rparr>, h)
        }
      })"

definition join ::
    "'t judy \<Rightarrow> in6_addr \<Rightarrow> uint16 \<Rightarrow> 't group \<Rightarrow> heap \<Rightarrow> (int \<times> 't group \<times> heap) option" where
  "join J a port g h =
     (if g_root g = NULL \<or> g_ht g = jnil J then Some (- 1, g, h)
      else do {
        let sa = \<lparr>sin6_family = AF_INET6, sin6_port = 0, sin6_addr = a\<rparr>;
        (new, t) \<leftarrow> join_key J sa (g_ht g);
        if \<not> new then Some (- 1, g\<lparr>g_ht := t\<rparr>, h)
        else do {
          (l, h) \<leftarrow> create_leaf sa port (g_root g) h;
          (head, n, h) \<leftarrow> insert_head (g_rcvr g) l (g_nrcvr g) h;
          Some (0, g\<lparr>g_rcvr := head, g_nrcvr := n, g_ht := jput J t a l\<rparr>, h)
        }
      })"

definition get_txg :: "'t group \<Rightarrow> tx_group option" where
  "get_txg g = g_txg g"

definition set_txg :: "tx_group \<Rightarrow> 't group \<Rightarrow> 't group" where
  "set_txg v g = g\<lparr>g_txg := Some v\<rparr>"

text \<open>
  The loop of \<open>init_txg\<close> that fills the array \<open>uni\<close> of \<open>nuni\<close> entries: \<open>i\<close> is the index of the
  next entry, \<open>acc\<close> the entries written. A write behind the end of the array is undefined.
\<close>

partial_function (option) init_txg_loop ::
    "size_t \<Rightarrow> size_t \<Rightarrow> addr list \<Rightarrow> ptr \<Rightarrow> heap \<Rightarrow> addr list option" where
  "init_txg_loop nuni i acc r h =
     (if r = NULL then Some acc
      else do {
        l \<leftarrow> leafs h r;
        guard (i < nuni);
        init_txg_loop nuni (i + 1) (acc @ [rcvr_addr (leaf_val l)]) (rcvr_next (leaf_val l)) h
      })"

declare init_txg_loop.simps [code]

definition init_txg :: "'t group \<Rightarrow> heap \<Rightarrow> (int \<times> 't group) option" where
  "init_txg g h =
     (if g_rcvr g = NULL then Some (- 1, g)
      else do {
        uni \<leftarrow> init_txg_loop (g_nrcvr g) 0 [] (g_rcvr g) h;
        Some (0, set_txg \<lparr>txg_mdc = NULL, txg_nuni = g_nrcvr g, txg_uni = uni\<rparr> g)
      })"


section \<open>The list of receivers\<close>

fun rchain :: "(ptr \<Rightarrow> leaf option) \<Rightarrow> ptr \<Rightarrow> ptr list \<Rightarrow> bool" where
  "rchain m p [] \<longleftrightarrow> p = NULL"
| "rchain m p (l # ls) \<longleftrightarrow> p = l \<and> l \<noteq> NULL \<and>
     (case m l of None \<Rightarrow> False | Some lf \<Rightarrow> rchain m (rcvr_next (leaf_val lf)) ls)"

lemma rchain_cong:
  "rchain m p ls \<Longrightarrow> (\<And>l. l \<in> set ls \<Longrightarrow> map_option leaf_val (m' l) = map_option leaf_val (m l)) \<Longrightarrow>
   rchain m' p ls"
proof (induction ls arbitrary: p)
  case (Cons l ls)
  from Cons.prems(1) obtain lf where lf: "p = l" "l \<noteq> NULL" "m l = Some lf"
      "rchain m (rcvr_next (leaf_val lf)) ls" by (auto split: option.splits)
  from Cons.prems(2) [of l] lf(3) obtain lf' where "m' l = Some lf'" "leaf_val lf' = leaf_val lf"
    by auto
  with lf Cons.IH [OF lf(4)] Cons.prems(2) show ?case by simp
qed simp

lemma rchain_ldata: "ldata h' = ldata h \<Longrightarrow> rchain (leafs h) p ls \<Longrightarrow> rchain (leafs h') p ls"
  by (erule rchain_cong) (metis ldata_def)

lemma rchain_NULL [simp]: "rchain m 0 ls \<longleftrightarrow> ls = []"
  by (cases ls) auto

lemma get_len_loop_ok:
  "rchain (leafs h) p ls \<Longrightarrow> get_len_loop n p h = Some (n + length ls)"
proof (induction ls arbitrary: n p)
  case Nil
  then show ?case by (simp add: get_len_loop.simps [of n])
next
  case (Cons l ls)
  then show ?case by (subst get_len_loop.simps) (auto split: option.splits)
qed

lemma init_txg_loop_ok:
  "rchain (leafs h) p ls \<Longrightarrow> i + length ls \<le> nuni \<Longrightarrow>
   init_txg_loop nuni i acc p h = Some (acc @ rcvr_addrs h ls)"
proof (induction ls arbitrary: p i acc)
  case Nil
  then show ?case by (simp add: init_txg_loop.simps [of nuni i] rcvr_addrs_def)
next
  case (Cons l ls)
  then show ?case
    by (subst init_txg_loop.simps) (auto simp: rcvr_addrs_def ldata_def split: option.splits)
qed


section \<open>The group invariant\<close>

text \<open>
  The topology is well formed with the group's root, the table holds exactly its nodes, and the
  receiver list holds every leaf once.
\<close>

definition group_ok :: "'t judy \<Rightarrow> 't group \<Rightarrow> heap \<Rightarrow> view \<Rightarrow> bool" where
  "group_ok J g h V \<longleftrightarrow> topo_ok h V (g_root g) \<and> hops_mono h V (g_root g) \<and> table_ok J (g_ht g) h \<and>
     (\<exists>ls. rchain (leafs h) (g_rcvr g) ls \<and> distinct ls \<and> length ls = g_nrcvr g \<and>
       (\<forall>l. l \<in> set ls \<longleftrightarrow> leafs h l \<noteq> None))"

lemma repr_empty: "repr empty_heap (\<lambda>_. [])"
proof -
  have "has empty_heap k v \<longleftrightarrow> False" for k v by (cases k) (simp_all add: empty_heap_def)
  then show ?thesis
    by (simp add: repr_def node_ok_def empty_heap_def rlist_def)
qed

text \<open>The first object of all is the root.\<close>

lemma create_root:
  "\<exists>h. create_router sa NULL empty_heap = Some (1, h) \<and> topo_ok h (\<lambda>_. []) 1 \<and>
    rdata h = [1 \<mapsto> (sa, 0)] \<and> ldata h = Map.empty"
proof -
  define h where "h = snd (new_router (router_init sa NULL) empty_heap)"
  have R: "repr h (\<lambda>_. [])" unfolding h_def by (rule new_router_repr [OF repr_empty])
  have h: "routers h = Map.empty(1 \<mapsto> router_init sa NULL)" "leafs h = Map.empty"
    by (simp_all add: h_def new_router_def empty_heap_def)
  have obs: "par h x = NULL" "free_of h (k, x) = 0" for x k
    by (cases k; auto simp: par_def get_node_def h router_init_def free_of_def rlist_def
        child_list_def leaf_list_def)+
  have "create_router sa NULL empty_heap = Some (1, h)"
    by (simp add: create_router_def new_router_def h_def empty_heap_def)
  moreover have "topo_ok h (\<lambda>_. []) 1"
    using R obs h by (simp add: topo_ok_def kid_edges_def all_free_def acyclic_def)
  moreover have "rdata h = [1 \<mapsto> (sa, 0)]" "ldata h = Map.empty"
    by (auto simp: rdata_def ldata_def h router_init_def fun_eq_iff)
  ultimately show ?thesis by blast
qed

lemma init_group_ok:
  assumes J: "judy_hs J" and mem: "jhsi J (jnil J) a = Some t1"
  shows "\<exists>g h. init_group J a port (group_start J) empty_heap = Some (0, g, h) \<and>
    group_ok J g h (\<lambda>_. []) \<and> ldata h = Map.empty \<and> g_nrcvr g = 0 \<and> g_rcvr g = NULL \<and>
    jhsg J (g_ht g) = [a \<mapsto> g_root g]"
proof -
  let ?sa = "\<lparr>sin6_family = AF_INET6, sin6_port = port, sin6_addr = a\<rparr>"
  obtain h where h: "create_router ?sa NULL empty_heap = Some (1, h)" "topo_ok h (\<lambda>_. []) 1"
      "rdata h = [1 \<mapsto> (?sa, 0)]" "ldata h = Map.empty" using create_root by blast
  define t where "t = jput J t1 a 1"
  define g where "g = (group_start J)\<lparr>g_root := 1, g_ht := t\<rparr>"
  have t: "jhsg J t = Map.empty(a \<mapsto> 1)"
    unfolding t_def
    using judy_hs.jhsg_insert_put [OF J mem, of 1] judy_hs.jhsg_jnil [OF J] by (simp add: fun_eq_iff)
  have "jhsg J t1 a = Some NULL"
    using judy_hs.jhsg_jhsi_same [OF J mem] judy_hs.jhsg_jnil [OF J, of a] by simp
  then have run: "init_group J a port (group_start J) empty_heap = Some (0, g, h)"
    using mem h(1) by (simp add: init_group_def join_key_def group_start_def g_def t_def)
  have "hops_mono h (\<lambda>_. []) 1" by (simp add: hops_mono_def kid_edges_def hops_at_def h(3))
  moreover have "table_ok J t h" by (auto simp: table_ok_def t addr_of_def h(3,4))
  moreover have "leafs h l = None" for l using h(4) ldata_None [of h l] by simp
  ultimately have "group_ok J g h (\<lambda>_. [])"
    using h(2) by (simp add: group_ok_def g_def group_start_def)
  moreover have "g_nrcvr g = 0" "g_rcvr g = NULL" "jhsg J (g_ht g) = [a \<mapsto> g_root g]"
    using t by (simp_all add: g_def group_start_def)
  ultimately show ?thesis using run h(4) by blast
qed

text \<open>Linking a receiver into the receiver list changes no list of the tree.\<close>

definition set_next :: "ptr \<Rightarrow> ptr \<Rightarrow> heap \<Rightarrow> heap" where
  "set_next l q h = h\<lparr>leafs := (leafs h)(l := map_option (leaf_val_update (rcvr_next_update (\<lambda>_. q))) (leafs h l))\<rparr>"

lemma upd_leaf_next:
  "leafs h l \<noteq> None \<Longrightarrow> upd_leaf l (leaf_val_update (rcvr_next_update (\<lambda>_. q))) h = Some (set_next l q h)"
  by (auto simp: upd_leaf_def set_next_def)

lemma obs_set_next [mem_simps]:
  "cells (set_next l q h) = cells h" "routers (set_next l q h) = routers h"
  "rdata (set_next l q h) = rdata h" "rlist (set_next l q h) = rlist h"
  "par (set_next l q h) = par h" "has (set_next l q h) k v = has h k v"
  "leafs (set_next l q h) x = None \<longleftrightarrow> leafs h x = None"
  by (cases k; auto simp: set_next_def rdata_def rlist_def par_def get_node_def fun_eq_iff
      split: option.splits)+

lemma ldata_set_next [mem_simps]:
  "ldata (set_next l q h) = (ldata h)(l := map_option (rcvr_next_update (\<lambda>_. q)) (ldata h l))"
  by (auto simp: set_next_def ldata_def option.map_comp o_def)

lemma addr_of_set_next [mem_simps]: "addr_of (set_next l q h) = addr_of h"
  by (auto simp: addr_of_def mem_simps fun_eq_iff split: option.splits)

lemma node_ok_set_next: "node_ok h \<Longrightarrow> node_ok (set_next l q h)"
  unfolding node_ok_def by (auto simp: set_next_def)

lemma set_next_topo:
  assumes T: "topo_ok h V root"
  shows "topo_ok (set_next l q h) V root"
proof (rule topo_okI [OF T])
  show "repr (set_next l q h) V"
    by (rule repr_cong [OF topo_repr [OF T]])
      (simp_all add: mem_simps node_ok_set_next repr_node_ok [OF topo_repr [OF T]])
  show "all_free (set_next l q h) V"
    using topo_free [OF T] by (simp add: all_free_def free_of_def mem_simps)
qed (use topo_acyclic [OF T] topo_root [OF T] topo_leaf [OF T] topo_detached [OF T]
     in \<open>simp_all add: mem_simps\<close>)

lemma create_leaf_attached:
  assumes T: "topo_ok h V root" and p: "attached h root p"
  shows "\<exists>h'. create_leaf sa port p h = Some (brk h, h') \<and>
    topo_ok h' (V((Leaf, p) := (Suc (brk h), brk h) # V (Leaf, p))) root \<and> rdata h' = rdata h \<and>
    ldata h' = (ldata h)(brk h \<mapsto> leaf_val (leaf_init sa port p)) \<and> par h' = (par h)(brk h := p)"
proof -
  note R = topo_repr [OF T] and N = repr_node_ok [OF topo_repr [OF T]]
  let ?V = "V((Leaf, p) := (Suc (brk h), brk h) # V (Leaf, p))"
  have fresh: "routers h (brk h) = None" "leafs h (brk h) = None"
    using node_ok_fresh [OF N, of "brk h"] by auto
  have pr: "routers h p \<noteq> None" using p by (simp add: attached_def)
  have p0: "p \<noteq> NULL" "root \<noteq> brk h"
    using node_ok_NULL [OF N, of Kid p] pr topo_root(1) [OF T] fresh by auto
  obtain h' where h': "create_leaf sa port p h = Some (brk h, h')" "repr h' ?V"
      "rdata h' = rdata h" "ldata h' = (ldata h)(brk h \<mapsto> leaf_val (leaf_init sa port p))"
      "par h' = (par h)(brk h := p)"
      "free_of h' = (free_of h)((Leaf, p) := free_of h (Leaf, p) + 1)"
    using create_leaf_ok [OF R pr, of sa port] by blast
  have E: "kid_edges ?V = kid_edges V" by (auto simp: kid_edges_def)
  have dom: "routers h' x = None \<longleftrightarrow> routers h x = None" for x by (rule rdata_dom [OF h'(3)])
  have ldom: "leafs h' x = None \<longleftrightarrow> leafs h x = None \<and> x \<noteq> brk h" for x
    using h'(4) ldata_None [of h' x] ldata_None [of h x] by (cases "x = brk h") auto
  have "topo_ok h' ?V root"
  proof (rule topo_okI [OF T h'(2)])
    show "all_free h' ?V" using topo_free [OF T] by (simp add: all_free_def h'(6))
    show "acyclic (kid_edges ?V)" unfolding E by (rule topo_acyclic [OF T])
    show "routers h' root \<noteq> None" "par h' root = NULL"
      using topo_root [OF T] p0 by (simp_all add: dom h'(5))
    show "par h' l \<noteq> NULL" if "leafs h' l \<noteq> None" for l
      using that topo_leaf [OF T, of l] p0 by (auto simp: ldom h'(5))
    show "?V (k, r) = []" if "routers h' r \<noteq> None" "par h' r = NULL" "r \<noteq> root" for k r
      using that topo_detached [OF T, of r k] p p0 fresh by (auto simp: dom h'(5) attached_def split: if_splits)
  qed
  with h' show ?thesis by blast
qed

lemma create_leaf_topo:
  assumes T: "topo_ok h V root" and H: "hops_mono h V root"
  shows "\<exists>h' V'. create_leaf sa port root h = Some (brk h, h') \<and> topo_ok h' V' root \<and>
    hops_mono h' V' root \<and> rdata h' = rdata h \<and>
    ldata h' = (ldata h)(brk h \<mapsto> leaf_val (leaf_init sa port root))"
proof -
  let ?V = "V((Leaf, root) := (Suc (brk h), brk h) # V (Leaf, root))"
  have "attached h root root" using topo_root(1) [OF T] by (simp add: attached_def)
  from create_leaf_attached [OF T this, of sa port] obtain h' where
    h': "create_leaf sa port root h = Some (brk h, h')" "topo_ok h' ?V root" "rdata h' = rdata h"
      "ldata h' = (ldata h)(brk h \<mapsto> leaf_val (leaf_init sa port root))" by blast
  have "kid_edges ?V = kid_edges V" by (auto simp: kid_edges_def)
  then have "hops_mono h' ?V root" using H unfolding hops_mono_def by (simp add: hops_at_def h'(3))
  with h' show ?thesis by blast
qed

lemma create_router_attached:
  assumes T: "topo_ok h V root" and p: "attached h root p"
  shows "\<exists>h'. create_router sa p h = Some (brk h, h') \<and>
    topo_ok h' (V((Kid, p) := (Suc (brk h), brk h) # V (Kid, p))) root \<and>
    rdata h' = (rdata h)(brk h \<mapsto> (sa, 0)) \<and> ldata h' = ldata h \<and> par h' = (par h)(brk h := p)"
proof -
  note R = topo_repr [OF T] and N = repr_node_ok [OF topo_repr [OF T]]
  let ?r = "brk h" and ?V = "V((Kid, p) := (Suc (brk h), brk h) # V (Kid, p))"
  have fresh: "routers h ?r = None" "leafs h ?r = None" using node_ok_fresh [OF N, of ?r] by auto
  have pr: "routers h p \<noteq> None" using p by (simp add: attached_def)
  have p0: "p \<noteq> NULL" "p \<noteq> ?r" "root \<noteq> ?r"
    using node_ok_NULL [OF N, of Kid p] pr topo_root(1) [OF T] fresh by auto
  obtain h' where h': "create_router sa p h = Some (?r, h')" "repr h' ?V"
      "rdata h' = (rdata h)(?r \<mapsto> (sa, 0))" "ldata h' = ldata h" "par h' = (par h)(?r := p)"
      "free_of h' = (free_of h)((Kid, p) := free_of h (Kid, p) + 1)"
    using create_router_ok [OF R pr, of sa] by blast
  have E: "kid_edges ?V = insert (p, ?r) (kid_edges V)"
    unfolding kid_edges_def by (auto split: if_splits intro: rev_image_eqI)
  have dom: "routers h' x = None \<longleftrightarrow> routers h x = None \<and> x \<noteq> ?r" for x
    using h'(3) rdata_None [of h' x] rdata_None [of h x] by (cases "x = ?r") auto
  have "V (Kid, ?r) = []" using repr_None [OF R, of "(Kid, ?r)"] fresh by simp
  then have "(?r, x) \<notin> kid_edges V" for x by (simp add: kid_edges_def)
  then have "(?r, p) \<notin> (kid_edges V)\<^sup>*" using p0 by (auto elim: converse_rtranclE)
  then have "acyclic (kid_edges ?V)" unfolding E using topo_acyclic [OF T] by simp
  then have "topo_ok h' ?V root"
  proof (rule topo_okI [OF T h'(2), rotated])
    show "all_free h' ?V" using topo_free [OF T] by (simp add: all_free_def h'(6))
    show "routers h' root \<noteq> None" "par h' root = NULL"
      using topo_root [OF T] p0 by (simp_all add: dom h'(5))
    show "par h' l \<noteq> NULL" if "leafs h' l \<noteq> None" for l
      using that topo_leaf [OF T, of l] p0 ldata_dom [OF h'(4)] by (auto simp: h'(5))
    show "?V (k, r) = []" if r: "routers h' r \<noteq> None" "par h' r = NULL" "r \<noteq> root" for k r
    proof -
      have "r \<noteq> ?r" using r p0 by (auto simp: h'(5))
      then have q: "routers h r \<noteq> None" "par h r = NULL" using r by (simp_all add: dom h'(5))
      then have "r \<noteq> p" using p r(3) by (auto simp: attached_def)
      then show ?thesis using topo_detached [OF T q r(3)] by simp
    qed
  qed
  with h' show ?thesis by blast
qed

text \<open>The receiver that \<open>join\<close> puts in front of the list that starts at \<open>q\<close>.\<close>

definition new_rcvr :: "in6_addr \<Rightarrow> uint16 \<Rightarrow> ptr \<Rightarrow> rcvr" where
  "new_rcvr a port q =
     \<lparr>rcvr_addr = \<lparr>addr_sa = \<lparr>sin6_family = AF_INET6, sin6_port = 0, sin6_addr = a\<rparr>, addr_port = port\<rparr>,
      rcvr_hops = SIZE_MAX, rcvr_next = q\<rparr>"

lemma join_new:
  assumes J: "judy_hs J" and G: "group_ok J g h V"
    and new: "jhsg J (g_ht g) a = None" and mem: "jhsi J (g_ht g) a = Some t1"
  shows "\<exists>g' h' V'. join J a port g h = Some (0, g', h') \<and> group_ok J g' h' V' \<and>
    g_root g' = g_root g \<and> g_nrcvr g' = g_nrcvr g + 1 \<and> addr_of h' (g_rcvr g') = Some a \<and>
    jhsg J (g_ht g') = (jhsg J (g_ht g))(a \<mapsto> g_rcvr g') \<and> leafs h (g_rcvr g') = None \<and>
    ldata h' = (ldata h)(g_rcvr g' \<mapsto> new_rcvr a port (g_rcvr g))"
proof -
  let ?sa = "\<lparr>sin6_family = AF_INET6, sin6_port = 0, sin6_addr = a\<rparr>"
  let ?root = "g_root g" and ?l = "brk h"
  obtain ls where T: "topo_ok h V ?root" and H: "hops_mono h V ?root" and D: "table_ok J (g_ht g) h"
    and ls: "rchain (leafs h) (g_rcvr g) ls" "distinct ls" "length ls = g_nrcvr g"
      "\<And>l. l \<in> set ls \<longleftrightarrow> leafs h l \<noteq> None"
    using G by (auto simp: group_ok_def)
  note N = repr_node_ok [OF topo_repr [OF T]]
  have fresh: "routers h ?l = None" "leafs h ?l = None" "?l \<noteq> NULL"
    using node_ok_fresh [OF N, of ?l] N by (auto simp: node_ok_def)
  have root0: "?root \<noteq> NULL" using node_ok_NULL [OF N, of Kid ?root] topo_root(1) [OF T] by simp
  have "addr_of h ?root \<noteq> None"
    using topo_root(1) [OF T] by (auto simp: addr_of_def rdata_def split: option.splits)
  then obtain ra where "jhsg J (g_ht g) ra = Some ?root" using D by (auto simp: table_ok_def)
  then have ht: "g_ht g \<noteq> jnil J" by (rule judy_hs.jhsg_not_nil [OF J])
  obtain h1 V1 where h1: "create_leaf ?sa port ?root h = Some (?l, h1)" "topo_ok h1 V1 ?root"
      "hops_mono h1 V1 ?root" "rdata h1 = rdata h"
      "ldata h1 = (ldata h)(?l \<mapsto> leaf_val (leaf_init ?sa port ?root))"
    using create_leaf_topo [OF T H] by blast
  let ?h = "set_next ?l (g_rcvr g) h1" and ?t = "jput J t1 a ?l"
  let ?g = "g\<lparr>g_rcvr := ?l, g_nrcvr := g_nrcvr g + 1, g_ht := ?t\<rparr>"
  have l1: "leafs h1 ?l \<noteq> None" using h1(5) ldata_None [of h1 ?l] by simp
  have "jhsg J t1 a = Some NULL" using judy_hs.jhsg_jhsi_same [OF J mem] new by simp
  then have run: "join J a port g h = Some (0, ?g, ?h)"
    using root0 ht mem h1(1) upd_leaf_next [OF l1]
    by (cases "g_rcvr g = 0") (simp_all add: join_def join_key_def insert_head_def)
  have t: "jhsg J ?t = (jhsg J (g_ht g))(a \<mapsto> ?l)" by (rule judy_hs.jhsg_insert_put [OF J mem])
  have addr: "addr_of ?h = (addr_of h)(?l \<mapsto> a)"
  proof
    fix x
    show "addr_of ?h x = ((addr_of h)(?l \<mapsto> a)) x"
    proof (cases "x = ?l")
      case True
      with h1(5) show ?thesis by (simp add: mem_simps) (simp add: addr_of_def leaf_init_def)
    next
      case False
      have "addr_of h1 x = addr_of h x" using False h1(4,5) by (intro addr_of_at) simp_all
      with False show ?thesis by (simp add: mem_simps)
    qed
  qed
  have "addr_of h ?l = None" using fresh by (simp add: addr_of_def rdata_def ldata_def)
  then have tab: "table_ok J ?t ?h" by (intro table_ok_new [OF D new t addr])
  have ldom: "leafs ?h x = None \<longleftrightarrow> leafs h x = None \<and> x \<noteq> ?l" for x
    using h1(5) ldata_None [of h1 x] ldata_None [of h x] by (cases "x = ?l") (auto simp: mem_simps)
  have "?l \<notin> set ls" using ls(4) fresh by simp
  then have old: "rchain (leafs ?h) (g_rcvr g) ls"
  proof (intro rchain_cong [OF ls(1)])
    fix l
    assume "?l \<notin> set ls" "l \<in> set ls"
    then have "ldata ?h l = ldata h l" using h1(5) by (auto simp: mem_simps)
    then show "map_option leaf_val (leafs ?h l) = map_option leaf_val (leafs h l)"
      by (simp add: ldata_def)
  qed
  obtain lf where lf: "leafs ?h ?l = Some lf" using ldom [of ?l] by auto
  moreover have "ldata ?h ?l = Some (rcvr_next_update (\<lambda>_. g_rcvr g) (leaf_val (leaf_init ?sa port ?root)))"
    using h1(5) by (simp add: mem_simps)
  ultimately have "rcvr_next (leaf_val lf) = g_rcvr g" by (simp add: ldata_def)
  with old lf fresh(3) have "rchain (leafs ?h) ?l (?l # ls)" by simp
  moreover have "hops_mono ?h V1 ?root"
    using h1(3) by (simp add: hops_mono_def hops_at_def mem_simps)
  ultimately have "group_ok J ?g ?h V1"
    using set_next_topo [OF h1(2)] tab ls \<open>?l \<notin> set ls\<close> ldom
    unfolding group_ok_def by (intro conjI exI [of _ "?l # ls"]) auto
  moreover have "ldata ?h = (ldata h)(?l \<mapsto> new_rcvr a port (g_rcvr g))"
    using h1(5) by (simp add: mem_simps fun_eq_iff leaf_init_def new_rcvr_def)
  ultimately show ?thesis using run addr t fresh(2) by auto
qed

text \<open>A known address is refused; neither the tree nor the list changes.\<close>

lemma join_known:
  assumes J: "judy_hs J" and G: "group_ok J g h V" and known: "jhsg J (g_ht g) a = Some v"
  shows "\<exists>t'. join J a port g h = Some (- 1, g\<lparr>g_ht := t'\<rparr>, h) \<and> jhsg J t' = jhsg J (g_ht g)"
proof -
  have T: "topo_ok h V (g_root g)" and D: "table_ok J (g_ht g) h" using G by (auto simp: group_ok_def)
  note N = repr_node_ok [OF topo_repr [OF T]]
  have "g_root g \<noteq> NULL" using node_ok_NULL [OF N, of Kid] topo_root(1) [OF T] by simp
  moreover have "g_ht g \<noteq> jnil J" by (rule judy_hs.jhsg_not_nil [OF J known])
  moreover have "v \<noteq> NULL"
    using table_node [OF D known] node_ok_NULL [OF N, of Leaf v] node_ok_NULL [OF N, of Kid v] by auto
  ultimately show ?thesis
    using known judy_hs.jhsi_present [OF J _ known]
    by (cases "jhsi J (g_ht g) a")
      (simp_all add: join_def join_key_def, metis group.surjective group.update_convs(1), blast)
qed

lemma join_no_memory:
  assumes J: "judy_hs J" and G: "group_ok J g h V" and mem: "jhsi J (g_ht g) a = None"
  shows "join J a port g h = Some (- 1, g, h)"
  using mem by (simp add: join_def join_key_def)


section \<open>The receiver list of a group\<close>

lemma group_okE:
  assumes "group_ok J g h V"
  obtains ls where "rchain (leafs h) (g_rcvr g) ls" "distinct ls" "length ls = g_nrcvr g"
    "\<And>l. l \<in> set ls \<longleftrightarrow> leafs h l \<noteq> None"
  using assms by (auto simp: group_ok_def)

theorem get_len_group:
  assumes "group_ok J g h V"
  shows "get_len (g_rcvr g) h = Some (g_nrcvr g) \<and> g_nrcvr g = card (dom (leafs h))"
proof -
  obtain ls where ls: "rchain (leafs h) (g_rcvr g) ls" "distinct ls" "length ls = g_nrcvr g"
    "\<And>l. l \<in> set ls \<longleftrightarrow> leafs h l \<noteq> None" using group_okE [OF assms] by metis
  have "dom (leafs h) = set ls" using ls(4) by auto
  then show ?thesis
    using get_len_loop_ok [OF ls(1), of 0] distinct_card [OF ls(2)] ls(3) by (simp add: get_len_def)
qed

theorem init_txg_group:
  assumes G: "group_ok J g h V" and n: "g_rcvr g \<noteq> NULL"
  shows "\<exists>v ls. init_txg g h = Some (0, g\<lparr>g_txg := Some v\<rparr>) \<and> txg_mdc v = NULL \<and>
    txg_nuni v = g_nrcvr g \<and> txg_uni v = rcvr_addrs h ls \<and> distinct ls \<and>
    set ls = dom (leafs h)"
proof -
  obtain ls where ls: "rchain (leafs h) (g_rcvr g) ls" "distinct ls" "length ls = g_nrcvr g"
    "\<And>l. l \<in> set ls \<longleftrightarrow> leafs h l \<noteq> None" using group_okE [OF G] by metis
  have "set ls = dom (leafs h)" using ls(4) by auto
  then show ?thesis
    using init_txg_loop_ok [OF ls(1), of 0 "g_nrcvr g" "[]"] ls(2,3) n
    by (intro exI [of _ "\<lparr>txg_mdc = NULL, txg_nuni = g_nrcvr g, txg_uni = rcvr_addrs h ls\<rparr>"]
        exI [of _ ls]) (simp add: init_txg_def set_txg_def)
qed

end
