(* ===== verification/Tx.thy ===== *)
theory Tx
  imports Checksum Group
begin

text \<open>
  The sender's side of \<open>tx.c\<close>: the discovery requests (\<open>send_dcvr\<close>), the buffer of the packets
  read from the tun interface (\<open>init_tx\<close>), and the delivery of such a packet to a transmission
  group, by unicast (\<open>tx_uni\<close>) and under its MEADcast headers (\<open>tx_mdc\<close>).

  Network input and output are explicit. The results of the calls of \<open>sendto\<close> are a function from
  the number of the call to its return value, the packets handed to it are returned as a list, and
  the packets that \<open>read\<close> delivers are a list.

  The bytes behind the IPv6 header, up to the end of \<open>txbuf\<close>, are a list; the header itself is a
  record. The static variables \<open>dst\<close> and \<open>udp\<close> of the functions are written before they are read.
\<close>


section \<open>Packets\<close>

definition ETH_P_IPV6 :: uint16 where "ETH_P_IPV6 = 0x86DD"

record ipv6hdr =
  ip_vtcfl :: uint32
    \<comment> \<open>version, priority and flow label\<close>
  ip_payload_len :: uint16
  ip_nexthdr :: uint8
  ip_hop_limit :: uint8
  ip_saddr :: in6_addr
  ip_daddr :: in6_addr

record uni_packet =
  up_dst :: in6_addr
  up_ip :: ipv6hdr
  up_payload :: "uint8 list"

record mdc_packet =
  mp_dst :: in6_addr
  mp_hdr :: ip6_mdc_hdr
  mp_payload :: "uint8 list"

record dcvr_packet =
  dp_dst :: sockaddr_in6
  dp_hdr :: ip6_mdc_hdr
  dp_len :: uint8

definition sizeof_tun_pi :: size_t where "sizeof_tun_pi = 4"
definition sizeof_ipv6hdr :: size_t where "sizeof_ipv6hdr = 40"

text \<open>The 16 bytes of an address, in network byte order.\<close>

definition in6_bytes :: "in6_addr \<Rightarrow> uint8 list" where
  "in6_bytes a = map (\<lambda>i. ucast (drop_bit (8 * (15 - i)) a)) [0..<16]"


section \<open>Discovery requests\<close>

text \<open>
  The loop over the receivers; \<open>hdr\<close> is the header in \<open>txbuf\<close>, \<open>k\<close> counts the calls of \<open>sendto\<close>.
\<close>

partial_function (option) send_dcvr_loop ::
    "(nat \<Rightarrow> int) \<Rightarrow> uint8 \<Rightarrow> nat \<Rightarrow> ip6_mdc_hdr \<Rightarrow> dcvr_packet list \<Rightarrow> ptr \<Rightarrow> heap \<Rightarrow>
     (int \<times> dcvr_packet list) option" where
  "send_dcvr_loop res len k hdr out i h =
     (if i = NULL then Some (0, out)
      else do {
        lf \<leftarrow> leafs h i;
        let dst = addr_sa (rcvr_addr (leaf_val lf));
        guard (mdc_addr hdr \<noteq> []);
        let hdr = hdr\<lparr>mdc_addr := (mdc_addr hdr)[0 := sin6_addr dst]\<rparr>;
        let out = out @ [\<lparr>dp_dst = dst, dp_hdr = hdr, dp_len = len\<rparr>];
        if res k < 1 then Some (res k, out)
        else send_dcvr_loop res len (k + 1) hdr out (rcvr_next (leaf_val lf)) h
      })"

declare send_dcvr_loop.simps [code]

text \<open>\<open>txbuf\<close> is the buffer read as a header.\<close>

definition send_dcvr ::
    "(nat \<Rightarrow> int) \<Rightarrow> ip6_mdc_hdr \<Rightarrow> 't group \<Rightarrow> heap \<Rightarrow> (int \<times> dcvr_packet list) option" where
  "send_dcvr res txbuf g h =
     (let (hdr, len) = set_dcvr_hdr txbuf
      in send_dcvr_loop res len 0 hdr [] (g_rcvr g) h)"


section \<open>The buffer\<close>

text \<open>
  \<open>txbuf\<close> has \<open>txlen\<close> bytes. Packets are read behind the first \<open>tx_off\<close> of them, and at most
  \<open>buflen\<close> bytes of each.
\<close>

record tx_buffer =
  txlen :: size_t
  tx_off :: size_t
  buflen :: size_t

definition init_tx :: "size_t \<Rightarrow> size_t \<Rightarrow> tx_buffer" where
  "init_tx max_addrs mtu =
     (let hlen = get_mdc_hdr_size max_addrs
      in \<lparr>txlen = mtu, tx_off = hlen, buflen = size_sub mtu hlen\<rparr>)"

text \<open>The bytes in front of the payload \<open>l3pl\<close>: the headers written there overwrite the IPv6 header.\<close>

definition tx_room :: "tx_buffer \<Rightarrow> size_t" where
  "tx_room b = tx_off b + sizeof_tun_pi + sizeof_ipv6hdr"


section \<open>Delivery\<close>

text \<open>
  The UDP header is the first 8 bytes of the payload: source port, destination port, length and
  checksum.
\<close>

definition udp_fix_check :: "in6_addr \<Rightarrow> in6_addr \<Rightarrow> uint8 list \<Rightarrow> uint8 list option" where
  "udp_fix_check src dst pl = do {
     guard (8 \<le> length pl);
     let pl = store16 6 0 pl;
     c \<leftarrow> net_checksum_tcpudp (load16 4 pl) 0 (ucast IPPROTO_UDP) (in6_bytes src) (in6_bytes dst) pl;
     Some (store16 6 c pl)
   }"

text \<open>The correction of the payload for the receiver \<open>a\<close>; only UDP is corrected.\<close>

definition uni_correct :: "addr \<Rightarrow> ipv6hdr \<Rightarrow> uint8 list \<Rightarrow> uint8 list option" where
  "uni_correct a ip pl =
     (if ip_nexthdr ip = IPPROTO_UDP then do {
        guard (8 \<le> length pl);
        let pl = store16 2 (addr_port a) pl;
        udp_fix_check (ip_saddr ip) (ip_daddr ip) pl
      }
      else Some pl)"

function tx_uni_loop ::
    "(nat \<Rightarrow> int) \<Rightarrow> size_t \<Rightarrow> size_t \<Rightarrow> addr list \<Rightarrow> ipv6hdr \<Rightarrow> uint8 list \<Rightarrow> size_t \<Rightarrow>
     uni_packet list \<Rightarrow> (int \<times> uni_packet list \<times> uint8 list) option" where
  "tx_uni_loop res nuni i uni ip pl len out =
     (if i < nuni then do {
        guard (i < length uni);
        let a = uni ! i;
        let dst = sin6_addr (addr_sa a);
        let ip = ip\<lparr>ip_daddr := dst\<rparr>;
        pl \<leftarrow> uni_correct a ip pl;
        guard (sizeof_ipv6hdr \<le> len \<and> len - sizeof_ipv6hdr \<le> length pl);
        let out = out @ [\<lparr>up_dst = dst, up_ip = ip, up_payload = take (len - sizeof_ipv6hdr) pl\<rparr>];
        if res i < 1 then Some (res i, out, pl)
        else tx_uni_loop res nuni (i + 1) uni ip pl len out
      }
      else Some (0, out, pl))"
  by pat_completeness auto

termination by (relation "measure (\<lambda>(_, nuni, i, _). nuni - i)") auto

declare tx_uni_loop.simps [simp del]

definition tx_uni ::
    "(nat \<Rightarrow> int) \<Rightarrow> int \<Rightarrow> tx_group option \<Rightarrow> ipv6hdr \<Rightarrow> uint8 list \<Rightarrow> size_t \<Rightarrow>
     (int \<times> uni_packet list \<times> uint8 list) option" where
  "tx_uni res fd grp ip pl len =
     (if fd < 1 then Some (- 1, [], pl)
      else case grp of
        None \<Rightarrow> Some (- 1, [], pl)
      | Some g \<Rightarrow> tx_uni_loop res (txg_nuni g) 0 (txg_uni g) ip pl len [])"

text \<open>
  The loop over the headers of the group; \<open>room\<close> is the space in front of the payload, \<open>bia\<close> the
  sender's address. A header with fewer than two entries is skipped.
\<close>

partial_function (option) tx_mdc_loop ::
    "(nat \<Rightarrow> int) \<Rightarrow> size_t \<Rightarrow> in6_addr \<Rightarrow> nat \<Rightarrow> ptr \<Rightarrow> uint8 list \<Rightarrow> size_t \<Rightarrow> heap \<Rightarrow>
     mdc_packet list \<Rightarrow> (int \<times> mdc_packet list \<times> uint8 list) option" where
  "tx_mdc_loop res room bia k i pl plen h out =
     (if i = NULL then Some (0, out, pl)
      else do {
        ce \<leftarrow> cells h i;
        hdr \<leftarrow> hdrs h (child_v ce);
        if hdr_dsts hdr < 2 then tx_mdc_loop res room bia k (child_n ce) pl plen h out
        else do {
          guard (1 < length (mdc_addr hdr));
          let dst = mdc_addr hdr ! 1;
          let n = unat (hdr_dsts hdr);
          let hlen = get_mdc_hdr_size n;
          guard (hlen \<le> room \<and> n \<le> length (mdc_addr hdr));
          let mdc = hdr\<lparr>mdc_addr := take n (mdc_addr hdr)\<rparr>;
          pl \<leftarrow> udp_fix_check bia dst pl;
          guard (plen \<le> length pl);
          let out = out @ [\<lparr>mp_dst = dst, mp_hdr = mdc, mp_payload = take plen pl\<rparr>];
          if res k < 1 then Some (res k, out, pl)
          else tx_mdc_loop res room bia (k + 1) (child_n ce) pl plen h out
        }
      })"

declare tx_mdc_loop.simps [code]

definition tx_mdc ::
    "(nat \<Rightarrow> int) \<Rightarrow> size_t \<Rightarrow> in6_addr \<Rightarrow> int \<Rightarrow> tx_group option \<Rightarrow> uint8 list \<Rightarrow> size_t \<Rightarrow> heap \<Rightarrow>
     (int \<times> mdc_packet list \<times> uint8 list) option" where
  "tx_mdc res room bia fd grp pl plen h =
     (if fd < 1 then Some (- 1, [], pl)
      else case grp of
        None \<Rightarrow> Some (- 1, [], pl)
      | Some g \<Rightarrow> tx_mdc_loop res room bia 0 (txg_mdc g) pl plen h [])"

text \<open>
  \<open>tx\<close> delivers \<open>n\<close> bytes read from the tun interface: a \<open>struct tun_pi\<close>, the IPv6 header and the
  payload. The results of the two functions are ignored.
\<close>

definition tx ::
    "(nat \<Rightarrow> int) \<Rightarrow> (nat \<Rightarrow> int) \<Rightarrow> tx_buffer \<Rightarrow> in6_addr \<Rightarrow> int \<Rightarrow> int \<Rightarrow> 't group \<Rightarrow> heap \<Rightarrow>
     size_t \<Rightarrow> ipv6hdr \<Rightarrow> uint8 list \<Rightarrow> (uni_packet list \<times> mdc_packet list) option" where
  "tx ures mres b bia ip6_fd mdc_fd g h n ip pl = do {
     let grp = get_txg g;
     let iplen = size_sub n sizeof_tun_pi;
     (_, us, pl) \<leftarrow> tx_uni ures ip6_fd grp ip pl iplen;
     (_, ms, pl) \<leftarrow> tx_mdc mres (tx_room b) bia mdc_fd grp pl (size_sub iplen sizeof_ipv6hdr) h;
     Some (us, ms)
   }"

end
