(* ===== verification/Args.thy ===== *)
theory Args
  imports Prelude
begin

text \<open>
  The program's arguments: \<open>struct arguments\<close> and \<open>struct paddr\<close> of \<open>argp.h\<close>, without the mutex and
  the condition variable of the threads. A string is a list of characters, a null pointer to one is
  \<open>None\<close>; the list of peers is a pointer into a memory of its own.
\<close>


section \<open>Times\<close>

record timespec =
  tv_sec :: int
  tv_nsec :: int

record itimerspec =
  it_interval :: timespec
  it_value :: timespec

definition timespec_ok :: "timespec \<Rightarrow> bool" where
  "timespec_ok t \<longleftrightarrow> 0 \<le> tv_sec t \<and> 0 \<le> tv_nsec t \<and> tv_nsec t < 1000000000"


section \<open>Arguments\<close>

record paddr =
  pa_v :: in6_addr
  pa_n :: ptr

record arguments =
  tifname :: "string option"
  bifname :: "string option"
  taddr :: in6_addr
  baddr :: in6_addr
  bport :: uint16
  pport :: uint16
  peers :: ptr
    \<comment> \<open>the member \<open>paddr\<close>\<close>
  dcvr_int :: itimerspec
  dcvr_tout :: itimerspec
  dcvr_wait :: bool
  max_addrs :: size_t
  ok_addrs :: size_t
  min_leafs :: size_t
  min_routers :: size_t
  split_nodes :: bool
  merge_range :: size_t
  print_tree :: bool
  print_txg :: bool

end
