(* ===== verification/TxLoop.thy ===== *)
theory TxLoop
  imports Tx Args
begin

text \<open>
  The sending thread, the rest of \<open>tx.c\<close>: \<open>tx_loop\<close> with \<open>wait_init_input\<close> and \<open>_tx_loop\<close>, and how
  its first packet starts the discovery thread, which waits in \<open>start_dx\<close> of \<open>discover.c\<close>.

  What a call of \<open>read\<close> leaves in the buffer is a parameter, as is what the thread sees of the
  group and of the memory, which the discovery thread changes between two packets. A list of such
  readings stands for the calls up to some moment: at its end the thread still reads.
\<close>


section \<open>Reading\<close>

text \<open>The buffer after \<open>read\<close>: the protocol of the \<open>struct tun_pi\<close>, the IPv6 header and what follows.\<close>

record tun_read =
  tr_ret :: int
  tr_proto :: uint16
  tr_ip :: ipv6hdr
  tr_pl :: "uint8 list"

record 't tx_env =
  te_group :: "'t group"
  te_heap :: heap
  te_ures :: "nat \<Rightarrow> int"
  te_mres :: "nat \<Rightarrow> int"

record tx_targs =
  ta_tun :: int
  ta_mdc :: int
  ta_ip6 :: int

type_synonym sent = "uni_packet list \<times> mdc_packet list"

definition read_ok :: "tun_read \<Rightarrow> bool" where
  "read_ok r \<longleftrightarrow> 1 \<le> tr_ret r"

definition is_ipv6 :: "tun_read \<Rightarrow> bool" where
  "is_ipv6 r \<longleftrightarrow> tr_proto r = ETH_P_IPV6"

definition tx_read ::
    "tx_buffer \<Rightarrow> in6_addr \<Rightarrow> tx_targs \<Rightarrow> tun_read \<times> 't tx_env \<Rightarrow> sent option" where
  "tx_read b bia ta = (\<lambda>(r, e). tx (te_ures e) (te_mres e) b bia (ta_ip6 ta) (ta_mdc ta) (te_group e) (te_heap e)
     (nat (tr_ret r)) (tr_ip r) (tr_pl r))"


section \<open>The loops\<close>

text \<open>\<open>_tx_loop\<close>: what is sent for each packet, and whether the loop was left.\<close>

fun tx_loop_forever ::
    "tx_buffer \<Rightarrow> in6_addr \<Rightarrow> tx_targs \<Rightarrow> (tun_read \<times> 't tx_env) list \<Rightarrow> (sent list \<times> bool) option" where
  "tx_loop_forever b bia ta [] = Some ([], False)"
| "tx_loop_forever b bia ta (x # xs) =
     (if \<not> read_ok (fst x) then Some ([], True)
      else if \<not> is_ipv6 (fst x) then tx_loop_forever b bia ta xs
      else do {
        p \<leftarrow> tx_read b bia ta x;
        (ps, q) \<leftarrow> tx_loop_forever b bia ta xs;
        Some (p # ps, q)
      })"

text \<open>
  The tests of \<open>wait_init_input\<close> on what it has read: give up, read again, or go on to signal and send.
\<close>

datatype verdict = Give_up | Again | Go

definition wait_read :: "arguments \<Rightarrow> tun_read \<Rightarrow> verdict" where
  "wait_read A r =
     (if \<not> read_ok r then Give_up
      else if \<not> is_ipv6 r then Again
      else if ip_daddr (tr_ip r) \<noteq> taddr A then Again
      else Go)"

text \<open>
  \<open>wait_init_input\<close>: what is sent, whether the condition is signalled, and the readings left when
  it returns, \<open>None\<close> while it still waits.
\<close>

fun wait_init_input ::
    "arguments \<Rightarrow> tx_buffer \<Rightarrow> in6_addr \<Rightarrow> tx_targs \<Rightarrow> (tun_read \<times> 't tx_env) list \<Rightarrow>
     (sent list \<times> bool \<times> (tun_read \<times> 't tx_env) list option) option" where
  "wait_init_input A b bia ta [] = Some ([], False, None)"
| "wait_init_input A b bia ta (x # xs) = (case wait_read A (fst x) of
     Give_up \<Rightarrow> Some ([], False, Some xs)
   | Again \<Rightarrow> wait_init_input A b bia ta xs
   | Go \<Rightarrow> do {
       p \<leftarrow> tx_read b bia ta x;
       Some ([p], True, Some xs)
     })"

text \<open>\<open>tx_loop\<close>: what is sent, whether discovery was signalled, whether the thread has ended.\<close>

definition tx_loop ::
    "arguments \<Rightarrow> tx_buffer \<Rightarrow> in6_addr \<Rightarrow> tx_targs \<Rightarrow> (tun_read \<times> 't tx_env) list \<Rightarrow>
     (sent list \<times> bool \<times> bool) option" where
  "tx_loop A b bia ta xs =
     (if ta_tun ta < 1 \<or> ta_ip6 ta < 1 then Some ([], False, True)
      else do {
        (ps, sg, xs) \<leftarrow> (if dcvr_wait A then wait_init_input A b bia ta xs else Some ([], False, Some xs));
        case xs of
          None \<Rightarrow> Some (ps, sg, False)
        | Some xs \<Rightarrow> do {
            (qs, q) \<leftarrow> tx_loop_forever b bia ta xs;
            Some (ps @ qs, sg, q)
          }
      })"


section \<open>What is sent\<close>

text \<open>The packets of the loop: those before the first failure.\<close>

definition ipv6_reads :: "(tun_read \<times> 't tx_env) list \<Rightarrow> (tun_read \<times> 't tx_env) list" where
  "ipv6_reads xs = filter (\<lambda>x. is_ipv6 (fst x)) (takeWhile (\<lambda>x. read_ok (fst x)) xs)"

lemma ipv6_reads_simps [simp]:
  "ipv6_reads [] = []"
  "ipv6_reads (x # xs) = (if read_ok (fst x) then (if is_ipv6 (fst x) then x # ipv6_reads xs else ipv6_reads xs) else [])"
proof -
  show "ipv6_reads [] = []" by (simp add: ipv6_reads_def)
  show "ipv6_reads (x # xs) = (if read_ok (fst x) then (if is_ipv6 (fst x) then x # ipv6_reads xs else ipv6_reads xs) else [])"
    by (cases "read_ok (fst x)"; cases "is_ipv6 (fst x)")
      (simp_all only: ipv6_reads_def takeWhile.simps filter.simps if_True if_False)
qed

lemma tx_loop_forever_ok:
  "(\<And>x. x \<in> set (ipv6_reads xs) \<Longrightarrow> tx_read b bia ta x \<noteq> None) \<Longrightarrow>
   tx_loop_forever b bia ta xs =
    Some (map (\<lambda>x. the (tx_read b bia ta x)) (ipv6_reads xs), \<not> (\<forall>x \<in> set xs. read_ok (fst x)))"
proof (induction xs)
  case (Cons x xs)
  have IH: "tx_loop_forever b bia ta xs = Some (map (\<lambda>x. the (tx_read b bia ta x)) (ipv6_reads xs),
      \<not> (\<forall>x \<in> set xs. read_ok (fst x)))" if "read_ok (fst x)"
    by (rule Cons.IH, rule Cons.prems) (simp add: that)
  show ?case
  proof (cases "read_ok (fst x) \<and> is_ipv6 (fst x)")
    case True
    then obtain p where "tx_read b bia ta x = Some p" using Cons.prems [of x] by auto
    then show ?thesis using True IH by simp
  qed (use IH in auto)
qed simp

text \<open>The first packet to the interface's own address, before any failure.\<close>

definition first_input :: "arguments \<Rightarrow> tun_read \<Rightarrow> bool" where
  "first_input A r \<longleftrightarrow> read_ok r \<and> is_ipv6 r \<and> ip_daddr (tr_ip r) = taddr A"

lemma wait_read_iff:
  "wait_read A r = Give_up \<longleftrightarrow> \<not> read_ok r"
  "wait_read A r = Again \<longleftrightarrow> read_ok r \<and> \<not> first_input A r"
  "wait_read A r = Go \<longleftrightarrow> first_input A r"
  by (auto simp: wait_read_def first_input_def)

lemma wait_init_input_skip:
  "(\<And>x. x \<in> set ys \<Longrightarrow> read_ok (fst x) \<and> \<not> first_input A (fst x)) \<Longrightarrow>
   wait_init_input A b bia ta (ys @ xs) = wait_init_input A b bia ta xs"
  by (induction ys) (simp_all add: wait_read_iff(2) [THEN iffD2])

lemma wait_init_input_first:
  "(\<And>x. x \<in> set ys \<Longrightarrow> read_ok (fst x) \<and> \<not> first_input A (fst x)) \<Longrightarrow> first_input A (fst y) \<Longrightarrow>
   tx_read b bia ta y = Some p \<Longrightarrow>
   wait_init_input A b bia ta (ys @ y # zs) = Some ([p], True, Some zs)"
  by (simp add: wait_init_input_skip wait_read_iff(3) [THEN iffD2])

lemma wait_init_input_fails:
  "(\<And>x. x \<in> set ys \<Longrightarrow> read_ok (fst x) \<and> \<not> first_input A (fst x)) \<Longrightarrow> \<not> read_ok (fst y) \<Longrightarrow>
   wait_init_input A b bia ta (ys @ y # zs) = Some ([], False, Some zs)"
  by (simp add: wait_init_input_skip wait_read_iff(1) [THEN iffD2])

lemma tx_loop_waiting:
  assumes "dcvr_wait A" "1 \<le> ta_tun ta" "1 \<le> ta_ip6 ta"
    and "\<And>x. x \<in> set ys \<Longrightarrow> read_ok (fst x) \<and> \<not> first_input A (fst x)"
  shows "tx_loop A b bia ta ys = Some ([], False, False)"
    and "first_input A (fst y) \<Longrightarrow> (\<And>x. x \<in> set (ipv6_reads (y # zs)) \<Longrightarrow> tx_read b bia ta x \<noteq> None) \<Longrightarrow>
      tx_loop A b bia ta (ys @ y # zs) = Some (map (\<lambda>x. the (tx_read b bia ta x)) (ipv6_reads (y # zs)), True,
        \<not> (\<forall>x \<in> set zs. read_ok (fst x)))"
proof -
  show "tx_loop A b bia ta ys = Some ([], False, False)"
    using assms(1-3) wait_init_input_skip [of ys A b bia ta "[]"] assms(4) by (simp add: tx_loop_def)
  assume y: "first_input A (fst y)" and t: "\<And>x. x \<in> set (ipv6_reads (y # zs)) \<Longrightarrow> tx_read b bia ta x \<noteq> None"
  have r: "read_ok (fst y)" "is_ipv6 (fst y)" using y by (simp_all add: first_input_def)
  obtain p where p: "tx_read b bia ta y = Some p" using t [of y] r by auto
  have "tx_loop_forever b bia ta zs = Some (map (\<lambda>x. the (tx_read b bia ta x)) (ipv6_reads zs),
      \<not> (\<forall>x \<in> set zs. read_ok (fst x)))"
    by (rule tx_loop_forever_ok) (rule t, simp add: r)
  then show "tx_loop A b bia ta (ys @ y # zs) = Some (map (\<lambda>x. the (tx_read b bia ta x)) (ipv6_reads (y # zs)), True,
      \<not> (\<forall>x \<in> set zs. read_ok (fst x)))"
    using assms(1-3) r p wait_init_input_first [of ys A y b bia ta p zs, OF assms(4) y p]
    by (simp add: tx_loop_def)
qed


section \<open>Starting discovery with the first packet\<close>

text \<open>
  With \<open>dcvr_wait\<close>, the discovery thread blocks on the condition that \<open>wait_init_input\<close> signals; the
  mutex guards nothing else. An action is a call of \<open>read\<close> in the sending thread, which does what its code
  does with the verdict of \<open>wait_read\<close> (\<open>tx_wait\<close>; in \<open>_tx_loop\<close> a reading signals nothing), a step of
  the discovery thread into \<open>pthread_cond_wait\<close>, or a wake-up of that call without a signal, which
  POSIX allows. A signal wakes the thread if it is blocked and is lost otherwise.
\<close>

datatype tx_pc = Tx_waiting | Tx_looping
datatype dx_pc = Dx_start | Dx_blocked | Dx_started

datatype action = Read tun_read | Block | Spurious

fun cond_signal :: "dx_pc \<Rightarrow> dx_pc" where
  "cond_signal Dx_blocked = Dx_started"
| "cond_signal d = d"

fun tx_wait :: "arguments \<Rightarrow> tun_read \<Rightarrow> tx_pc \<times> dx_pc \<Rightarrow> tx_pc \<times> dx_pc" where
  "tx_wait A r (Tx_waiting, d) = (case wait_read A r of
     Give_up \<Rightarrow> (Tx_looping, d)
   | Again \<Rightarrow> (Tx_waiting, d)
   | Go \<Rightarrow> (Tx_looping, cond_signal d))"
| "tx_wait A r (Tx_looping, d) = (Tx_looping, d)"

inductive wait_step :: "arguments \<Rightarrow> action \<Rightarrow> tx_pc \<times> dx_pc \<Rightarrow> tx_pc \<times> dx_pc \<Rightarrow> bool" for A where
  Read: "wait_step A (Read r) s (tx_wait A r s)"
| Block: "wait_step A Block (t, Dx_start) (t, Dx_blocked)"
| Wake: "wait_step A Spurious (t, Dx_blocked) (t, Dx_started)"

inductive_simps wait_step_simps [simp]:
  "wait_step A (Read r) (t, d) s'"
  "wait_step A Block (t, d) s'"
  "wait_step A Spurious (t, d) s'"

inductive wait_run :: "arguments \<Rightarrow> action list \<Rightarrow> tx_pc \<times> dx_pc \<Rightarrow> bool" for A where
  Init: "wait_run A [] (Tx_waiting, Dx_start)"
| Step: "wait_run A as s \<Longrightarrow> wait_step A a s s' \<Longrightarrow> wait_run A (as @ [a]) s'"

text \<open>
  The readings of a run, and whether a signal has met a blocked thread: the first reading that is not
  passed over is a packet to the interface, and comes after the thread blocked.
\<close>

fun reads :: "action list \<Rightarrow> tun_read list" where
  "reads [] = []"
| "reads (Read r # as) = r # reads as"
| "reads (a # as) = reads as"

lemma reads_append [simp]: "reads (as @ bs) = reads as @ reads bs"
  by (induction as rule: reads.induct) simp_all

lemma set_reads: "r \<in> set (reads as) \<longleftrightarrow> Read r \<in> set as"
  by (induction as rule: reads.induct) auto

definition passed_over :: "arguments \<Rightarrow> tun_read list \<Rightarrow> bool" where
  "passed_over A rs \<longleftrightarrow> (\<forall>r \<in> set rs. 1 \<le> tr_ret r \<and> \<not> (tr_proto r = ETH_P_IPV6 \<and> ip_daddr (tr_ip r) = taddr A))"

definition signalled :: "arguments \<Rightarrow> action list \<Rightarrow> bool" where
  "signalled A as \<longleftrightarrow> (\<exists>bs r cs. as = bs @ Read r # cs \<and> Block \<in> set bs \<and> passed_over A (reads bs) \<and>
     1 \<le> tr_ret r \<and> tr_proto r = ETH_P_IPV6 \<and> ip_daddr (tr_ip r) = taddr A)"

lemma passed_over_iff: "passed_over A rs \<longleftrightarrow> (\<forall>r \<in> set rs. wait_read A r = Again)"
  by (auto simp: passed_over_def wait_read_iff first_input_def read_ok_def is_ipv6_def)

lemma Go_iff: "wait_read A r = Go \<longleftrightarrow> 1 \<le> tr_ret r \<and> tr_proto r = ETH_P_IPV6 \<and> ip_daddr (tr_ip r) = taddr A"
  by (simp add: wait_read_iff first_input_def read_ok_def is_ipv6_def)

lemma signalled_snoc:
  "signalled A (as @ [a]) \<longleftrightarrow> signalled A as \<or>
     (\<exists>r. a = Read r \<and> Block \<in> set as \<and> passed_over A (reads as) \<and> wait_read A r = Go)"
  (is "?l \<longleftrightarrow> ?r")
proof
  assume ?l
  then obtain bs r cs where *: "as @ [a] = bs @ Read r # cs" "Block \<in> set bs" "passed_over A (reads bs)" "wait_read A r = Go"
    by (auto simp: signalled_def Go_iff)
  then show ?r
    by (cases cs rule: rev_cases) (auto simp: signalled_def Go_iff)
next
  assume ?r
  then show ?l
  proof
    assume "signalled A as"
    then obtain bs r cs where "as = bs @ Read r # cs" "Block \<in> set bs" "passed_over A (reads bs)" "wait_read A r = Go"
      by (auto simp: signalled_def Go_iff)
    then show ?l
      unfolding signalled_def Go_iff [symmetric]
      by (intro exI [of _ bs] exI [of _ r] exI [of _ "cs @ [a]"]) simp
  next
    assume "\<exists>r. a = Read r \<and> Block \<in> set as \<and> passed_over A (reads as) \<and> wait_read A r = Go"
    then show ?l unfolding signalled_def Go_iff [symmetric] by blast
  qed
qed

text \<open>Where the threads are is determined by what has happened.\<close>

lemma wait_run_state:
  "wait_run A as s \<Longrightarrow> (fst s = Tx_waiting \<longleftrightarrow> passed_over A (reads as)) \<and> (snd s = Dx_start \<longleftrightarrow> Block \<notin> set as) \<and>
    (snd s = Dx_started \<longleftrightarrow> Spurious \<in> set as \<or> signalled A as)"
proof (induction rule: wait_run.induct)
  case Init
  then show ?case by (simp add: passed_over_def signalled_def)
next
  case (Step as s a s')
  obtain t d where s: "s = (t, d)" by (cases s)
  note IH = Step.IH [unfolded s fst_conv snd_conv]
  have n: "passed_over A (reads as @ [r]) \<longleftrightarrow> passed_over A (reads as) \<and> wait_read A r = Again" for r
    by (auto simp: passed_over_iff)
  show ?case
    using Step.hyps(2) unfolding s
  proof cases
    case (Read r)
    then show ?thesis using IH by (cases t; cases "wait_read A r"; cases d) (auto simp: n signalled_snoc)
  qed (use IH in \<open>auto simp: n signalled_snoc\<close>)
qed

text \<open>The same for the code of the sending thread.\<close>

lemma wait_init_input_state:
  "wait_init_input A b bia ta xs = Some (ps, sg, rest) \<Longrightarrow>
    (rest = None \<longleftrightarrow> passed_over A (map fst xs)) \<and>
    (sg \<longleftrightarrow> (\<exists>us r vs. map fst xs = us @ r # vs \<and> passed_over A us \<and> wait_read A r = Go))"
proof (induction xs)
  case Nil
  then show ?case by (simp add: passed_over_def)
next
  case (Cons x xs)
  have split: "(\<exists>us r vs. map fst (x # xs) = us @ r # vs \<and> passed_over A us \<and> wait_read A r = Go) \<longleftrightarrow>
      wait_read A (fst x) = Go \<or> wait_read A (fst x) = Again \<and>
        (\<exists>us r vs. map fst xs = us @ r # vs \<and> passed_over A us \<and> wait_read A r = Go)"
    (is "?l \<longleftrightarrow> ?r")
  proof
    assume ?l
    then obtain us r vs where *: "map fst (x # xs) = us @ r # vs" "passed_over A us" "wait_read A r = Go" by blast
    then show ?r by (cases us) (auto simp: passed_over_iff)
  next
    assume ?r
    then show ?l
    proof
      assume "wait_read A (fst x) = Go"
      then show ?l by (intro exI [of _ "[]"]) (simp add: passed_over_iff)
    next
      assume "wait_read A (fst x) = Again \<and>
        (\<exists>us r vs. map fst xs = us @ r # vs \<and> passed_over A us \<and> wait_read A r = Go)"
      then obtain us r vs where "wait_read A (fst x) = Again" "map fst xs = us @ r # vs" "passed_over A us" "wait_read A r = Go"
        by blast
      then show ?l by (intro exI [of _ "fst x # us"]) (auto simp: passed_over_iff)
    qed
  qed
  show ?case
    unfolding split using Cons
    by (cases "wait_read A (fst x)") (auto simp: passed_over_iff bind_eq_Some_conv)
qed

lemma wait_run_input:
  assumes R: "wait_run A as (t, d)" and x: "map fst xs = reads as"
    and w: "wait_init_input A b bia ta xs = Some (ps, sg, rest)"
  shows "(t = Tx_waiting \<longleftrightarrow> rest = None) \<and> (d = Dx_started \<longrightarrow> Spurious \<in> set as \<or> sg)"
proof -
  note S = wait_run_state [OF R, unfolded fst_conv snd_conv] and W = wait_init_input_state [OF w, unfolded x]
  have sg if e: "signalled A as"
  proof -
    obtain bs r cs where "as = bs @ Read r # cs" "passed_over A (reads bs)" "wait_read A r = Go"
      using e unfolding signalled_def Go_iff [symmetric] by blast
    then show ?thesis by (intro conjunct2 [OF W, THEN iffD2]) auto
  qed
  then show ?thesis using S W by blast
qed

text \<open>
  A packet that comes before the discovery thread blocks is lost to it, and so is a failed \<open>read\<close>:
  no later packet starts discovery.
\<close>

inductive wait_steps :: "arguments \<Rightarrow> action list \<Rightarrow> tx_pc \<times> dx_pc \<Rightarrow> tx_pc \<times> dx_pc \<Rightarrow> bool" for A where
  None: "wait_steps A [] s s"
| More: "wait_step A a s s' \<Longrightarrow> wait_steps A as s' s'' \<Longrightarrow> wait_steps A (a # as) s s''"

lemma never_started:
  "wait_steps A as s s' \<Longrightarrow> fst s = Tx_looping \<Longrightarrow> snd s \<noteq> Dx_started \<Longrightarrow> Spurious \<notin> set as \<Longrightarrow>
   fst s' = Tx_looping \<and> snd s' \<noteq> Dx_started"
proof (induction rule: wait_steps.induct)
  case (More a s s' as s'')
  from More.hyps(1) More.prems have "fst s' = Tx_looping \<and> snd s' \<noteq> Dx_started"
    by (cases s) (auto elim: wait_step.cases)
  then show ?case using More.IH More.prems by auto
qed simp

end
