(* ===== verification/Reduce.thy ===== *)
theory Reduce
  imports Rx Args
begin

text \<open>
  Thinning the tree before the grouping, \<open>reduce_tree\<close>: a router with too few child routers and
  too few receivers is cut out, and its parent takes its lists over (\<open>cut_router\<close>). The children
  of a router are reduced before the router itself.

  \<open>reduce_tree\<close> calls itself in its loop. The model is the loop, \<open>reduce_childs\<close>, with the call
  inside; the tests behind the loop are \<open>reduce_end\<close>.
\<close>


section \<open>Operations\<close>

definition reduce_end ::
    "'t judy \<Rightarrow> arguments \<Rightarrow> ptr \<Rightarrow> heap \<Rightarrow> 't \<Rightarrow> (heap \<times> 't) option" where
  "reduce_end J A r h t = do {
     rr \<leftarrow> routers h r;
     if node_parent (router_node rr) = NULL then Some (h, t)
     else if router_nchild rr < min_routers A \<and> router_nleaf rr < min_leafs A then do {
       (_, h, t) \<leftarrow> cut_router J r h t;
       Some (h, t)
     }
     else Some (h, t)
   }"

partial_function (option) reduce_childs ::
    "'t judy \<Rightarrow> arguments \<Rightarrow> ptr \<Rightarrow> heap \<Rightarrow> 't \<Rightarrow> (heap \<times> 't) option" where
  "reduce_childs J A j h t =
     (if j = NULL then Some (h, t)
      else do {
        ce \<leftarrow> cells h j;
        let n = child_v ce;
        let j = child_n ce;
        (h, t) \<leftarrow>
          (if n = NULL then Some (h, t)
           else do {
             nn \<leftarrow> routers h n;
             (h, t) \<leftarrow> reduce_childs J A (router_child nn) h t;
             reduce_end J A n h t
           });
        reduce_childs J A j h t
      })"

declare reduce_childs.simps [code]

definition reduce_tree ::
    "'t judy \<Rightarrow> arguments \<Rightarrow> ptr \<Rightarrow> heap \<Rightarrow> 't \<Rightarrow> (heap \<times> 't) option" where
  "reduce_tree J A r h t =
     (if r = NULL then Some (h, t)
      else do {
        rr \<leftarrow> routers h r;
        (h, t) \<leftarrow> reduce_childs J A (router_child rr) h t;
        reduce_end J A r h t
      })"

lemma reduce_childs_step:
  "reduce_childs J A j h t =
     (if j = NULL then Some (h, t)
      else do {
        ce \<leftarrow> cells h j;
        (h, t) \<leftarrow> reduce_tree J A (child_v ce) h t;
        reduce_childs J A (child_n ce) h t
      })"
  unfolding reduce_tree_def by (subst reduce_childs.simps) (simp add: Let_def)


section \<open>Cutting a router\<close>

text \<open>The parent \<open>p\<close> gets the lists of \<open>r\<close>, in front of its own.\<close>

definition view_cut :: "ptr \<Rightarrow> ptr \<Rightarrow> view \<Rightarrow> view" where
  "view_cut r p V = (\<lambda>(k, q). if q = r then []
     else if q = p then V (k, r) @ filter (\<lambda>x. snd x \<noteq> r) (V (k, p))
     else V (k, q))"

text \<open>\<open>add_childs\<close> with its result, for an empty list as well.\<close>

lemma add_childs_any:
  assumes zs: "chain (cells h) c zs" "\<And>w. w \<in> snd ` set zs \<Longrightarrow> w \<noteq> NULL \<and> is_node h w"
    and xs: "chain (cells h) (lh_l l) xs" "lh_n l = length xs"
    and disj: "fst ` set zs \<inter> fst ` set xs = {}"
  shows "\<exists>e m. add_childs p l c h = Some (e,
      \<lparr>lh_l = head_of (zs @ xs), lh_n = length (zs @ xs), lh_f = lh_f l + length zs\<rparr>,
      (with_parents (map snd zs) p h)\<lparr>cells := m\<rparr>) \<and>
    chain m (head_of (zs @ xs)) (zs @ xs) \<and> (\<forall>x. x \<notin> fst ` set zs \<longrightarrow> m x = cells h x)"
proof (cases zs)
  case Nil
  then have "add_childs p l c h = Some (- 1, l, h)" using zs(1) by (simp add: add_childs_def)
  then show ?thesis using Nil xs chain_head [OF xs(1)]
    by (intro exI [of _ "- 1"] exI [of _ "cells h"]) (auto simp: mem_simps)
next
  case (Cons z zs')
  then have c: "head_of (zs @ xs) = c" using chain_head [OF zs(1)] by simp
  obtain m where "add_childs p l c h = Some (0,
      \<lparr>lh_l = c, lh_n = lh_n l + length zs, lh_f = lh_f l + length zs\<rparr>,
      (with_parents (map snd zs) p h)\<lparr>cells := m\<rparr>)" "chain m c (zs @ xs)"
      "\<forall>x. x \<notin> fst ` set zs \<longrightarrow> m x = cells h x"
    using add_childs_ok [OF zs(1) _ zs(2) xs disj] Cons by blast
  then show ?thesis unfolding c using xs(2) by (auto simp: add.commute)
qed

lemma par_with_parents:
  "(\<And>v. v \<in> set vs \<Longrightarrow> is_node h v) \<Longrightarrow>
   par (with_parents vs q h) = (\<lambda>v. if v \<in> set vs then q else par h v)"
  by (induction vs arbitrary: h) (auto simp: mem_simps fun_eq_iff)

lemma obs_with_parents [mem_simps]:
  "rdata (with_parents vs q h) = rdata h" "ldata (with_parents vs q h) = ldata h"
  "rlist (with_parents vs q h) = rlist h" "has (with_parents vs q h) k v = has h k v"
  by (induction vs arbitrary: h) (simp_all add: mem_simps)

lemma node_ok_with_parents: "node_ok h \<Longrightarrow> node_ok (with_parents vs q h)"
  by (induction vs arbitrary: h) (simp_all add: mem_simps)

text \<open>One of the two steps of \<open>cut_router\<close> that move a list to the router \<open>p\<close>.\<close>

definition splice :: "kind \<Rightarrow> ptr \<Rightarrow> ptr \<Rightarrow> heap \<Rightarrow> heap option" where
  "splice k p c h = do {
     pr \<leftarrow> routers h p;
     (_, l, h) \<leftarrow> add_childs p (list_of k pr) c h;
     upd_router p (put_list k l) h
   }"

lemma splice_ok:
  assumes p: "rlist h (k, p) = Some l" and zs: "chain (cells h) c zs"
    and node: "\<And>w. w \<in> snd ` set zs \<Longrightarrow> w \<noteq> NULL \<and> is_node h w"
    and xs: "list_ok (cells h) l xs" and disj: "fst ` set zs \<inter> fst ` set xs = {}"
      "snd ` set zs \<inter> snd ` set xs = {}" "distinct (map snd zs)"
    and N: "node_ok h"
  shows "\<exists>h' l'. splice k p c h = Some h' \<and> list_ok (cells h') l' (zs @ xs) \<and>
    lh_f l' = lh_f l + length zs \<and> rlist h' = (rlist h)((k, p) \<mapsto> l') \<and>
    par h' = (\<lambda>v. if v \<in> snd ` set zs then p else par h v) \<and>
    (\<forall>k v. has h' k v = has h k v) \<and> same_data h h' \<and> node_ok h' \<and>
    (\<forall>x. x \<notin> fst ` set zs \<longrightarrow> cells h' x = cells h x)"
proof -
  obtain pr where pr: "routers h p = Some pr" "l = list_of k pr" using p by (rule rlist_SomeE)
  let ?l = "\<lparr>lh_l = head_of (zs @ xs), lh_n = length (zs @ xs), lh_f = lh_f l + length zs\<rparr>"
  obtain e m where m: "add_childs p l c h = Some (e, ?l, (with_parents (map snd zs) p h)\<lparr>cells := m\<rparr>)"
      "chain m (head_of (zs @ xs)) (zs @ xs)" "\<forall>x. x \<notin> fst ` set zs \<longrightarrow> m x = cells h x"
    using add_childs_any [OF zs node _ _ disj(1), of l p] xs unfolding list_ok_def by blast
  let ?h1 = "(with_parents (map snd zs) p h)\<lparr>cells := m\<rparr>"
  have r1: "rlist ?h1 (k, p) = Some l" using p by (simp add: mem_simps)
  then have "routers ?h1 p \<noteq> None" by (metis option.distinct(1) rlist_None)
  then have run: "splice k p c h = Some (put k p ?l ?h1)"
      and L: "rlist (put k p ?l ?h1) = (rlist h)((k, p) \<mapsto> ?l)"
    using pr m(1) by (simp_all add: splice_def upd_router_put mem_simps)
  have "m x = None" if "x = NULL \<or> brk h \<le> x" for x
  proof -
    have "cells h x = None" using that node_ok_cell [OF N] node_ok_fresh [OF N] by auto
    moreover have "x \<notin> fst ` set zs" using chain_cell [OF zs] calculation by force
    ultimately show ?thesis using m(3) by simp
  qed
  then have "node_ok (put k p ?l ?h1)"
    by (intro node_ok_put node_ok_cells node_ok_with_parents N) (auto simp: mem_simps)
  moreover have "par (put k p ?l ?h1) = (\<lambda>v. if v \<in> snd ` set zs then p else par h v)"
    using par_with_parents [of "map snd zs" h p] node by (simp add: mem_simps)
  moreover have "list_ok m ?l (zs @ xs)" using m(2) xs disj by (auto simp: list_ok_def)
  ultimately show ?thesis
    using run L m(3) by (intro exI [of _ "put k p ?l ?h1"] exI [of _ ?l])
      (simp add: mem_simps same_data_def)
qed


lemma free_router_obs:
  fixes c :: ptr
  assumes N: "node_ok h" and r: "routers h r \<noteq> None" "par h r = NULL"
  defines "h' \<equiv> del_router r (del_cell c h)"
  shows "rlist h' (k, q) = (if q = r then None else rlist h (k, q))"
    and "has h' k v \<longleftrightarrow> has h k v \<and> v \<noteq> r" and "par h' = par h"
    and "cells h' = (cells h)(c := None)" and "rdata h' = (rdata h)(r := None)" and "ldata h' = ldata h"
    and "hdrs h' = hdrs h" and "brk h' = brk h" and "node_ok h'"
proof -
  have rl: "leafs h r = None" using node_ok_disj' [OF N] r(1) by auto
  show "rlist h' (k, q) = (if q = r then None else rlist h (k, q))"
    by (simp add: h'_def del_router_def del_cell_def rlist_def)
  show "has h' k v \<longleftrightarrow> has h k v \<and> v \<noteq> r"
    using rl by (cases k) (auto simp: h'_def del_router_def del_cell_def)
  show "par h' = par h"
  proof
    fix x
    show "par h' x = par h x"
      using r(2) rl by (auto simp: h'_def del_router_def del_cell_def par_def get_node_def
          split: option.splits)
  qed
  show "node_ok h'" using N unfolding node_ok_def h'_def
    by (auto simp: del_router_def del_cell_def)
qed (simp_all add: h'_def del_router_def del_cell_def rdata_def ldata_def fun_eq_iff)

text \<open>Both lists of \<open>r\<close> move to \<open>p\<close>: what the memory then looks like, list by list.\<close>

lemma repr_cut:
  assumes R: "repr h V" and pr: "p \<noteq> r" "routers h p \<noteq> None" "par h r = NULL"
    and N: "node_ok h'"
    and L: "\<And>k l. rlist h' (k, p) = Some l \<Longrightarrow> list_ok (cells h') l (V (k, r) @ V (k, p))"
    and Lp: "\<And>k. rlist h' (k, p) \<noteq> None"
    and O: "\<And>k q. q \<noteq> p \<Longrightarrow> rlist h' (k, q) = (if q = r then None else rlist h (k, q))"
    and C: "\<And>x k q. q \<noteq> p \<Longrightarrow> q \<noteq> r \<Longrightarrow> x \<in> fst ` set (V (k, q)) \<Longrightarrow> cells h' x = cells h x"
    and H: "\<And>k v. has h' k v \<longleftrightarrow> has h k v \<and> v \<noteq> r"
    and P: "\<And>v. par h' v = (if v \<in> snd ` set (V (Kid, r)) \<union> snd ` set (V (Leaf, r)) then p else par h v)"
  shows "repr h' (\<lambda>(k, q). if q = r then [] else if q = p then V (k, r) @ V (k, p) else V (k, q))"
    (is "repr h' ?V")
  unfolding repr_def
proof (intro conjI allI impI)
  note NO = repr_node_ok [OF R]
  have moved: "v \<in> snd ` set (V (Kid, r)) \<union> snd ` set (V (Leaf, r)) \<longleftrightarrow> (\<exists>k c. (c, v) \<in> set (V (k, r)))" for v
  proof -
    have "(\<exists>k c. (c, v) \<in> set (V (k, r))) \<longleftrightarrow> (\<exists>c. (c, v) \<in> set (V (Kid, r))) \<or> (\<exists>c. (c, v) \<in> set (V (Leaf, r)))"
      by (metis kind.exhaust)
    moreover have "v \<in> snd ` set (V (k, r)) \<longleftrightarrow> (\<exists>c. (c, v) \<in> set (V (k, r)))" for k by force
    ultimately show ?thesis by blast
  qed
  show "node_ok h'" by (rule N)
  show "list_ok (cells h') l (?V kr)" if l: "rlist h' kr = Some l" for kr l
  proof -
    obtain k q where kr: "kr = (k, q)" by (cases kr)
    show ?thesis
    proof (cases "q = p")
      case True
      with L [of k l] l kr pr(1) show ?thesis by simp
    next
      case False
      with O [OF False, of k] l kr have q: "q \<noteq> r" "rlist h (k, q) = Some l" by (auto split: if_splits)
      then have "list_ok (cells h) l (V (k, q))" using repr_list [OF R] by simp
      then show ?thesis using C [OF False q(1), of _ k] q(1) False kr
        by (auto simp: list_ok_def elim!: chain_cong)
    qed
  qed
  show "?V kr = []" if "rlist h' kr = None" for kr
  proof -
    obtain k q where kr: "kr = (k, q)" by (cases kr)
    have "q \<noteq> p" using that Lp [of k] kr by auto
    with O [of q k] that kr repr_None [OF R, of "(k, q)"] show ?thesis by (auto split: if_splits)
  qed
  have in_V: "has h' k v \<and> par h' v = q" if m: "(c, v) \<in> set (?V (k, q))" for c v k q
  proof -
    consider (from_r) "q = p" "(c, v) \<in> set (V (k, r))" | (stay) "q \<noteq> r" "(c, v) \<in> set (V (k, q))"
      using m pr(1) by (auto split: if_splits)
    then show ?thesis
    proof cases
      case from_r
      then have "r \<noteq> NULL" using repr_cell [OF R from_r(2)] node_ok_router_NULL [OF NO] by (auto intro!: gr0I)
      then have "v \<noteq> r" using repr_in [OF R from_r(2)] pr(3) by auto
      moreover have "v \<in> snd ` set (V (Kid, r)) \<union> snd ` set (V (Leaf, r))" using from_r moved by blast
      ultimately show ?thesis using repr_in [OF R from_r(2)] from_r(1) H P by simp
    next
      case stay
      have "v \<noteq> r"
      proof
        assume "v = r"
        with repr_in [OF R stay(2)] pr(3) repr_cell [OF R stay(2)] node_ok_router_NULL [OF NO]
        show False by auto
      qed
      moreover have "v \<notin> snd ` set (V (Kid, r)) \<union> snd ` set (V (Leaf, r))"
        unfolding moved using repr_in [OF R] stay by metis
      ultimately show ?thesis using repr_in [OF R stay(2)] H P by simp
    qed
  qed
  show "has h' k v" "par h' v = q" if "(c, v) \<in> set (?V (k, q))" for k q c v
    using in_V [OF that] by auto
  show "v \<in> snd ` set (?V (k, par h' v))" if hv: "has h' k v \<and> par h' v \<noteq> NULL" for k v
  proof (cases "\<exists>k c. (c, v) \<in> set (V (k, r))")
    case True
    then obtain k2 c where c: "(c, v) \<in> set (V (k2, r))" by blast
    with repr_in [OF R c] hv H has_kind_unique [OF NO] have "k2 = k" by blast
    have "v \<in> snd ` set (V (Kid, r)) \<union> snd ` set (V (Leaf, r))" using True moved by blast
    then have "par h' v = p" using P by simp
    then show ?thesis using c \<open>k2 = k\<close> pr(1) by force
  next
    case False
    then have pv: "par h' v = par h v" using P moved by metis
    with hv H have "v \<in> snd ` set (V (k, par h v))" using repr_par [OF R] by auto
    moreover have "par h v \<noteq> r" using False calculation by auto
    ultimately show ?thesis using pv by auto
  qed
qed

lemma cut_router_ok:
  assumes J: "judy_hs J" and R: "repr h V" and e: "(p, r) \<in> kid_edges V"
    and ac: "(r, p) \<notin> kid_edges V"
  shows "\<exists>h' t'. cut_router J r h t = Some (0, h', t') \<and> repr h' (view_cut r p V) \<and>
    rdata h' = (rdata h)(r := None) \<and> ldata h' = ldata h \<and> hdrs h' = hdrs h \<and>
    (\<forall>v. par h' v = (if v = r then NULL
       else if v \<in> snd ` set (V (Kid, r)) \<union> snd ` set (V (Leaf, r)) then p else par h v)) \<and>
    (all_free h V \<longrightarrow> all_free h' (view_cut r p V)) \<and>
    (\<exists>sa hops. rdata h r = Some (sa, hops) \<and> t' = jhsd J t (sin6_addr sa))"
proof -
  note N = repr_node_ok [OF R]
  obtain c where cr: "(c, r) \<in> set (V (Kid, p))" using e by (auto simp: kid_edges_def)
  have r: "routers h r \<noteq> None" "par h r = p" "p \<noteq> NULL" using e by (auto simp: kid_edges_iff [OF R])
  obtain rr where rr: "routers h r = Some rr" using r(1) by blast
  obtain pr where pr: "routers h p = Some pr" using repr_cell [OF R cr] by blast
  have rl: "leafs h r = None" by (rule node_ok_disj' [OF N rr])
  have r0: "r \<noteq> NULL" using node_ok_NULL [OF N, of Kid r] r(1) by simp
  have rp: "r \<noteq> p" using ac e by auto
  let ?V1 = "view_rm Kid p r V"
  obtain h1 where h1: "rm_node Kid p r h = Some (c, h1)" "repr h1 ?V1" "same_data h h1"
      "par h1 = (par h)(r := NULL)" "free_of h1 = (free_of h)((Kid, p) := free_of h (Kid, p) - 1)"
      "cells h1 c = Some \<lparr>child_v = r, child_n = NULL\<rparr>"
    using rm_node_view [OF R cr] by blast
  note N1 = repr_node_ok [OF h1(2)]
  have dom: "routers h1 q = None \<longleftrightarrow> routers h q = None" for q by (rule same_data_dom(1) [OF h1(3)])
  obtain rr1 where rr1: "routers h1 r = Some rr1" using dom [of r] rr by auto
  obtain pr1 where pr1: "routers h1 p = Some pr1" using dom [of p] pr by auto
  have V1r: "?V1 (k, r) = V (k, r)" for k using rp by (simp add: view_rm_def)
  have V1p: "?V1 (k, p) = filter (\<lambda>x. snd x \<noteq> r) (V (k, p))" for k
  proof (cases k)
    case Leaf
    have "filter (\<lambda>x. snd x \<noteq> r) (V (Leaf, p)) = V (Leaf, p)"
      using repr_in [OF R, of _ r Leaf p] rl by (auto simp: filter_id_conv)
    then show ?thesis by (simp add: view_rm_def Leaf)
  qed (simp add: view_rm_def)
  let ?h2 = "del_router r (del_cell c h1)"
  have par1: "par h1 r = NULL" by (simp add: h1(4))
  note o2 = free_router_obs [OF N1 _ par1, of c, unfolded rr1, simplified]
  have cl: "c \<notin> fst ` set (?V1 kr)" for kr
    using repr_loose_cell [OF h1(2,6)] par1 by (cases kr) auto
  have ch2: "chain (cells ?h2) q xs" if "chain (cells h1) q xs" "set xs \<subseteq> set (?V1 kr)" for q xs kr
    using chain_upd [OF that(1)] cl [of kr] that(2) by (force simp: o2(4))
  have lst: "list_ok (cells h1) (list_of k rr1) (V (k, r))" "list_ok (cells h1) (list_of k pr1) (?V1 (k, p))" for k
    using repr_list [OF h1(2) rlist_Some [OF rr1]] repr_list [OF h1(2) rlist_Some [OF pr1]] V1r by auto
  have zs2: "chain (cells ?h2) (lh_l (list_of k rr1)) (V (k, r))" for k
    using ch2 [of _ "V (k, r)" "(k, r)"] lst(1) [of k] by (simp add: list_ok_def V1r)
  have xs2: "list_ok (cells ?h2) (list_of k pr1) (?V1 (k, p))" for k
    using ch2 [of _ "?V1 (k, p)" "(k, p)"] lst(2) [of k] by (simp add: list_ok_def)
  have node2: "w \<noteq> NULL \<and> is_node ?h2 w" if w: "w \<in> snd ` set (V (k, r))" for w k
  proof -
    obtain x where x: "(x, w) \<in> set (V (k, r))" using w by auto
    then have "has h1 k w" "par h1 w = r" using repr_in [OF h1(2), of x w k r] V1r by auto
    moreover have "w \<noteq> r" using calculation(2) par1 r0 by auto
    ultimately show ?thesis using node_ok_NULL [OF N1] has_is_node [of ?h2 k w] o2(2) by auto
  qed
  have dfst: "fst ` set (V (k, r)) \<inter> fst ` set (?V1 (k', q)) = {}" if "q \<noteq> r" for k k' q
    using repr_cells_disjoint [OF h1(2), of k r k' q] that V1r by simp
  have dsnd: "snd ` set (V (k, r)) \<inter> snd ` set (?V1 (k, p)) = {}" for k
    using repr_in [OF h1(2), of _ _ k r] repr_in [OF h1(2), of _ _ k p] V1r rp by fastforce
  have dist: "distinct (map snd (V (k, r)))" for k using lst(1) by (simp add: list_ok_def)
  have Lp2: "rlist ?h2 (k, p) = Some (list_of k pr1)" for k
    using rlist_Some [OF pr1] rp by (simp add: o2(1))
  obtain h3 l3 where h3: "splice Kid p (lh_l (list_of Kid rr1)) ?h2 = Some h3"
      "list_ok (cells h3) l3 (V (Kid, r) @ ?V1 (Kid, p))" "lh_f l3 = lh_f (list_of Kid pr1) + length (V (Kid, r))"
      "rlist h3 = (rlist ?h2)((Kid, p) \<mapsto> l3)" "par h3 = (\<lambda>v. if v \<in> snd ` set (V (Kid, r)) then p else par ?h2 v)"
      "\<And>k v. has h3 k v = has ?h2 k v" "same_data ?h2 h3" "node_ok h3"
      "\<And>x. x \<notin> fst ` set (V (Kid, r)) \<Longrightarrow> cells h3 x = cells ?h2 x"
    using splice_ok [OF Lp2 zs2 node2 [of _ Kid] xs2 dfst [OF rp [symmetric]] dsnd dist o2(9), of Kid] by blast
  have keep3: "chain (cells h3) q xs" if "chain (cells ?h2) q xs" "fst ` set (V (Kid, r)) \<inter> fst ` set xs = {}" for q xs
  proof (rule chain_cong [OF that(1)])
    fix x
    assume "x \<in> fst ` set xs"
    with that(2) have "x \<notin> fst ` set (V (Kid, r))" by blast
    then show "cells h3 x = cells ?h2 x" by (rule h3(9))
  qed
  have dKL: "fst ` set (V (Kid, r)) \<inter> fst ` set (V (Leaf, r)) = {}"
    using repr_cells_disjoint [OF h1(2), of Kid r Leaf r] V1r by simp
  have zs3: "chain (cells h3) (lh_l (list_of Leaf rr1)) (V (Leaf, r))" by (rule keep3 [OF zs2 dKL])
  have xs3: "list_ok (cells h3) (list_of Leaf pr1) (?V1 (Leaf, p))"
    using keep3 xs2 [of Leaf] dfst [OF rp [symmetric], of Kid Leaf] by (simp add: list_ok_def)
  have node3: "w \<noteq> NULL \<and> is_node h3 w" if "w \<in> snd ` set (V (Leaf, r))" for w
    using node2 [OF that] h3(6) [of Leaf w] h3(6) [of Kid w] by (auto simp: is_node_def)
  have Lp3: "rlist h3 (Leaf, p) = Some (list_of Leaf pr1)" using Lp2 by (simp add: h3(4))
  obtain h4 l4 where h4: "splice Leaf p (lh_l (list_of Leaf rr1)) h3 = Some h4"
      "list_ok (cells h4) l4 (V (Leaf, r) @ ?V1 (Leaf, p))" "lh_f l4 = lh_f (list_of Leaf pr1) + length (V (Leaf, r))"
      "rlist h4 = (rlist h3)((Leaf, p) \<mapsto> l4)" "par h4 = (\<lambda>v. if v \<in> snd ` set (V (Leaf, r)) then p else par h3 v)"
      "\<And>k v. has h4 k v = has h3 k v" "same_data h3 h4" "node_ok h4"
      "\<And>x. x \<notin> fst ` set (V (Leaf, r)) \<Longrightarrow> cells h4 x = cells h3 x"
    using splice_ok [OF Lp3 zs3 node3 xs3 dfst [OF rp [symmetric]] dsnd dist h3(8)] by blast
  have l3': "list_ok (cells h4) l3 (V (Kid, r) @ ?V1 (Kid, p))"
  proof -
    have "cells h4 x = cells h3 x" if "x \<in> fst ` set (V (Kid, r) @ ?V1 (Kid, p))" for x
      using that dKL dfst [OF rp [symmetric], of Leaf Kid] by (intro h4(9)) auto
    then have "chain (cells h4) (lh_l l3) (V (Kid, r) @ ?V1 (Kid, p))"
      using h3(2) chain_cong [of "cells h3"] unfolding list_ok_def by blast
    with h3(2) show ?thesis by (simp add: list_ok_def)
  qed
  have V': "view_cut r p V = (\<lambda>(k, q). if q = r then [] else if q = p then ?V1 (k, r) @ ?V1 (k, p) else ?V1 (k, q))"
    unfolding view_cut_def V1r V1p by (auto simp: fun_eq_iff view_rm_def)
  have lk: "rlist h4 (k, p) = Some (case k of Kid \<Rightarrow> l3 | Leaf \<Rightarrow> l4)" for k
    by (cases k) (simp_all add: h4(4) h3(4))
  have P: "par h4 v = (if v \<in> snd ` set (?V1 (Kid, r)) \<union> snd ` set (?V1 (Leaf, r)) then p else par h1 v)" for v
    by (auto simp: h4(5) h3(5) o2(3) V1r)
  have "repr h4 (view_cut r p V)"
    unfolding V'
  proof (rule repr_cut [OF h1(2) rp [symmetric] _ par1 h4(8)])
    show "list_ok (cells h4) l (?V1 (k, r) @ ?V1 (k, p))" if "rlist h4 (k, p) = Some l" for k l
      using that lk h4(2) l3' V1r by (cases k) auto
    show "rlist h4 (k, q) = (if q = r then None else rlist h1 (k, q))" if "q \<noteq> p" for k q
      using that by (simp add: h4(4) h3(4) o2(1))
    show "cells h4 x = cells h1 x" if "q \<noteq> p" "q \<noteq> r" "x \<in> fst ` set (?V1 (k, q))" for x k q
      using that dfst [OF that(2), of Kid k] dfst [OF that(2), of Leaf k] cl [of "(k, q)"]
      by (subst h4(9), blast, subst h3(9), blast) (auto simp: o2(4))
    show "has h4 k v \<longleftrightarrow> has h1 k v \<and> v \<noteq> r" for k v by (simp add: h4(6) h3(6) o2(2))
  qed (use pr1 lk P in auto)
  moreover have "all_free h4 (view_cut r p V)" if F: "all_free h V"
    unfolding all_free_def
  proof
    fix kr :: "kind \<times> ptr"
    obtain k q where kr: "kr = (k, q)" by (cases kr)
    have f: "free_of h1 (k, q) = length (?V1 (k, q))" for k q
      using F h1(5) length_view_rm [OF R cr] by (auto simp: all_free_def view_rm_def)
    have fp: "lh_f (list_of k pr1) = length (?V1 (k, p))"
      using f [of k p] pr1 by (simp add: free_of_def rlist_def)
    show "free_of h4 kr = length (view_cut r p V kr)"
      using f [of k q] fp h3(3) h4(3) lk [of k] rp unfolding kr V'
      by (cases k; cases "q = p") (auto simp: free_of_def h4(4) h3(4) o2(1) V1r)
  qed
  moreover have "rdata h4 = (rdata h)(r := None)" "ldata h4 = ldata h" "hdrs h4 = hdrs h"
    using h1(3) h3(7) h4(7) o2(5-7) by (simp_all add: same_data_def)
  moreover have "par h4 v = (if v = r then NULL
       else if v \<in> snd ` set (V (Kid, r)) \<union> snd ` set (V (Leaf, r)) then p else par h v)" for v
  proof -
    have "r \<notin> snd ` set (V (k, r))" for k
      using repr_in [OF h1(2), of _ r k r] par1 r0 V1r by auto
    then show ?thesis using P [of v] h1(4) V1r by auto
  qed
  moreover have "cut_router J r h t = Some (0, h4, jhsd J t (sin6_addr (router_sa rr)))"
  proof -
    have "rm_router p r h = Some (c, h1)" using rm_router_node [OF rl] h1(1) by simp
    moreover have "get_child r (router_child pr) h = Some c"
      using get_child_ok [OF R pr cr] by (simp add: child_list_def)
    moreover have "router_sa rr1 = router_sa rr"
      using h1(3) rr rr1 by (auto simp: same_data_def rdata_def dest: fun_cong [of _ _ r])
    moreover have "node_parent (router_node rr) = p" using par_router [OF rl rr] r(2) by simp
    moreover obtain p2 l2 g2 e2 where "routers ?h2 p = Some p2"
        "add_childs p (list_of Kid p2) (router_child rr1) ?h2 = Some (e2, l2, g2)" "upd_router p (put_list Kid l2) g2 = Some h3"
      using h3(1) by (auto simp: splice_def child_list_def Option.bind_eq_Some_conv)
    moreover obtain p3 l3 g3 e3 where "routers h3 p = Some p3"
        "add_childs p (list_of Leaf p3) (router_leaf rr1) h3 = Some (e3, l3, g3)" "upd_router p (put_list Leaf l3) g3 = Some h4"
      using h4(1) by (auto simp: splice_def leaf_list_def Option.bind_eq_Some_conv)
    moreover have "free_cell c h1 = Some (del_cell c h1)"
      using h1(6) N1 by (intro free_ok) (auto simp: node_ok_def intro!: gr0I)
    moreover have "free_router_obj r (del_cell c h1) = Some ?h2"
      using r0 rr1 by (intro free_ok) (auto simp: del_cell_def)
    ultimately show ?thesis
      using r0 rr rr1 pr by (simp add: cut_router_def free_router_def Let_def)
  qed
  moreover have "rdata h r = Some (router_sa rr, router_hops rr)" using rr by (simp add: rdata_def)
  ultimately show ?thesis by blast
qed

end
