(* ===== verification/TreeView.thy ===== *)
theory TreeView
  imports TopoInv
begin

text \<open>
  The tree that a view describes, apart from the memory: the graph of child routers of a
  well-formed topology is finite, has no cycle and gives every router one parent.
\<close>


section \<open>The tree\<close>

definition tree_view :: "view \<Rightarrow> ptr \<Rightarrow> bool" where
  "tree_view V root \<longleftrightarrow> acyclic (kid_edges V) \<and> finite (kid_edges V) \<and>
     (\<forall>p q x. (p, x) \<in> kid_edges V \<and> (q, x) \<in> kid_edges V \<longrightarrow> p = q) \<and>
     (\<forall>p. (p, root) \<notin> kid_edges V) \<and> (\<forall>kr. distinct (map snd (V kr)))"

lemma tree_viewD:
  assumes "tree_view V root"
  shows tree_acyclic: "acyclic (kid_edges V)" and tree_finite: "finite (kid_edges V)"
    and tree_parent: "(p, x) \<in> kid_edges V \<Longrightarrow> (q, x) \<in> kid_edges V \<Longrightarrow> p = q"
    and tree_root: "(p, root) \<notin> kid_edges V"
    and tree_distinct: "distinct (map snd (V kr))"
  using assms unfolding tree_view_def by blast+

lemma tree_wf: "tree_view V root \<Longrightarrow> wf (kid_edges V)"
    "tree_view V root \<Longrightarrow> wf ((kid_edges V)\<inverse>)"
  by (rule finite_acyclic_wf, erule tree_finite, erule tree_acyclic)
    (rule finite_acyclic_wf_converse, erule tree_finite, erule tree_acyclic)

lemma tree_no_cycle: "tree_view V root \<Longrightarrow> (p, x) \<in> kid_edges V \<Longrightarrow> (x, p) \<notin> (kid_edges V)\<^sup>*"
  by (metis acyclic_def rtrancl_into_trancl2 tree_acyclic)

lemma tree_up:
  assumes "tree_view V root" "(x, r) \<in> (kid_edges V)\<^sup>*" "(p, r) \<in> kid_edges V"
  shows "x = r \<or> (x, p) \<in> (kid_edges V)\<^sup>*"
  using assms(2) by (cases rule: rtranclE) (use tree_parent [OF assms(1) _ assms(3)] in auto)

lemma tree_comparable:
  assumes T: "tree_view V root"
  shows "(x, r) \<in> (kid_edges V)\<^sup>* \<Longrightarrow> (y, r) \<in> (kid_edges V)\<^sup>* \<Longrightarrow>
    (x, y) \<in> (kid_edges V)\<^sup>* \<or> (y, x) \<in> (kid_edges V)\<^sup>*"
proof (induction arbitrary: y rule: rtrancl_induct)
  case (step p z)
  from tree_up [OF T step.prems step.hyps(2)] show ?case
  proof
    assume "y = z"
    with step.hyps show ?thesis by (meson rtrancl.rtrancl_into_rtrancl)
  next
    assume "(y, p) \<in> (kid_edges V)\<^sup>*"
    then show ?thesis by (rule step.IH)
  qed
qed simp

lemma topo_tree_view:
  assumes T: "topo_ok h V root"
  shows "tree_view V root"
proof -
  note R = topo_repr [OF T]
  have "distinct (map snd (V kr))" for kr
    using repr_list [OF R, of kr] repr_None [OF R, of kr] by (cases "rlist h kr") (auto simp: list_ok_def)
  then show ?thesis
    using topo_acyclic [OF T] finite_kid_edges [OF R] topo_root [OF T]
    by (auto simp: tree_view_def kid_edges_iff [OF R])
qed

definition below :: "view \<Rightarrow> ptr \<Rightarrow> nat" where
  "below V r = card {x. (r, x) \<in> (kid_edges V)\<^sup>+}"

lemma finite_below:
  assumes T: "tree_view V root"
  shows "finite {x. (r, x) \<in> (kid_edges V)\<^sup>+}"
proof (rule finite_subset)
  show "{x. (r, x) \<in> (kid_edges V)\<^sup>+} \<subseteq> snd ` (kid_edges V)"
  proof
    fix x
    assume "x \<in> {x. (r, x) \<in> (kid_edges V)\<^sup>+}"
    then have "(r, x) \<in> (kid_edges V)\<^sup>+" by simp
    then obtain y where "(y, x) \<in> kid_edges V" by (cases rule: tranclE) auto
    then show "x \<in> snd ` (kid_edges V)" by force
  qed
qed (use tree_finite [OF T] in simp)

lemma below_kid:
  assumes T: "tree_view V root" and e: "(r, x) \<in> kid_edges V"
  shows "below V x < below V r"
  unfolding below_def
proof (rule psubset_card_mono [OF finite_below [OF T]])
  have "x \<notin> {y. (x, y) \<in> (kid_edges V)\<^sup>+}" using tree_acyclic [OF T] by (simp add: acyclic_def)
  moreover have "x \<in> {y. (r, y) \<in> (kid_edges V)\<^sup>+}" using e by blast
  moreover have "{y. (x, y) \<in> (kid_edges V)\<^sup>+} \<subseteq> {y. (r, y) \<in> (kid_edges V)\<^sup>+}"
    using e by (auto intro: trancl_into_trancl2)
  ultimately show "{y. (x, y) \<in> (kid_edges V)\<^sup>+} \<subset> {y. (r, y) \<in> (kid_edges V)\<^sup>+}" by blast
qed

lemma attached_reach:
  assumes T: "topo_ok h V root"
  shows "attached h root r \<Longrightarrow> (root, r) \<in> (kid_edges V)\<^sup>*"
proof (induction r rule: wf_induct_rule [OF topo_wf [OF T]])
  case (1 r)
  note R = topo_repr [OF T]
  show ?case
  proof (cases "r = root")
    case False
    then have e: "(par h r, r) \<in> kid_edges V" using 1(2) by (auto simp: attached_def kid_edges_iff [OF R])
    then obtain c where "(c, r) \<in> set (V (Kid, par h r))" by (auto simp: kid_edges_def)
    then have "(root, par h r) \<in> (kid_edges V)\<^sup>*" using 1(1) [OF e topo_parent_attached [OF T]] by blast
    with e show ?thesis by (rule rtrancl.rtrancl_into_rtrancl [rotated])
  qed simp
qed


section \<open>The routers below a router\<close>

definition down :: "view \<Rightarrow> ptr \<Rightarrow> ptr set" where
  "down V r = {x. (r, x) \<in> (kid_edges V)\<^sup>*}"

lemma down_kid: "(r, y) \<in> kid_edges V \<Longrightarrow> down V y \<subseteq> down V r"
  by (auto simp: down_def intro: converse_rtrancl_into_rtrancl)

lemma down_self [simp]: "r \<in> down V r"
  by (simp add: down_def)

lemma down_siblings:
  assumes T: "tree_view V root" and e: "(r, y) \<in> kid_edges V" "(r, y') \<in> kid_edges V" "y \<noteq> y'"
  shows "down V y \<inter> down V y' = {}"
proof -
  have False if "x \<in> down V y" "x \<in> down V y'" for x
  proof -
    have "(y, y') \<in> (kid_edges V)\<^sup>* \<or> (y', y) \<in> (kid_edges V)\<^sup>*"
      using tree_comparable [OF T] that by (auto simp: down_def)
    then show False
      using tree_up [OF T _ e(2), of y] tree_up [OF T _ e(1), of y'] e
        tree_no_cycle [OF T e(1)] tree_no_cycle [OF T e(2)] by auto
  qed
  then show ?thesis by blast
qed

lemma down_kid_self: "tree_view V root \<Longrightarrow> (r, y) \<in> kid_edges V \<Longrightarrow> r \<notin> down V y"
  using tree_no_cycle by (auto simp: down_def)

text \<open>The subtree of \<open>y\<close> is the same in two views that agree on it.\<close>

lemma down_cong:
  assumes "\<And>q. q \<in> down V y \<Longrightarrow> V' (Kid, q) = V (Kid, q)"
  shows "down V' y = down V y"
proof -
  have step: "(q, x) \<in> kid_edges V' \<longleftrightarrow> (q, x) \<in> kid_edges V" if "(y, q) \<in> (kid_edges V)\<^sup>*" for q x
    using assms [of q] that by (simp add: kid_edges_def down_def)
  have "(y, x) \<in> (kid_edges V')\<^sup>*" if "(y, x) \<in> (kid_edges V)\<^sup>*" for x
    using that by (induction rule: rtrancl_induct) (auto simp: step intro: rtrancl.rtrancl_into_rtrancl)
  moreover have "(y, x) \<in> (kid_edges V)\<^sup>*" if "(y, x) \<in> (kid_edges V')\<^sup>*" for x
    using that by (induction rule: rtrancl_induct) (auto simp: step intro: rtrancl.rtrancl_into_rtrancl)
  ultimately show ?thesis by (auto simp: down_def)
qed

lemma below_down: "tree_view V root \<Longrightarrow> below V r = card (down V r - {r})"
  using tree_acyclic [of V root] unfolding below_def down_def
  by (intro arg_cong [of _ _ card]) (auto simp: rtrancl_eq_or_trancl acyclic_def)

end
