(* ===== verification/ReduceProof.thy ===== *)
theory ReduceProof
  imports Reduce TreeView
begin

text \<open>
  \<open>reduce_tree\<close> keeps the topology well formed, keeps every receiver, and leaves below the sender
  only routers with enough child routers or enough receivers.
\<close>


section \<open>Cutting keeps the invariant\<close>

text \<open>With \<open>b\<close>, the table is right as well; the tests of \<open>test.c\<close> work without it.\<close>

definition disc_inv :: "bool \<Rightarrow> 't judy \<Rightarrow> heap \<Rightarrow> view \<Rightarrow> ptr \<Rightarrow> 't \<Rightarrow> bool" where
  "disc_inv b J h V root t \<longleftrightarrow> topo_ok h V root \<and> hops_mono h V root \<and> (b \<longrightarrow> table_ok J t h)"

lemma kid_edges_cut:
  "(q, x) \<in> kid_edges (view_cut r p V) \<longleftrightarrow> q \<noteq> r \<and>
    (if q = p then (r, x) \<in> kid_edges V \<or> (p, x) \<in> kid_edges V \<and> x \<noteq> r else (q, x) \<in> kid_edges V)"
  by (auto simp: kid_edges_def view_cut_def image_iff)

lemma cut_topo:
  assumes J: "judy_hs J" and I: "disc_inv b J h V root t" and e: "(p, r) \<in> kid_edges V"
  shows "\<exists>h' t'. cut_router J r h t = Some (0, h', t') \<and> disc_inv b J h' (view_cut r p V) root t' \<and>
    rdata h' = (rdata h)(r := None) \<and> ldata h' = ldata h \<and>
    (\<forall>v. par h' v = (if v = r then NULL
       else if v \<in> snd ` set (V (Kid, r)) \<union> snd ` set (V (Leaf, r)) then p else par h v))"
proof -
  have T: "topo_ok h V root" and H: "hops_mono h V root" and D: "b \<Longrightarrow> table_ok J t h"
    using I by (auto simp: disc_inv_def)
  note R = topo_repr [OF T] and TV = topo_tree_view [OF T]
  have "(r, p) \<notin> kid_edges V" using tree_no_cycle [OF TV e] by blast
  from cut_router_ok [OF J R e this, of t] obtain h' t' sa hops where
    c: "cut_router J r h t = Some (0, h', t')" "repr h' (view_cut r p V)"
      "rdata h' = (rdata h)(r := None)" "ldata h' = ldata h"
    and P: "\<And>v. par h' v = (if v = r then NULL
       else if v \<in> snd ` set (V (Kid, r)) \<union> snd ` set (V (Leaf, r)) then p else par h v)"
    and F: "all_free h V \<longrightarrow> all_free h' (view_cut r p V)"
    and t: "rdata h r = Some (sa, hops)" "t' = jhsd J t (sin6_addr sa)" by blast
  have p0: "p \<noteq> NULL" using e by (simp add: kid_edges_iff [OF R])
  have rroot: "r \<noteq> root" using tree_root [OF TV] e by auto
  have dom: "routers h' q = None \<longleftrightarrow> routers h q = None \<or> q = r" for q
    using c(3) by (metis fun_upd_apply rdata_None)
  have rl: "leafs h r = None" using e node_ok_disj' [OF repr_node_ok [OF R]] by (auto simp: kid_edges_iff [OF R])
  have sub: "kid_edges (view_cut r p V) \<subseteq> (kid_edges V)\<^sup>+"
    using e by (auto simp: kid_edges_cut split: if_splits intro: trancl_into_trancl)
  have "topo_ok h' (view_cut r p V) root"
  proof (rule topo_okI [OF T c(2)])
    show "all_free h' (view_cut r p V)" using F topo_free [OF T] by blast
    have "acyclic ((kid_edges V)\<^sup>+)" using topo_acyclic [OF T] by (simp add: acyclic_def)
    then show "acyclic (kid_edges (view_cut r p V))" by (rule acyclic_subset [OF _ sub])
    show "routers h' root \<noteq> None" using topo_root(1) [OF T] rroot dom by simp
    have "root \<notin> snd ` set (V (k, r))" for k
      using repr_in [OF R, of _ root k r] topo_root(2) [OF T] e
        node_ok_NULL [OF repr_node_ok [OF R], of Kid r] by (auto simp: kid_edges_iff [OF R])
    then show "par h' root = NULL" using P [of root] topo_root(2) [OF T] by auto
    show "par h' l \<noteq> NULL" if "leafs h' l \<noteq> None" for l
    proof -
      have l: "leafs h l \<noteq> None" using that ldata_dom [OF c(4)] by simp
      with rl have "l \<noteq> r" by auto
      then show ?thesis using P [of l] p0 topo_leaf [OF T l] by auto
    qed
    show "view_cut r p V (k, q) = []" if q: "routers h' q \<noteq> None" "par h' q = NULL" "q \<noteq> root" for k q
    proof -
      have "q \<noteq> r" "routers h q \<noteq> None" using q(1) dom by auto
      moreover have "par h q = NULL" using P [of q] q(2) p0 calculation by (auto split: if_splits)
      ultimately have nil: "V (k, q) = []" "V (Kid, q) = []"
        using topo_detached [OF T] q(3) by blast+
      then have "q \<noteq> p" using e by (auto simp: kid_edges_def)
      with nil \<open>q \<noteq> r\<close> show ?thesis by (simp add: view_cut_def)
    qed
  qed
  moreover have "hops_mono h' (view_cut r p V) root"
  proof -
    have h: "hops_at h' x = hops_at h x" if "x \<noteq> r" for x using that by (simp add: hops_at_def c(3))
    have "hops_at h' q \<le> hops_at h' x" if "(q, x) \<in> kid_edges (view_cut r p V)" for q x
    proof -
      have "(q, x) \<in> (kid_edges V)\<^sup>*" using sub that by (auto intro: trancl_into_rtrancl)
      then have "hops_at h q \<le> hops_at h x" using hops_mono_path [OF H] by blast
      moreover have "q \<noteq> r" "x \<noteq> r"
        using that tree_no_cycle [OF TV, of r r] tree_parent [OF TV e]
        by (auto simp: kid_edges_cut split: if_splits)
      ultimately show ?thesis using h by simp
    qed
    then show ?thesis using H h rroot by (auto simp: hops_mono_def)
  qed
  moreover have "table_ok J t' h'" if b: b
  proof -
    have "ldata h r = None" using rl by (simp add: ldata_None)
    then have a: "addr_of h r = Some (sin6_addr sa)" using t(1) by (simp add: addr_of_def)
    have "addr_of h' = (addr_of h)(r := None)"
    proof
      fix x
      show "addr_of h' x = ((addr_of h)(r := None)) x"
        using \<open>ldata h r = None\<close> addr_of_at [of h' x h] c(3,4)
        by (cases "x = r") (simp_all add: addr_of_def [of h' r])
    qed
    then have fin: "addr_of h' v = (if v = r then None else addr_of h v)" for v by simp
    have tab: "jhsg J t x = Some v \<longleftrightarrow> addr_of h v = Some x" for x v using D [OF b] by (simp add: table_ok_def)
    have jt: "jhsg J t' x = (if x = sin6_addr sa then None else jhsg J t x)" for x
      by (simp add: t(2) judy_hs.jhsg_jhsd [OF J])
    have uniq: "v = r" if "addr_of h v = Some (sin6_addr sa)" for v
      using tab a that by (metis option.inject)
    have "jhsg J t' x = Some v \<longleftrightarrow> addr_of h' v = Some x" for x v
      unfolding jt fin using tab uniq a by (metis option.distinct(1) option.inject)
    then show ?thesis by (simp add: table_ok_def)
  qed
  ultimately show ?thesis using c(1,3,4) P unfolding disc_inv_def by blast
qed


section \<open>The recursion\<close>

definition enough :: "arguments \<Rightarrow> view \<Rightarrow> ptr \<Rightarrow> bool" where
  "enough A V q \<longleftrightarrow> min_routers A \<le> length (V (Kid, q)) \<or> min_leafs A \<le> length (V (Leaf, q))"

text \<open>
  What reducing the tree below \<open>r\<close> did: nothing outside it but to the list of the parent \<open>p\<close>, in
  which \<open>r\<close> may have been replaced by other routers of its subtree.
\<close>

definition reduced :: "arguments \<Rightarrow> heap \<Rightarrow> view \<Rightarrow> ptr \<Rightarrow> ptr \<Rightarrow> ptr \<Rightarrow> heap \<Rightarrow> view \<Rightarrow> bool" where
  "reduced A h V root p r h' V' \<longleftrightarrow> ldata h' = ldata h \<and>
     (\<forall>q k. q \<notin> down V r \<and> q \<noteq> p \<longrightarrow> V' (k, q) = V (k, q)) \<and>
     (\<forall>q. q \<notin> down V r \<longrightarrow> (routers h' q = None \<longleftrightarrow> routers h q = None) \<and>
       (routers h q \<noteq> None \<longrightarrow> par h' q = par h q)) \<and>
     (r \<noteq> root \<longrightarrow> V' (Kid, p) = V (Kid, p) \<or>
       (\<exists>xs. V' (Kid, p) = xs @ filter (\<lambda>x. snd x \<noteq> r) (V (Kid, p)) \<and> snd ` set xs \<subseteq> down V r)) \<and>
     (\<forall>q \<in> down V r. snd ` set (V' (Kid, q)) \<subseteq> down V r) \<and>
     (\<forall>q \<in> down V r - {root}. routers h' q \<noteq> None \<longrightarrow> enough A V' q)"

text \<open>The state of the loop over the children of \<open>r\<close>, with the cells \<open>ys\<close> still to come.\<close>

definition reducing ::
    "arguments \<Rightarrow> heap \<Rightarrow> view \<Rightarrow> ptr \<Rightarrow> (ptr \<times> ptr) list \<Rightarrow> heap \<Rightarrow> view \<Rightarrow> bool" where
  "reducing A h0 V0 r ys h V \<longleftrightarrow> ldata h = ldata h0 \<and> routers h r \<noteq> None \<and> par h r = par h0 r \<and>
     (\<exists>zs. V (Kid, r) = zs @ ys) \<and> snd ` set ys \<subseteq> snd ` set (V0 (Kid, r)) \<and>
     (\<forall>y \<in> snd ` set ys. \<forall>q \<in> down V0 y. \<forall>k. V (k, q) = V0 (k, q)) \<and>
     (\<forall>q k. q \<notin> down V0 r \<longrightarrow> V (k, q) = V0 (k, q)) \<and>
     (\<forall>q. q \<notin> down V0 r \<longrightarrow> (routers h q = None \<longleftrightarrow> routers h0 q = None) \<and>
       (routers h0 q \<noteq> None \<longrightarrow> par h q = par h0 q)) \<and>
     (\<forall>q \<in> down V0 r. snd ` set (V (Kid, q)) \<subseteq> down V0 r) \<and>
     (\<forall>q \<in> down V0 r - {r} - \<Union> (down V0 ` snd ` set ys). routers h q \<noteq> None \<longrightarrow> enough A V q)"

lemma reduce_end_ok:
  assumes J: "judy_hs J" and I: "disc_inv b J h V root t" and I0: "tree_view V0 root"
    and r: "(root, r) \<in> (kid_edges V)\<^sup>*" and S: "reducing A h0 V0 r [] h V"
    and p: "r = root \<or> (par h0 r, r) \<in> kid_edges V0"
  shows "\<exists>h' t' V'. reduce_end J A r h t = Some (h', t') \<and> disc_inv b J h' V' root t' \<and>
    reduced A h0 V0 root (par h0 r) r h' V'"
proof -
  have T: "topo_ok h V root" using I by (simp add: disc_inv_def)
  note R = topo_repr [OF T] and TV = topo_tree_view [OF T]
  obtain rr where rr: "routers h r = Some rr" using S by (auto simp: reducing_def)
  have rl: "leafs h r = None" by (rule node_ok_disj' [OF repr_node_ok [OF R] rr])
  have parr: "node_parent (router_node rr) = par h r" using par_router [OF rl rr] by simp
  have cnt: "router_nchild rr = length (V (Kid, r))" "router_nleaf rr = length (V (Leaf, r))"
    using repr_list [OF R rlist_Some [OF rr], of Kid] repr_list [OF R rlist_Some [OF rr], of Leaf]
    by (simp_all add: list_ok_def child_list_def leaf_list_def)
  have kept: "reduced A h0 V0 root (par h0 r) r h V" if "r = root \<or> enough A V r"
    using that S p I0 down_kid_self [OF I0, of "par h0 r" r]
    unfolding reducing_def reduced_def by (auto simp: down_def)
  show ?thesis
  proof (cases "par h r = NULL")
    case True
    have "r = root"
      using r by (cases rule: rtranclE) (use True in \<open>auto simp: kid_edges_iff [OF R]\<close>)
    then show ?thesis
      using True rr parr kept I by (intro exI [of _ h] exI [of _ t] exI [of _ V]) (simp add: reduce_end_def)
  next
    case False
    then have e: "(par h r, r) \<in> kid_edges V" using rr by (simp add: kid_edges_iff [OF R])
    have nr: "r \<noteq> root" using tree_root [OF TV] e by auto
    let ?p = "par h0 r"
    have p: "par h r = ?p" "(?p, r) \<in> kid_edges V0" using S p nr by (auto simp: reducing_def)
    show ?thesis
    proof (cases "enough A V r")
      case True
      then show ?thesis
        using False rr parr kept I cnt
        by (intro exI [of _ h] exI [of _ t] exI [of _ V]) (auto simp: reduce_end_def enough_def)
    next
      case few: False
      obtain h' t' where c: "cut_router J r h t = Some (0, h', t')" "disc_inv b J h' (view_cut r ?p V) root t'"
          "rdata h' = (rdata h)(r := None)" "ldata h' = ldata h"
          "\<And>v. par h' v = (if v = r then NULL
            else if v \<in> snd ` set (V (Kid, r)) \<union> snd ` set (V (Leaf, r)) then ?p else par h v)"
        using cut_topo [OF J I e [unfolded p(1)]] by blast
      have dom: "routers h' q = None \<longleftrightarrow> routers h q = None \<or> q = r" for q
        using c(3) by (metis fun_upd_apply rdata_None)
      have pd: "?p \<notin> down V0 r" by (rule down_kid_self [OF I0 p(2)])
      have self: "r \<notin> snd ` set (V (Kid, r))" using tree_no_cycle [OF TV, of r r] by (auto simp: kid_edges_def)
      have kids: "snd ` set (V (Kid, r)) \<subseteq> down V0 r" using S by (simp add: reducing_def)
      have "reduced A h0 V0 root ?p r h' (view_cut r ?p V)"
        unfolding reduced_def
      proof (intro conjI ballI allI impI)
        show "ldata h' = ldata h0" using c(4) S by (simp add: reducing_def)
        show "view_cut r ?p V (k, q) = V0 (k, q)" if "q \<notin> down V0 r \<and> q \<noteq> ?p" for k q
          using that S by (auto simp: view_cut_def reducing_def)
        show "routers h' q = None \<longleftrightarrow> routers h0 q = None" if "q \<notin> down V0 r" for q
          using that S dom [of q] by (auto simp: reducing_def)
        show "par h' q = par h0 q" if q: "q \<notin> down V0 r" "routers h0 q \<noteq> None" for q
        proof -
          have "q \<noteq> r" "q \<notin> snd ` set (V (Kid, r))" using q(1) kids by auto
          moreover have hq: "par h q = par h0 q" "routers h q \<noteq> None" using S q by (simp_all add: reducing_def)
          moreover have "q \<notin> snd ` set (V (Leaf, r))"
            using repr_in [OF R, of _ q Leaf r] hq(2) node_ok_disj' [OF repr_node_ok [OF R], of q] by auto
          ultimately show ?thesis using c(5) [of q] by auto
        qed
        show "view_cut r ?p V (Kid, ?p) = V0 (Kid, ?p) \<or>
            (\<exists>xs. view_cut r ?p V (Kid, ?p) = xs @ filter (\<lambda>x. snd x \<noteq> r) (V0 (Kid, ?p)) \<and>
              snd ` set xs \<subseteq> down V0 r)"
          using pd S kids by (intro disjI2 exI [of _ "V (Kid, r)"]) (auto simp: view_cut_def reducing_def)
        show "snd ` set (view_cut r ?p V (Kid, q)) \<subseteq> down V0 r" if "q \<in> down V0 r" for q
          using that pd S by (auto simp: view_cut_def reducing_def)
        show "enough A (view_cut r ?p V) q" if "q \<in> down V0 r - {root}" "routers h' q \<noteq> None" for q
          using that dom [of q] pd S by (auto simp: view_cut_def reducing_def enough_def)
      qed
      moreover have "reduce_end J A r h t = Some (h', t')"
        using False rr parr cnt few c(1) by (simp add: reduce_end_def enough_def)
      ultimately show ?thesis using c(2) by blast
    qed
  qed
qed


lemma reducing_step:
  assumes TV: "tree_view V0 root" and T: "topo_ok h V root"
    and S: "reducing A h0 V0 r ((c, y) # ys) h V" and R: "reduced A h V root r y h1 V1"
    and dist: "distinct (map snd ((c, y) # ys))" and yr: "y \<noteq> root"
  shows "reducing A h0 V0 r ys h1 V1"
proof -
  note TVV = topo_tree_view [OF T]
  have e: "(r, y) \<in> kid_edges V0" using S by (auto simp: reducing_def kid_edges_def)
  have es: "(r, y') \<in> kid_edges V0" if "y' \<in> snd ` set ys" for y'
    using S that by (auto simp: reducing_def kid_edges_def)
  have down: "down V y = down V0 y" using S by (intro down_cong) (simp add: reducing_def)
  have sub: "down V0 y \<subseteq> down V0 r" by (rule down_kid [OF e])
  have rn: "r \<notin> down V0 y" by (rule down_kid_self [OF TV e])
  have sep: "down V0 y' \<inter> down V0 y = {}" "r \<notin> down V0 y'" if "y' \<in> snd ` set ys" for y'
  proof -
    have "y' \<noteq> y" using that dist by auto
    then show "down V0 y' \<inter> down V0 y = {}" using down_siblings [OF TV es [OF that] e] by simp
    show "r \<notin> down V0 y'" by (rule down_kid_self [OF TV es [OF that]])
  qed
  have same: "V1 (k, q) = V (k, q)" if "q \<notin> down V0 y" "q \<noteq> r" for k q
    using R that by (simp add: reduced_def down)
  have same_r: "routers h1 q = None \<longleftrightarrow> routers h q = None" "routers h q \<noteq> None \<Longrightarrow> par h1 q = par h q"
    if "q \<notin> down V0 y" for q
    using R that by (simp_all add: reduced_def down)
  obtain zs where zs: "V (Kid, r) = zs @ (c, y) # ys" using S by (auto simp: reducing_def)
  have new: "V1 (Kid, r) = V (Kid, r) \<or>
      (\<exists>xs. V1 (Kid, r) = xs @ filter (\<lambda>x. snd x \<noteq> y) (V (Kid, r)) \<and> snd ` set xs \<subseteq> down V0 y)"
    using R yr by (simp add: reduced_def down)
  show ?thesis
    unfolding reducing_def
  proof (intro conjI ballI allI impI)
    show "ldata h1 = ldata h0" using S R by (simp add: reducing_def reduced_def)
    show "routers h1 r \<noteq> None" "par h1 r = par h0 r" using S same_r [OF rn] by (simp_all add: reducing_def)
    show "\<exists>zs. V1 (Kid, r) = zs @ ys"
    proof -
      have "filter (\<lambda>x. snd x \<noteq> y) ys = ys" using dist by (auto simp: filter_id_conv)
      with new zs show ?thesis by auto
    qed
    show "snd ` set ys \<subseteq> snd ` set (V0 (Kid, r))" using S by (simp add: reducing_def)
    show "V1 (k, q) = V0 (k, q)" if "y' \<in> snd ` set ys" "q \<in> down V0 y'" for y' q k
    proof -
      have "q \<notin> down V0 y" "q \<noteq> r" using sep [OF that(1)] that(2) by auto
      then show ?thesis using same S that by (auto simp: reducing_def)
    qed
    show "V1 (k, q) = V0 (k, q)" if q: "q \<notin> down V0 r" for q k
    proof -
      have "q \<notin> down V0 y" "q \<noteq> r" using q sub by auto
      then show ?thesis using same S q by (simp add: reducing_def)
    qed
    show "routers h1 q = None \<longleftrightarrow> routers h0 q = None" if q: "q \<notin> down V0 r" for q
      using same_r(1) [of q] S q sub by (auto simp: reducing_def)
    show "par h1 q = par h0 q" if q: "q \<notin> down V0 r" "routers h0 q \<noteq> None" for q
    proof -
      have "q \<notin> down V0 y" using q sub by auto
      moreover have "routers h q \<noteq> None" "par h q = par h0 q" using S q by (auto simp: reducing_def)
      ultimately show ?thesis using same_r(2) [of q] by simp
    qed
    show "snd ` set (V1 (Kid, q)) \<subseteq> down V0 r" if q: "q \<in> down V0 r" for q
    proof -
      consider "q \<in> down V0 y" | "q = r" | "q \<notin> down V0 y" "q \<noteq> r" by blast
      then show ?thesis
      proof cases
        case 1
        then have "snd ` set (V1 (Kid, q)) \<subseteq> down V0 y" using R by (simp add: reduced_def down)
        with sub show ?thesis by blast
      next
        case 2
        have V: "snd ` set (V (Kid, r)) \<subseteq> down V0 r" using S by (simp add: reducing_def)
        have "snd ` set (V1 (Kid, r)) \<subseteq> snd ` set (V (Kid, r)) \<union> down V0 y"
          using new
        proof
          assume "\<exists>xs. V1 (Kid, r) = xs @ filter (\<lambda>x. snd x \<noteq> y) (V (Kid, r)) \<and> snd ` set xs \<subseteq> down V0 y"
          then obtain xs where xs: "V1 (Kid, r) = xs @ filter (\<lambda>x. snd x \<noteq> y) (V (Kid, r))"
            "snd ` set xs \<subseteq> down V0 y" by blast
          have "set (V1 (Kid, r)) \<subseteq> set xs \<union> set (V (Kid, r))" by (auto simp: xs(1))
          with xs(2) show ?thesis by blast
        qed simp
        with V sub 2 show ?thesis by blast
      next
        case 3
        then show ?thesis using same S q by (simp add: reducing_def)
      qed
    qed
    show "enough A V1 q"
      if q: "q \<in> down V0 r - {r} - \<Union> (down V0 ` snd ` set ys)" "routers h1 q \<noteq> None" for q
    proof (cases "q \<in> down V0 y")
      case True
      then have "q \<noteq> root"
      proof -
        have "(y, q) \<in> (kid_edges V0)\<^sup>*" using True by (simp add: down_def)
        then show ?thesis
          by (cases rule: rtranclE) (use yr tree_root [OF TV] in auto)
      qed
      then show ?thesis using R True q(2) by (simp add: reduced_def down)
    next
      case False
      then have "enough A V q" using S q same_r(1) [OF False] by (auto simp: reducing_def)
      then show ?thesis using same [OF False] q(1) by (auto simp: enough_def)
    qed
  qed
qed

lemma reduce_childs_ok:
  assumes J: "judy_hs J" and TV: "tree_view V0 root" and att: "attached h0 root r"
    and IH: "\<And>h V t y. disc_inv b J h V root t \<Longrightarrow> (root, y) \<in> (kid_edges V)\<^sup>* \<Longrightarrow> below V y < below V0 r \<Longrightarrow>
      \<exists>h' t' V'. reduce_tree J A y h t = Some (h', t') \<and> disc_inv b J h' V' root t' \<and>
        reduced A h V root (par h y) y h' V'"
  shows "disc_inv b J h V root t \<Longrightarrow> reducing A h0 V0 r ys h V \<Longrightarrow> chain (cells h) j ys \<Longrightarrow>
    \<exists>h' t' V'. reduce_childs J A j h t = Some (h', t') \<and> disc_inv b J h' V' root t' \<and>
      reducing A h0 V0 r [] h' V'"
proof (induction ys arbitrary: j h V t)
  case Nil
  then show ?case by (subst reduce_childs_step) auto
next
  case (Cons x ys)
  note I = Cons.prems(1) and S = Cons.prems(2)
  have T: "topo_ok h V root" using I by (simp add: disc_inv_def)
  note R = topo_repr [OF T] and TVV = topo_tree_view [OF T]
  obtain y ce where x: "x = (j, y)" "j \<noteq> NULL" "cells h j = Some ce" "child_v ce = y"
      "chain (cells h) (child_n ce) ys"
    using Cons.prems(3) by (auto elim: chain_ConsE)
  obtain zs where zs: "V (Kid, r) = zs @ (j, y) # ys" using S x(1) by (auto simp: reducing_def)
  then have e: "(r, y) \<in> kid_edges V" by (force simp: kid_edges_def)
  have e0: "(r, y) \<in> kid_edges V0" using S x(1) by (auto simp: reducing_def kid_edges_def)
  have "attached h root r" using S att by (auto simp: reducing_def attached_def)
  then have ry: "(root, y) \<in> (kid_edges V)\<^sup>*"
    using attached_reach [OF T] e by (meson rtrancl.rtrancl_into_rtrancl)
  have "down V y = down V0 y" using S x(1) by (intro down_cong) (simp add: reducing_def)
  then have "below V y < below V0 r"
    using below_kid [OF TV e0] below_down [OF TV] below_down [OF TVV] by simp
  from IH [OF I ry this] obtain h1 t1 V1 where h1: "reduce_tree J A y h t = Some (h1, t1)"
      "disc_inv b J h1 V1 root t1" "reduced A h V root r y h1 V1"
    using e by (auto simp: kid_edges_iff [OF R])
  have yr: "y \<noteq> root" using tree_root [OF TVV] e by auto
  have "distinct (map snd (V (Kid, r)))" by (rule tree_distinct [OF TVV])
  then have "distinct (map snd ((j, y) # ys))" by (simp add: zs)
  then have S1: "reducing A h0 V0 r ys h1 V1"
    using reducing_step [OF TV T _ h1(3) _ yr] S x(1) by blast
  have T1: "topo_ok h1 V1 root" using h1(2) by (simp add: disc_inv_def)
  note R1 = topo_repr [OF T1]
  obtain rr1 where rr1: "routers h1 r = Some rr1" using S1 by (auto simp: reducing_def)
  obtain zs1 where zs1: "V1 (Kid, r) = zs1 @ ys" using S1 by (auto simp: reducing_def)
  have "chain (cells h1) (child_n ce) ys"
  proof (cases ys)
    case Nil
    then show ?thesis using x(5) by simp
  next
    case (Cons z zs')
    have "chain (cells h1) (lh_l (list_of Kid rr1)) (V1 (Kid, r))"
      using repr_list [OF R1 rlist_Some [OF rr1], of Kid] by (simp add: list_ok_def)
    then have "chain (cells h1) (fst z) (z # zs')" using chain_append zs1 Cons by metis
    moreover have "child_n ce = fst z" using chain_head [OF x(5)] Cons by simp
    ultimately show ?thesis using Cons by simp
  qed
  from Cons.IH [OF h1(2) S1 this] obtain h' t' V' where
    "reduce_childs J A (child_n ce) h1 t1 = Some (h', t')" "disc_inv b J h' V' root t'"
    "reducing A h0 V0 r [] h' V'" by blast
  then show ?case
    using x h1(1) by (intro exI [of _ h'] exI [of _ t'] exI [of _ V'], subst reduce_childs_step) simp
qed

lemma reduce_tree_reduces:
  assumes J: "judy_hs J"
  shows "disc_inv b J h V root t \<Longrightarrow> (root, r) \<in> (kid_edges V)\<^sup>* \<Longrightarrow>
    \<exists>h' t' V'. reduce_tree J A r h t = Some (h', t') \<and> disc_inv b J h' V' root t' \<and>
      reduced A h V root (par h r) r h' V'"
proof (induction "below V r" arbitrary: h V t r rule: less_induct)
  case less
  have T: "topo_ok h V root" using less.prems(1) by (simp add: disc_inv_def)
  note R = topo_repr [OF T] and TV = topo_tree_view [OF T]
  have rt: "routers h r \<noteq> None" "r \<noteq> NULL"
  proof -
    show "routers h r \<noteq> None"
      using less.prems(2) by (cases rule: rtranclE)
        (use topo_root(1) [OF T] in \<open>auto simp: kid_edges_iff [OF R]\<close>)
    then show "r \<noteq> NULL" using node_ok_NULL [OF repr_node_ok [OF R], of Kid r] by simp
  qed
  have p: "r = root \<or> (par h r, r) \<in> kid_edges V"
    using less.prems(2) by (cases rule: rtranclE) (auto simp: kid_edges_iff [OF R])
  then have att: "attached h root r" using rt by (auto simp: attached_def kid_edges_iff [OF R])
  obtain rr where rr: "routers h r = Some rr" using rt(1) by blast
  have start: "reducing A h V r (V (Kid, r)) h V"
    unfolding reducing_def
  proof (intro conjI ballI allI impI)
    show "routers h r \<noteq> None" by (rule rt(1))
    show "\<exists>zs. V (Kid, r) = zs @ V (Kid, r)" by simp
    show "snd ` set (V (Kid, q)) \<subseteq> down V r" if "q \<in> down V r" for q
    proof
      fix x
      assume "x \<in> snd ` set (V (Kid, q))"
      then have "(q, x) \<in> kid_edges V" by (simp add: kid_edges_def)
      with that show "x \<in> down V r" by (auto simp: down_def intro: rtrancl.rtrancl_into_rtrancl)
    qed
    show "enough A V q" if q: "q \<in> down V r - {r} - \<Union> (down V ` snd ` set (V (Kid, r)))" for q
    proof -
      obtain y where "(r, y) \<in> kid_edges V" "(y, q) \<in> (kid_edges V)\<^sup>*"
        using q by (auto simp: down_def elim: converse_rtranclE)
      with q show ?thesis by (auto simp: down_def kid_edges_def)
    qed
  qed simp_all
  have ch: "chain (cells h) (router_child rr) (V (Kid, r))"
    using repr_list [OF R rlist_Some [OF rr], of Kid] by (simp add: list_ok_def child_list_def)
  have IH: "\<exists>h' t' V'. reduce_tree J A y h2 t2 = Some (h', t') \<and> disc_inv b J h' V' root t' \<and>
      reduced A h2 V2 root (par h2 y) y h' V'"
    if "disc_inv b J h2 V2 root t2" "(root, y) \<in> (kid_edges V2)\<^sup>*" "below V2 y < below V r" for h2 V2 t2 y
    by (rule less.hyps [OF that(3,1,2)])
  obtain h1 t1 V1 where h1: "reduce_childs J A (router_child rr) h t = Some (h1, t1)"
      "disc_inv b J h1 V1 root t1" "reducing A h V r [] h1 V1"
    using reduce_childs_ok [OF J TV att IH less.prems(1) start ch] by blast
  have T1: "topo_ok h1 V1 root" using h1(2) by (simp add: disc_inv_def)
  have "attached h1 root r" using h1(3) att by (auto simp: reducing_def attached_def)
  then have "(root, r) \<in> (kid_edges V1)\<^sup>*" by (rule attached_reach [OF T1])
  from reduce_end_ok [OF J h1(2) TV this h1(3) p] show ?case
    using rr rt(2) h1(1) by (simp add: reduce_tree_def)
qed


section \<open>The result\<close>

text \<open>From the root: every router left in the tree has enough below it.\<close>

theorem reduce_tree_ok:
  assumes J: "judy_hs J" and I: "disc_inv b J h V root t"
  shows "\<exists>h' t' V'. reduce_tree J A root h t = Some (h', t') \<and> disc_inv b J h' V' root t' \<and>
    ldata h' = ldata h \<and> (\<forall>(p, x) \<in> kid_edges V'. enough A V' x)"
proof -
  obtain h' t' V' where r: "reduce_tree J A root h t = Some (h', t')" "disc_inv b J h' V' root t'"
      "reduced A h V root (par h root) root h' V'"
    using reduce_tree_reduces [OF J I, of root A] by auto
  have T': "topo_ok h' V' root" using r(2) by (simp add: disc_inv_def)
  note R' = topo_repr [OF T']
  have "x \<in> down V root" if "(root, x) \<in> (kid_edges V')\<^sup>*" for x
    using that
  proof (induction rule: rtrancl_induct)
    case (step q x)
    then have "x \<in> snd ` set (V' (Kid, q))" by (simp add: kid_edges_def)
    moreover have "snd ` set (V' (Kid, q)) \<subseteq> down V root" using r(3) step.IH by (simp add: reduced_def)
    ultimately show ?case by blast
  qed simp
  moreover have "(root, x) \<in> (kid_edges V')\<^sup>*" "x \<noteq> root" "routers h' x \<noteq> None"
    if "(p, x) \<in> kid_edges V'" for p x
  proof -
    show "routers h' x \<noteq> None" using that by (simp add: kid_edges_iff [OF R'])
    then have "attached h' root x" using that by (simp add: attached_def kid_edges_iff [OF R'])
    then show "(root, x) \<in> (kid_edges V')\<^sup>*" by (rule attached_reach [OF T'])
    show "x \<noteq> root" using that tree_root [OF topo_tree_view [OF T']] by auto
  qed
  ultimately have "\<forall>(p, x) \<in> kid_edges V'. enough A V' x"
    using r(3) unfolding reduced_def by auto
  then show ?thesis using r by (auto simp: reduced_def)
qed

end
