(* ===== verification/Reset.thy ===== *)
theory Reset
  imports Rx TreeView
begin

text \<open>
  Flattening the tree after the grouping, \<open>rec_reset_tree\<close>: every receiver goes back to the
  sender, every other router leaves the tree with empty lists, zero counters and no distance, so
  that the next discovery phase can find it again.

  \<open>rec_reset_tree\<close> calls itself in its loop over the children, and the call takes the child out of
  the list the loop walks along; the loop has fetched the next cell before. The model is that loop,
  \<open>reset_childs\<close>, with the call inside; what follows the loop is \<open>reset_end\<close>.
\<close>


section \<open>Operations\<close>

text \<open>The second loop: every leaf is adopted by \<open>s\<close>.\<close>

partial_function (option) reset_leafs :: "ptr \<Rightarrow> ptr \<Rightarrow> heap \<Rightarrow> heap option" where
  "reset_leafs s i h =
     (if i = NULL then Some h
      else do {
        ce \<leftarrow> cells h i;
        let j = child_n ce;
        (_, h) \<leftarrow> adopt s i h;
        reset_leafs s j h
      })"

declare reset_leafs.simps [code]

definition reset_counters :: "router \<Rightarrow> router" where
  "reset_counters rr = rr\<lparr>router_nleaf := 0, router_fleaf := 0, router_nchild := 0,
     router_fchild := 0, router_hops := 0\<rparr>"

definition reset_end :: "ptr \<Rightarrow> ptr \<Rightarrow> heap \<Rightarrow> heap option" where
  "reset_end s r h = do {
     rr \<leftarrow> routers h r;
     let p = node_parent (router_node rr);
     if p = NULL then upd_router r (\<lambda>rr. rr\<lparr>router_fleaf := router_nleaf rr\<rparr>) h
     else do {
       h \<leftarrow> reset_leafs s (router_leaf rr) h;
       h \<leftarrow> upd_router r reset_counters h;
       (i, h) \<leftarrow> rm_router p r h;
       free_cell i h
     }
   }"

partial_function (option) reset_childs :: "ptr \<Rightarrow> ptr \<Rightarrow> heap \<Rightarrow> heap option" where
  "reset_childs s i h =
     (if i = NULL then Some h
      else do {
        ce \<leftarrow> cells h i;
        let j = child_n ce;
        let p = child_v ce;
        pr \<leftarrow> routers h p;
        h \<leftarrow> reset_childs s (router_child pr) h;
        h \<leftarrow> reset_end s p h;
        reset_childs s j h
      })"

declare reset_childs.simps [code]

definition rec_reset_tree :: "ptr \<Rightarrow> ptr \<Rightarrow> heap \<Rightarrow> heap option" where
  "rec_reset_tree s r h = do {
     rr \<leftarrow> routers h r;
     h \<leftarrow> reset_childs s (router_child rr) h;
     reset_end s r h
   }"

lemma reset_childs_step:
  "reset_childs s i h =
     (if i = NULL then Some h
      else do {
        ce \<leftarrow> cells h i;
        h \<leftarrow> rec_reset_tree s (child_v ce) h;
        reset_childs s (child_n ce) h
      })"
  unfolding rec_reset_tree_def by (subst reset_childs.simps) (simp add: Let_def)


section \<open>The tree without its free counters\<close>

text \<open>\<open>topo_ok\<close> but for the counters of free elements, which the grouping has used up.\<close>

definition tree_ok :: "heap \<Rightarrow> view \<Rightarrow> ptr \<Rightarrow> bool" where
  "tree_ok h V root \<longleftrightarrow> repr h V \<and> acyclic (kid_edges V) \<and> routers h root \<noteq> None \<and>
     par h root = NULL \<and> (\<forall>l. leafs h l \<noteq> None \<longrightarrow> par h l \<noteq> NULL) \<and>
     (\<forall>k r. routers h r \<noteq> None \<and> par h r = NULL \<and> r \<noteq> root \<longrightarrow> V (k, r) = [])"

lemma topo_tree_ok: "topo_ok h V root \<longleftrightarrow> tree_ok h V root \<and> all_free h V"
  by (auto simp: topo_ok_def tree_ok_def)

lemma tree_okD:
  assumes "tree_ok h V root"
  shows tree_ok_repr: "repr h V" and tree_ok_acyclic: "acyclic (kid_edges V)"
    and tree_ok_root: "routers h root \<noteq> None" "par h root = NULL"
    and tree_ok_leaf: "leafs h l \<noteq> None \<Longrightarrow> par h l \<noteq> NULL"
    and tree_ok_detached: "routers h r \<noteq> None \<Longrightarrow> par h r = NULL \<Longrightarrow> r \<noteq> root \<Longrightarrow> V (k, r) = []"
  using assms unfolding tree_ok_def by blast+

lemma tree_ok_view:
  assumes T: "tree_ok h V root"
  shows "tree_view V root"
proof -
  note R = tree_ok_repr [OF T]
  have "distinct (map snd (V kr))" for kr
    using repr_list [OF R, of kr] repr_None [OF R, of kr] by (cases "rlist h kr") (auto simp: list_ok_def)
  then show ?thesis
    using tree_ok_acyclic [OF T] finite_kid_edges [OF R] tree_ok_root [OF T]
    by (auto simp: tree_view_def kid_edges_iff [OF R])
qed


section \<open>What a reset does\<close>

definition raddrs :: "heap \<Rightarrow> ptr \<Rightarrow> sockaddr_in6 option" where
  "raddrs h r = map_option fst (rdata h r)"

text \<open>
  The routers of the set \<open>D\<close> have left the tree; the others keep their parents, distances and, but
  for the root, their receivers.
\<close>

definition cleared :: "ptr \<Rightarrow> ptr set \<Rightarrow> heap \<Rightarrow> view \<Rightarrow> heap \<Rightarrow> view \<Rightarrow> bool" where
  "cleared root D h V h' V' \<longleftrightarrow> ldata h' = ldata h \<and> raddrs h' = raddrs h \<and>
     (\<forall>q \<in> D. (\<forall>k. V' (k, q) = []) \<and> hops_at h' q = 0 \<and> par h' q = NULL) \<and>
     (\<forall>q. q \<notin> D \<longrightarrow> V' (Kid, q) = filter (\<lambda>x. snd x \<notin> D) (V (Kid, q)) \<and>
       (q \<noteq> root \<longrightarrow> V' (Leaf, q) = V (Leaf, q)) \<and> hops_at h' q = hops_at h q \<and>
       (routers h q \<noteq> None \<longrightarrow> par h' q = par h q))"

lemma raddrs_dom: "raddrs h' = raddrs h \<Longrightarrow> routers h' r = None \<longleftrightarrow> routers h r = None"
  using rdata_None [of h r] rdata_None [of h' r] by (metis option.map_disc_iff raddrs_def)

lemma clearedD:
  assumes "cleared root D h V h' V'"
  shows cleared_data: "ldata h' = ldata h" "raddrs h' = raddrs h"
    and cleared_in: "q \<in> D \<Longrightarrow> V' (k, q) = []" "q \<in> D \<Longrightarrow> hops_at h' q = 0" "q \<in> D \<Longrightarrow> par h' q = NULL"
    and cleared_kid: "q \<notin> D \<Longrightarrow> V' (Kid, q) = filter (\<lambda>x. snd x \<notin> D) (V (Kid, q))"
    and cleared_leaf: "q \<notin> D \<Longrightarrow> q \<noteq> root \<Longrightarrow> V' (Leaf, q) = V (Leaf, q)"
    and cleared_hops: "q \<notin> D \<Longrightarrow> hops_at h' q = hops_at h q"
    and cleared_par: "q \<notin> D \<Longrightarrow> routers h q \<noteq> None \<Longrightarrow> par h' q = par h q"
    and cleared_dom: "routers h' q = None \<longleftrightarrow> routers h q = None"
  using assms raddrs_dom [of h' h q] unfolding cleared_def by simp_all

lemma cleared_refl: "cleared root {} h V h V"
  by (simp add: cleared_def)

lemma cleared_trans:
  assumes 1: "cleared root D h V h1 V1" and 2: "cleared root D' h1 V1 h2 V2" and root: "root \<notin> D"
    "\<And>q. q \<in> D \<Longrightarrow> routers h q \<noteq> None"
  shows "cleared root (D \<union> D') h V h2 V2"
proof -
  note A = clearedD [OF 1] and B = clearedD [OF 2]
  have "V2 (k, q) = []" if "q \<in> D" for k q
    using A(3) [OF that] B(3,6,7) [of q] that root by (cases k; cases "q \<in> D'") auto
  moreover have "hops_at h2 q = 0" if "q \<in> D" for q
    using A(4) [OF that] B(4,8) [of q] by (cases "q \<in> D'") auto
  moreover have "par h2 q = NULL" if "q \<in> D" for q
    using A(5) [OF that] B(5,9) [of q] root(2) [OF that] A(10) [of q] by (cases "q \<in> D'") auto
  ultimately show ?thesis
    unfolding cleared_def using A(1,2,6-10) B(1-9) by (auto simp: conj_commute)
qed



section \<open>One router\<close>

lemma repr_chain:
  assumes R: "repr h V" and c: "chain m j (V (k, r))"
  shows "chain (cells h) j (V (k, r))"
proof (cases "V (k, r)")
  case Nil
  with c show ?thesis by simp
next
  case (Cons x xs)
  then obtain rr where rr: "routers h r = Some rr"
    using repr_None [OF R, of "(k, r)"] by (cases "routers h r") auto
  have "chain (cells h) (lh_l (list_of k rr)) (V (k, r))"
    using repr_list [OF R rlist_Some [OF rr]] by (simp add: list_ok_def)
  with chain_head [OF this] chain_head [OF c] show ?thesis by simp
qed

lemma repr_distinct: "repr h V \<Longrightarrow> distinct (map snd (V kr))"
  using repr_list [of h V kr] repr_None [of h V kr] by (cases "rlist h kr") (auto simp: list_ok_def)

lemma reset_leafs_ok:
  assumes rs: "r \<noteq> s"
  shows "repr h V \<Longrightarrow> routers h s \<noteq> None \<Longrightarrow> V (Leaf, r) = ys \<Longrightarrow> chain (cells h) i ys \<Longrightarrow>
    \<exists>h' V'. reset_leafs s i h = Some h' \<and> repr h' V' \<and> same_data h h' \<and> V' (Leaf, r) = [] \<and>
      (\<forall>kr. kr \<noteq> (Leaf, r) \<and> kr \<noteq> (Leaf, s) \<longrightarrow> V' kr = V kr) \<and>
      (\<forall>v. par h' v = (if v \<in> snd ` set ys then s else par h v))"
proof (induction ys arbitrary: h V i)
  case Nil
  then show ?case by (intro exI [of _ h] exI [of _ V]) (subst reset_leafs.simps, simp)
next
  case (Cons y ys)
  note R = Cons.prems(1)
  obtain n ce where y: "y = (i, n)" "i \<noteq> NULL" "cells h i = Some ce" "chain (cells h) (child_n ce) ys"
    using Cons.prems(4) by (auto elim: chain_ConsE)
  have cn: "(i, n) \<in> set (V (Leaf, r))" using Cons.prems(3) y(1) by simp
  let ?V = "view_add Leaf s (i, n) (view_rm Leaf r n V)"
  obtain h1 where h1: "adopt s i h = Some (0, h1)" "repr h1 ?V" "same_data h h1" "par h1 = (par h)(n := s)"
    using adopt_ok [OF R cn Cons.prems(2)] by blast
  have "distinct (map snd (y # ys))" using repr_distinct [OF R, of "(Leaf, r)"] Cons.prems(3) by simp
  then have d: "n \<notin> snd ` set ys" "filter (\<lambda>x. snd x \<noteq> n) (y # ys) = ys"
    using y(1) by (auto simp: filter_id_conv)
  have V1: "?V (Leaf, r) = ys" using d(2) rs Cons.prems(3) by (simp add: view_add_def view_rm_def)
  have "chain (cells h1) (child_n ce) ys" using repr_chain [OF h1(2), of _ _ Leaf r] y(4) V1 by metis
  moreover have "routers h1 s \<noteq> None" using Cons.prems(2) same_data_dom [OF h1(3)] by simp
  ultimately obtain h' V' where h': "reset_leafs s (child_n ce) h1 = Some h'" "repr h' V'" "same_data h1 h'"
      "V' (Leaf, r) = []" "\<forall>kr. kr \<noteq> (Leaf, r) \<and> kr \<noteq> (Leaf, s) \<longrightarrow> V' kr = ?V kr"
      "\<forall>v. par h' v = (if v \<in> snd ` set ys then s else par h1 v)"
    using Cons.IH [OF h1(2) _ V1] by blast
  have "reset_leafs s i h = Some h'" using y h1(1) h'(1) by (subst reset_leafs.simps) simp
  moreover have "V' kr = V kr" if "kr \<noteq> (Leaf, r)" "kr \<noteq> (Leaf, s)" for kr
  proof -
    have "V' kr = ?V kr" using that h'(5) by blast
    then show ?thesis using that by (simp add: view_add_def view_rm_def)
  qed
  moreover have "par h' v = (if v \<in> snd ` set (y # ys) then s else par h v)" for v
    using h'(6) y(1) by (auto simp: h1(4))
  ultimately show ?case using h'(2-4) h1(3) same_data_trans by blast
qed

lemma repr_del_cell:
  assumes R: "repr h V" and c: "\<And>kr. c \<notin> fst ` set (V kr)"
  shows "repr (del_cell c h) V"
proof -
  have N: "node_ok (del_cell c h)"
    using repr_node_ok [OF R] by (auto simp: node_ok_def del_cell_def)
  have "list_ok (cells (del_cell c h)) l (V kr)" if "rlist h kr = Some l" for kr l
    using repr_list [OF R that] c [of kr] by (auto simp: list_ok_def del_cell_def intro: chain_upd)
  then show ?thesis using R N unfolding repr_def by (simp add: del_cell_def mem_simps)
qed

text \<open>With both lists empty all that \<open>reset_counters\<close> changes is the distance.\<close>

lemma reset_counters_hops:
  assumes R: "repr h V" and r: "routers h r \<noteq> None" "\<And>k. V (k, r) = []"
  shows "upd_router r reset_counters h = Some (set_hops r 0 h)"
proof -
  obtain rr where rr: "routers h r = Some rr" using r(1) by blast
  have "lh_n (list_of k rr) = 0 \<and> lh_f (list_of k rr) = 0" for k
    using repr_list [OF R rlist_Some [OF rr], of k] r(2) [of k] by (simp add: list_ok_def)
  from this [of Kid] this [of Leaf] have "reset_counters rr = router_hops_update (\<lambda>_. 0) rr"
    by (simp add: reset_counters_def child_list_def leaf_list_def)
  then show ?thesis using rr by (simp add: upd_router_def set_hops_def)
qed

lemma repr_set_hops: "repr h V \<Longrightarrow> repr (set_hops r n h) V"
  by (rule repr_cong) (simp_all add: mem_simps node_ok_set_hops repr_node_ok)


lemma reset_end_ok:
  assumes T: "tree_ok h V root" and p: "(p, r) \<in> kid_edges V" and nil: "V (Kid, r) = []"
  shows "\<exists>h' V'. reset_end root r h = Some h' \<and> tree_ok h' V' root \<and> cleared root {r} h V h' V'"
proof -
  note R = tree_ok_repr [OF T] and TV = tree_ok_view [OF T]
  have r: "routers h r \<noteq> None" "par h r = p" "p \<noteq> NULL" using p by (auto simp: kid_edges_iff [OF R])
  have rroot: "r \<noteq> root" "p \<noteq> r" using tree_root [OF TV] p tree_no_cycle [OF TV p] by auto
  obtain rr where rr: "routers h r = Some rr" using r(1) by blast
  have rl: "leafs h r = None" by (rule node_ok_disj' [OF repr_node_ok [OF R] rr])
  have ch: "chain (cells h) (router_leaf rr) (V (Leaf, r))"
    using repr_list [OF R rlist_Some [OF rr], of Leaf] by (simp add: list_ok_def leaf_list_def)
  obtain h1 V1 where h1: "reset_leafs root (router_leaf rr) h = Some h1" "repr h1 V1" "same_data h h1"
      "V1 (Leaf, r) = []" "\<forall>kr. kr \<noteq> (Leaf, r) \<and> kr \<noteq> (Leaf, root) \<longrightarrow> V1 kr = V kr"
      "\<forall>v. par h1 v = (if v \<in> snd ` set (V (Leaf, r)) then root else par h v)"
    using reset_leafs_ok [OF rroot(1) R tree_ok_root(1) [OF T] refl ch] by blast
  note dom1 = same_data_dom [OF h1(3)]
  have leaf_only: "leafs h v \<noteq> None" if "v \<in> snd ` set (V (Leaf, r))" for v
    using that repr_in [OF R, of _ v Leaf r] by auto
  have par1: "par h1 q = par h q" if "routers h q \<noteq> None" for q
  proof -
    have "leafs h q = None" using that node_ok_disj' [OF repr_node_ok [OF R], of q] by auto
    then have "q \<notin> snd ` set (V (Leaf, r))" using leaf_only by blast
    then show ?thesis using h1(6) by simp
  qed
  have nil1: "V1 (k, r) = []" for k using h1(4,5) nil by (cases k) auto
  have V1: "V1 (Kid, q) = V (Kid, q)" "q \<noteq> r \<Longrightarrow> q \<noteq> root \<Longrightarrow> V1 (Leaf, q) = V (Leaf, q)" for q
    using h1(5) by auto
  have upd: "upd_router r reset_counters h1 = Some (set_hops r 0 h1)"
    using reset_counters_hops [OF h1(2) _ nil1] r(1) dom1 by simp
  have R2: "repr (set_hops r 0 h1) V1" by (rule repr_set_hops [OF h1(2)])
  obtain c where c: "(c, r) \<in> set (V1 (Kid, p))" using p V1(1) by (auto simp: kid_edges_def)
  let ?V = "view_rm Kid p r V1"
  obtain h3 where h3: "rm_node Kid p r (set_hops r 0 h1) = Some (c, h3)" "repr h3 ?V"
      "same_data (set_hops r 0 h1) h3" "par h3 = (par h1)(r := NULL)"
      "cells h3 c = Some \<lparr>child_v = r, child_n = NULL\<rparr>"
    using rm_node_view [OF R2 c] by (auto simp: mem_simps)
  have "c \<notin> fst ` set (?V kr)" for kr
    using repr_loose_cell [OF h3(2,5)] h3(4) by (cases kr) simp
  then have R4: "repr (del_cell c h3) ?V" by (rule repr_del_cell [OF h3(2)])
  let ?h = "del_cell c h3"
  have obs: "rdata ?h = rdata (set_hops r 0 h1)" "ldata ?h = ldata h" "par ?h = (par h1)(r := NULL)"
    "leafs ?h l = None \<longleftrightarrow> leafs h l = None" for l
    using h3(3,4) h1(3) same_data_dom [OF h3(3)] same_data_dom [OF h1(3)]
    by (auto simp: del_cell_def mem_simps same_data_def)
  have dom: "routers ?h q = None \<longleftrightarrow> routers h q = None" for q
    using same_data_dom(1) [OF h3(3)] dom1 by (simp add: del_cell_def mem_simps)
  have "leafs (set_hops r 0 h1) r = None" using rl dom1 by (simp add: mem_simps)
  moreover have "c \<noteq> NULL" using repr_node_ok [OF h3(2)] h3(5) by (auto simp: node_ok_def intro!: gr0I)
  ultimately have run: "reset_end root r h = Some ?h"
    using rr r(2,3) par_router [OF rl rr] h1(1) upd h3(1,5)
    by (simp add: reset_end_def rm_router_node free_ok)
  have hops: "hops_at ?h q = (if q = r then 0 else hops_at h q)" for q
  proof -
    have "routers h1 r \<noteq> None" "rdata h1 = rdata h" using dom1 r(1) h1(3) by (simp_all add: same_data_def)
    then show ?thesis using obs(1) hops_at_set_hops [of h1 r 0 q] by (simp add: hops_at_def)
  qed
  have V: "?V (k, r) = []" "q \<noteq> r \<Longrightarrow> ?V (Kid, q) = filter (\<lambda>x. snd x \<noteq> r) (V (Kid, q))"
    "q \<noteq> r \<Longrightarrow> q \<noteq> root \<Longrightarrow> ?V (Leaf, q) = V (Leaf, q)" for k q
  proof -
    show "?V (k, r) = []" using nil1 rroot by (simp add: view_rm_def)
    show "?V (Leaf, q) = V (Leaf, q)" if "q \<noteq> r" "q \<noteq> root" using that V1 by (simp add: view_rm_def)
    have "filter (\<lambda>x. snd x \<noteq> r) (V (Kid, q)) = V (Kid, q)" if "q \<noteq> p"
      using that tree_parent [OF TV p, of q] by (force simp: filter_id_conv kid_edges_def)
    then show "?V (Kid, q) = filter (\<lambda>x. snd x \<noteq> r) (V (Kid, q))" using V1 by (simp add: view_rm_def)
  qed
  have "raddrs ?h x = raddrs h x" for x
    using obs(1) h1(3) by (cases "rdata h r") (auto simp: raddrs_def mem_simps same_data_def)
  then have "raddrs ?h = raddrs h" ..
  then have C: "cleared root {r} h V ?h ?V"
    using V hops par1 obs(2,3) unfolding cleared_def by auto
  have "tree_ok ?h ?V root"
    unfolding tree_ok_def
  proof (intro conjI allI impI R4)
    have "kid_edges ?V \<subseteq> kid_edges V"
      using V1(1) by (auto simp: kid_edges_def view_rm_def split: if_splits)
    then show "acyclic (kid_edges ?V)" using tree_ok_acyclic [OF T] acyclic_subset by blast
    show "routers ?h root \<noteq> None" using dom tree_ok_root [OF T] by simp
    show "par ?h root = NULL"
      using rroot tree_ok_root [OF T] par1 [of root] by (simp add: obs(3))
    show "par ?h l \<noteq> NULL" if "leafs ?h l \<noteq> None" for l
    proof -
      have l: "leafs h l \<noteq> None" using that obs(4) by simp
      then have "l \<noteq> r" using rl by auto
      moreover have "root \<noteq> NULL"
        using node_ok_NULL [OF repr_node_ok [OF R], of Kid root] tree_ok_root [OF T] by simp
      ultimately show ?thesis using tree_ok_leaf [OF T l] h1(6) by (simp add: obs(3))
    qed
    show "?V (k, q) = []" if q: "routers ?h q \<noteq> None \<and> par ?h q = NULL \<and> q \<noteq> root" for k q
    proof (cases "q = r")
      case False
      with q have "routers h q \<noteq> None" "par h q = NULL" using dom par1 [of q] by (auto simp: obs(3))
      then have "V (k', q) = []" for k' using tree_ok_detached [OF T] q by blast
      then show ?thesis using V(2,3) [OF False] q by (cases k) auto
    qed (simp add: V)
  qed
  with run C show ?thesis by blast
qed



section \<open>The recursion\<close>

definition kids_down :: "view \<Rightarrow> (ptr \<times> ptr) list \<Rightarrow> ptr set" where
  "kids_down V ys = (\<Union>y \<in> snd ` set ys. down V y)"

lemma kids_down_Cons: "kids_down V ((c, y) # ys) = down V y \<union> kids_down V ys"
  by (simp add: kids_down_def)

lemma down_kids: "down V r = insert r (kids_down V (V (Kid, r)))"
proof -
  have "x \<in> down V r \<longleftrightarrow> x = r \<or> x \<in> kids_down V (V (Kid, r))" for x
    by (auto simp: down_def kids_down_def kid_edges_def elim: converse_rtranclE
        intro: converse_rtrancl_into_rtrancl)
  then show ?thesis by blast
qed

lemma down_router: "repr h V \<Longrightarrow> (r, y) \<in> kid_edges V \<Longrightarrow> q \<in> down V y \<Longrightarrow> routers h q \<noteq> None"
  by (auto simp: down_def kid_edges_iff elim: rtranclE)

lemma root_not_down: "tree_view V root \<Longrightarrow> (r, y) \<in> kid_edges V \<Longrightarrow> root \<notin> down V y"
  by (auto simp: down_def elim: rtranclE dest: tree_root)

lemma cleared_below:
  assumes T: "tree_view V root" and R: "repr h' V'" and C: "cleared root D h V h' V'"
  shows "kid_edges V' \<subseteq> kid_edges V" "tree_view V' root \<Longrightarrow> below V' r \<le> below V r"
proof -
  show sub: "kid_edges V' \<subseteq> kid_edges V"
  proof
    fix e
    assume e: "e \<in> kid_edges V'"
    obtain q x where q: "e = (q, x)" "x \<in> snd ` set (V' (Kid, q))" using e by (auto simp: kid_edges_def)
    then have "q \<notin> D" using cleared_in(1) [OF C, of q Kid] by auto
    from cleared_kid [OF C this] q show "e \<in> kid_edges V" by (auto simp: kid_edges_def)
  qed
  show "below V' r \<le> below V r"
    unfolding below_def
  proof (rule card_mono [OF finite_below [OF T]])
    show "{x. (r, x) \<in> (kid_edges V')\<^sup>+} \<subseteq> {x. (r, x) \<in> (kid_edges V)\<^sup>+}"
      using trancl_mono [OF _ sub] by blast
  qed
qed

text \<open>The routers below the other children are not touched.\<close>

lemma cleared_sibling:
  assumes T: "tree_view V root" and C: "cleared root (down V y) h V h' V'"
    and V: "V (Kid, r) = (c, y) # ys"
  shows "V' (Kid, r) = ys" "kids_down V' ys = kids_down V ys"
proof -
  have e: "(r, y) \<in> kid_edges V" and es: "\<And>x. x \<in> snd ` set ys \<Longrightarrow> (r, x) \<in> kid_edges V"
    using V by (auto simp: kid_edges_def)
  have "distinct (map snd (V (Kid, r)))" by (rule tree_distinct [OF T])
  then have d: "y \<notin> snd ` set ys" using V by simp
  then have sep: "down V x \<inter> down V y = {}" if "x \<in> snd ` set ys" for x
    using down_siblings [OF T es [OF that] e] that by blast
  have out: "snd x \<notin> down V y" if "x \<in> set ys" for x
    using sep [of "snd x"] down_self [of "snd x" V] that by blast
  show "V' (Kid, r) = ys"
    using cleared_kid [OF C down_kid_self [OF T e]] V out by (simp add: filter_id_conv)
  have "down V' x = down V x" if x: "x \<in> snd ` set ys" for x
  proof (rule down_cong)
    fix q
    assume q: "q \<in> down V x"
    have "snd z \<notin> down V y" if "z \<in> set (V (Kid, q))" for z
    proof -
      have "(q, snd z) \<in> kid_edges V" using that by (force simp: kid_edges_def)
      then have "snd z \<in> down V x" using q by (auto simp: down_def intro: rtrancl.rtrancl_into_rtrancl)
      then show ?thesis using sep [OF x] by blast
    qed
    then show "V' (Kid, q) = V (Kid, q)"
      using cleared_kid [OF C, of q] sep [OF x] q by (auto simp: filter_id_conv)
  qed
  then show "kids_down V' ys = kids_down V ys" by (simp add: kids_down_def)
qed

lemma reset_childs_ok:
  assumes IH: "\<And>h V p y. tree_ok h V root \<Longrightarrow> (p, y) \<in> kid_edges V \<Longrightarrow> below V y < n \<Longrightarrow>
      \<exists>h' V'. rec_reset_tree root y h = Some h' \<and> tree_ok h' V' root \<and> cleared root (down V y) h V h' V'"
  shows "tree_ok h V root \<Longrightarrow> below V r \<le> n \<Longrightarrow> V (Kid, r) = ys \<Longrightarrow> chain (cells h) i ys \<Longrightarrow>
    \<exists>h' V'. reset_childs root i h = Some h' \<and> tree_ok h' V' root \<and>
      cleared root (kids_down V ys) h V h' V'"
proof (induction ys arbitrary: h V i)
  case Nil
  then show ?case
    by (intro exI [of _ h] exI [of _ V]) (subst reset_childs.simps, simp add: kids_down_def cleared_refl)
next
  case (Cons x ys)
  note T = Cons.prems(1)
  note R = tree_ok_repr [OF T] and TV = tree_ok_view [OF T]
  obtain y ce where y: "x = (i, y)" "i \<noteq> NULL" "cells h i = Some ce" "child_v ce = y"
      "chain (cells h) (child_n ce) ys"
    using Cons.prems(4) by (auto elim: chain_ConsE)
  have V: "V (Kid, r) = (i, y) # ys" using Cons.prems(3) y(1) by simp
  then have e: "(r, y) \<in> kid_edges V" by (auto simp: kid_edges_def)
  have "below V y < n" using below_kid [OF TV e] Cons.prems(2) by simp
  from IH [OF T e this] obtain h1 V1 where h1: "rec_reset_tree root y h = Some h1" "tree_ok h1 V1 root"
      "cleared root (down V y) h V h1 V1" by blast
  note sib = cleared_sibling [OF TV h1(3) V]
  have R1: "repr h1 V1" by (rule tree_ok_repr [OF h1(2)])
  have "below V1 r \<le> n"
    using cleared_below(2) [OF TV R1 h1(3) tree_ok_view [OF h1(2)], of r] Cons.prems(2) by simp
  moreover have "chain (cells h1) (child_n ce) ys" using repr_chain [OF R1, of _ _ Kid r] y(5) sib(1) by metis
  ultimately obtain h' V' where h': "reset_childs root (child_n ce) h1 = Some h'" "tree_ok h' V' root"
      "cleared root (kids_down V1 ys) h1 V1 h' V'"
    using Cons.IH [OF h1(2) _ sib(1)] by blast
  have "reset_childs root i h = Some h'"
    using y h1(1) h'(1) by (subst reset_childs_step) simp
  moreover have "cleared root (down V y \<union> kids_down V ys) h V h' V'"
    using cleared_trans [OF h1(3) h'(3)] root_not_down [OF TV e] down_router [OF R e] sib(2) by simp
  ultimately show ?case using h'(2) by (auto simp: y(1) kids_down_Cons)
qed

lemma rec_reset_tree_clears:
  "tree_ok h V root \<Longrightarrow> (p, r) \<in> kid_edges V \<Longrightarrow>
   \<exists>h' V'. rec_reset_tree root r h = Some h' \<and> tree_ok h' V' root \<and> cleared root (down V r) h V h' V'"
proof (induction "below V r" arbitrary: h V p r rule: less_induct)
  case less
  note T = less.prems(1) and e = less.prems(2)
  note R = tree_ok_repr [OF T] and TV = tree_ok_view [OF T]
  obtain rr where rr: "routers h r = Some rr" using e by (auto simp: kid_edges_iff [OF R])
  have ch: "chain (cells h) (router_child rr) (V (Kid, r))"
    using repr_list [OF R rlist_Some [OF rr], of Kid] by (simp add: list_ok_def child_list_def)
  have IH: "\<exists>h' V'. rec_reset_tree root y h2 = Some h' \<and> tree_ok h' V' root \<and>
      cleared root (down V2 y) h2 V2 h' V'"
    if "tree_ok h2 V2 root" "(q, y) \<in> kid_edges V2" "below V2 y < below V r" for h2 V2 q y
    by (rule less.hyps [OF that(3,1,2)])
  obtain h1 V1 where h1: "reset_childs root (router_child rr) h = Some h1" "tree_ok h1 V1 root"
      "cleared root (kids_down V (V (Kid, r))) h V h1 V1"
  proof -
    have "\<exists>h1 V1. reset_childs root (router_child rr) h = Some h1 \<and> tree_ok h1 V1 root \<and>
        cleared root (kids_down V (V (Kid, r))) h V h1 V1"
      by (rule reset_childs_ok [OF _ T order_refl refl ch]) (erule (2) IH)
    then show thesis using that by blast
  qed
  have out: "q \<notin> kids_down V (V (Kid, r))" if "q = p \<or> q = r" for q
  proof -
    have "q \<notin> down V y" if "y \<in> snd ` set (V (Kid, r))" for y
    proof
      assume "q \<in> down V y"
      then have "(r, q) \<in> (kid_edges V)\<^sup>+"
        using that by (auto simp: down_def kid_edges_def intro: rtrancl_into_trancl2)
      then have "(q, q) \<in> (kid_edges V)\<^sup>+"
        using \<open>q = p \<or> q = r\<close> e by (auto intro: trancl_into_trancl2)
      then show False using tree_acyclic [OF TV] by (simp add: acyclic_def)
    qed
    then show ?thesis by (auto simp: kids_down_def)
  qed
  have nil: "V1 (Kid, r) = []"
  proof -
    have "snd x \<in> kids_down V (V (Kid, r))" if "x \<in> set (V (Kid, r))" for x
      using that down_self [of "snd x" V] by (force simp: kids_down_def)
    then show ?thesis using cleared_kid [OF h1(3) out, of r] by (simp add: filter_empty_conv)
  qed
  have "(p, r) \<in> kid_edges V1"
    using e cleared_kid [OF h1(3) out, of p] out [of r] by (auto simp: kid_edges_def)
  from reset_end_ok [OF h1(2) this nil] obtain h' V' where h': "reset_end root r h1 = Some h'"
      "tree_ok h' V' root" "cleared root {r} h1 V1 h' V'" by blast
  have "down V r = kids_down V (V (Kid, r)) \<union> {r}" by (simp add: down_kids)
  moreover have "root \<notin> kids_down V (V (Kid, r))" "\<And>q. q \<in> kids_down V (V (Kid, r)) \<Longrightarrow> routers h q \<noteq> None"
    using root_not_down [OF TV e] down_router [OF R e] by (auto simp: down_kids)
  ultimately have "cleared root (down V r) h V h' V'" using cleared_trans [OF h1(3) h'(3)] by simp
  then show ?case using rr h1(1) h'(1,2) by (auto simp: rec_reset_tree_def)
qed



section \<open>The result\<close>

text \<open>At the root: only the counter of its free leafs changes, to the number of its leafs.\<close>

lemma free_all_leafs:
  assumes T: "tree_ok h V root" and nil: "\<And>k q. (k, q) \<noteq> (Leaf, root) \<Longrightarrow> V (k, q) = []"
  shows "\<exists>h'. upd_router root (\<lambda>rr. rr\<lparr>router_fleaf := router_nleaf rr\<rparr>) h = Some h' \<and>
    topo_ok h' V root \<and> same_data h h' \<and> par h' = par h"
proof -
  note R = tree_ok_repr [OF T]
  obtain rr where rr: "routers h root = Some rr" using tree_ok_root [OF T] by blast
  let ?l = "(leaf_list rr)\<lparr>lh_f := lh_n (leaf_list rr)\<rparr>"
  let ?h = "put Leaf root ?l h"
  have "put_leaf_list ?l rr = rr\<lparr>router_fleaf := router_nleaf rr\<rparr>"
    by (simp add: put_leaf_list_def leaf_list_def)
  then have run: "upd_router root (\<lambda>rr. rr\<lparr>router_fleaf := router_nleaf rr\<rparr>) h = Some ?h"
    using rr by (simp add: upd_router_def put_def)
  have L: "rlist ?h = (rlist h)((Leaf, root) \<mapsto> ?l)" using rr by (simp add: rlist_put)
  have ok: "list_ok (cells h) (leaf_list rr) (V (Leaf, root))"
    using repr_list [OF R rlist_Some [OF rr], of Leaf] by simp
  then have ok': "list_ok (cells h) ?l (V (Leaf, root))" by (simp add: list_ok_def)
  have "repr ?h (V((Leaf, root) := V (Leaf, root)))"
  proof (rule repr_upd [OF R _ L])
    show "has h Leaf v \<and> par ?h v = root" if "(c, v) \<in> set (V (Leaf, root))" for c v
      using repr_in [OF R that] by (simp add: mem_simps)
    show "v \<in> snd ` set ((V((Leaf, root) := V (Leaf, root))) (k, par ?h v))"
      if "has h k v" "par ?h v \<noteq> NULL" for k v
      using repr_par [OF R that(1)] that(2) by (simp add: mem_simps)
  qed (use ok' repr_in [OF R] in \<open>auto simp: mem_simps repr_node_ok [OF R]\<close>)
  then have R': "repr ?h V" by simp
  have "all_free ?h V"
    unfolding all_free_def
  proof
    fix kr
    show "free_of ?h kr = length (V kr)"
    proof (cases "kr = (Leaf, root)")
      case True
      then have "free_of ?h kr = lh_n (leaf_list rr)" by (simp add: free_of_rlist [OF L])
      then show ?thesis using ok True by (simp add: list_ok_def)
    next
      case False
      then have "V kr = []" using nil by (cases kr) simp
      moreover have "free_of h kr = 0"
        using repr_list [OF R, of kr] \<open>V kr = []\<close> by (auto simp: free_of_def list_ok_def split: option.splits)
      ultimately show ?thesis using False by (simp add: free_of_rlist [OF L])
    qed
  qed
  moreover have S: "same_data h ?h" by (simp add: same_data_def mem_simps)
  moreover have "tree_ok ?h V root"
    using T R' same_data_dom [OF S] unfolding tree_ok_def by (simp add: mem_simps)
  ultimately show ?thesis using run by (simp add: topo_tree_ok mem_simps)
qed

text \<open>
  After the reset the tree is the sender with all receivers and nothing else; every address, and so
  the table, is as before, and the routers that were in the tree have lost their distance.
\<close>

theorem rec_reset_tree_ok:
  assumes T: "tree_ok h V root" and root: "hops_at h root = 0"
  shows "\<exists>h' V'. rec_reset_tree root root h = Some h' \<and> topo_ok h' V' root \<and> hops_mono h' V' root \<and>
    ldata h' = ldata h \<and> raddrs h' = raddrs h \<and>
    snd ` set (V' (Leaf, root)) = {l. leafs h l \<noteq> None} \<and>
    (\<forall>k q. (k, q) \<noteq> (Leaf, root) \<longrightarrow> V' (k, q) = []) \<and>
    (\<forall>q. q \<noteq> root \<and> routers h q \<noteq> None \<longrightarrow> par h' q = NULL) \<and>
    (\<forall>q. q \<noteq> root \<and> attached h root q \<longrightarrow> hops_at h' q = 0)"
proof -
  note R = tree_ok_repr [OF T] and TV = tree_ok_view [OF T]
  obtain rr where rr: "routers h root = Some rr" using tree_ok_root [OF T] by blast
  have ch: "chain (cells h) (router_child rr) (V (Kid, root))"
    using repr_list [OF R rlist_Some [OF rr], of Kid] by (simp add: list_ok_def child_list_def)
  let ?D = "kids_down V (V (Kid, root))"
  obtain h1 V1 where h1: "reset_childs root (router_child rr) h = Some h1" "tree_ok h1 V1 root"
      "cleared root ?D h V h1 V1"
    using reset_childs_ok [OF _ T order_refl refl ch] rec_reset_tree_clears by blast
  note C = clearedD [OF h1(3)] and R1 = tree_ok_repr [OF h1(2)]
  have rootD: "root \<notin> ?D" using root_not_down [OF TV] by (auto simp: kids_down_def kid_edges_def)
  have D: "q \<in> ?D" if "attached h root q" "q \<noteq> root" for q
  proof -
    have "(root, q) \<in> (kid_edges V)\<^sup>*"
      using that
    proof (induction q rule: wf_induct_rule [OF tree_wf(1) [OF TV]])
      case (1 q)
      have e: "(par h q, q) \<in> kid_edges V" using 1(2,3) by (auto simp: attached_def kid_edges_iff [OF R])
      have "routers h (par h q) \<noteq> None" by (rule kid_edges_router [OF R e])
      moreover have "par h q = root \<or> par h (par h q) \<noteq> NULL"
        using tree_ok_detached [OF T calculation, of Kid] e
        by (cases "par h q = root"; cases "par h (par h q) = NULL") (auto simp: kid_edges_def)
      ultimately have "(root, par h q) \<in> (kid_edges V)\<^sup>*"
        using 1(1) [OF e] by (cases "par h q = root") (auto simp: attached_def)
      with e show ?case by (rule rtrancl.rtrancl_into_rtrancl [rotated])
    qed
    then have "q \<in> down V root" by (simp add: down_def)
    with that show ?thesis by (simp add: down_kids [of V root])
  qed
  have det: "V1 (k, q) = [] \<and> (routers h q \<noteq> None \<longrightarrow> par h1 q = NULL)" if q: "q \<noteq> root" for k q
  proof (cases "q \<in> ?D")
    case True
    then show ?thesis using C(3,5) by blast
  next
    case False
    then have "routers h q = None \<or> par h q = NULL" using D [of q] q by (cases "routers h q") (auto simp: attached_def)
    then have "par h1 q = NULL \<or> routers h1 q = None" using C(9) [OF False] C(10) by auto
    then show ?thesis
      using tree_ok_detached [OF h1(2) _ _ q] repr_None [OF R1, of "(k, q)"] C(10) [of q] by auto
  qed
  have nilroot: "V1 (Kid, root) = []"
  proof -
    have "snd x \<in> ?D" if "x \<in> set (V (Kid, root))" for x
      using that down_self [of "snd x" V] by (force simp: kids_down_def)
    then show ?thesis using C(6) [OF rootD] by (simp add: filter_empty_conv)
  qed
  have nil: "V1 (k, q) = []" if "(k, q) \<noteq> (Leaf, root)" for k q
    using that det nilroot by (cases k; cases "q = root") auto
  obtain h2 where h2: "upd_router root (\<lambda>rr. rr\<lparr>router_fleaf := router_nleaf rr\<rparr>) h1 = Some h2"
      "topo_ok h2 V1 root" "same_data h1 h2" "par h2 = par h1"
    using free_all_leafs [OF h1(2) nil] by blast
  obtain rr1 where rr1: "routers h1 root = Some rr1" using tree_ok_root [OF h1(2)] by blast
  have "node_parent (router_node rr1) = NULL"
    using par_router [OF node_ok_disj' [OF repr_node_ok [OF R1] rr1] rr1] tree_ok_root [OF h1(2)] by simp
  then have run: "rec_reset_tree root root h = Some h2"
    using rr rr1 h1(1) h2(1) by (simp add: rec_reset_tree_def reset_end_def)
  have data: "ldata h2 = ldata h" "raddrs h2 = raddrs h" "hops_at h2 q = hops_at h1 q" for q
    using h2(3) C(1,2) by (simp_all add: same_data_def raddrs_def hops_at_def fun_eq_iff)
  have "l \<in> snd ` set (V1 (Leaf, root)) \<longleftrightarrow> leafs h l \<noteq> None" for l
  proof
    assume "l \<in> snd ` set (V1 (Leaf, root))"
    then have "leafs h1 l \<noteq> None" using repr_in [OF R1, of _ l Leaf root] by auto
    then show "leafs h l \<noteq> None" using ldata_dom [OF C(1)] by simp
  next
    assume "leafs h l \<noteq> None"
    then have l: "leafs h1 l \<noteq> None" using ldata_dom [OF C(1)] by simp
    from repr_par [OF R1, of Leaf l] l tree_ok_leaf [OF h1(2) l] det [of "par h1 l" Leaf]
    show "l \<in> snd ` set (V1 (Leaf, root))" by (cases "par h1 l = root") auto
  qed
  moreover have "hops_mono h2 V1 root"
  proof -
    have "kid_edges V1 = {}" using nil [of Kid] by (auto simp: kid_edges_def)
    then show ?thesis using root C(8) [OF rootD] by (simp add: hops_mono_def data(3))
  qed
  moreover have "hops_at h2 q = 0" if "q \<noteq> root" "attached h root q" for q
    using C(4) D [OF that(2,1)] data(3) by simp
  ultimately show ?thesis
    using run h2(2,4) data(1,2) det nil
    by (intro exI [of _ h2] exI [of _ V1] conjI allI impI) (simp_all add: set_eq_iff)
qed

end
