(* ===== verification/Grouping.thy ===== *)
theory Grouping
  imports TopoInv Args
begin

text \<open>
  The greedy grouping of \<open>tree.c\<close>: the operations. \<open>get_start\<close> finds the router to start a group
  at, \<open>back_propagate\<close> takes a used-up router out of its parent's free children, \<open>add2txg\<close> appends
  receivers to the address list of the current group, \<open>finish_txg\<close> turns that list into a header,
  and \<open>greedy_grouping\<close> runs through the tree with them until only the receivers at the root are
  left.

  The four static variables of the file (the closest router \<open>cr\<close> and what belongs to it) are
  the record \<open>merging\<close>; the local variables of \<open>greedy_grouping\<close> that live across its labels are
  the record \<open>gg\<close>.
\<close>


section \<open>Finding a start\<close>

text \<open>The inner loop of \<open>get_start\<close>: down along the first free children.\<close>

partial_function (option) get_start_loop ::
    "ptr \<Rightarrow> ptr \<Rightarrow> ptr \<Rightarrow> heap \<Rightarrow> (ptr \<times> ptr) option" where
  "get_start_loop r c s h =
     (if c = NULL then Some (r, s)
      else do {
        ce \<leftarrow> cells h c;
        let r = child_v ce;
        c \<leftarrow> get_free_router r h;
        rr \<leftarrow> routers h r;
        get_start_loop r c (if router_fleaf rr > 0 then r else s) h
      })"

declare get_start_loop.simps [code]

partial_function (option) get_start :: "ptr \<Rightarrow> heap \<Rightarrow> ptr option" where
  "get_start r h =
     (if r = NULL then Some NULL
      else do {
        c \<leftarrow> get_free_router r h;
        rr \<leftarrow> routers h r;
        let s = (if node_parent (router_node rr) \<noteq> NULL \<and> router_fleaf rr > 0 then r else NULL);
        (r, s) \<leftarrow> get_start_loop r c s h;
        if s = NULL then do {
          rr \<leftarrow> routers h r;
          let p = node_parent (router_node rr);
          if p \<noteq> NULL then get_start p h else Some s
        }
        else Some s
      })"

declare get_start.simps [code]


section \<open>Propagating a used-up router\<close>

definition back_propagate :: "ptr \<Rightarrow> heap \<Rightarrow> (ptr \<times> heap) option" where
  "back_propagate r h =
     (if r = NULL then Some (NULL, h)
      else do {
        rr \<leftarrow> routers h r;
        let p = node_parent (router_node rr);
        if p = NULL \<or> router_fleaf rr > 0 \<or> router_fchild rr > 0 then Some (NULL, h)
        else do {
          pr \<leftarrow> routers h p;
          h \<leftarrow> (if router_fchild pr > 0 then upd_router p (router_fchild_update (\<lambda>n. n - 1)) h
                else Some h);
          Some (p, h)
        }
      })"

partial_function (option) rec_back_propagate :: "ptr \<Rightarrow> heap \<Rightarrow> heap option" where
  "rec_back_propagate r h =
     (if r = NULL then Some h
      else do {
        (r, h) \<leftarrow> back_propagate r h;
        rec_back_propagate r h
      })"

declare rec_back_propagate.simps [code]


section \<open>Merging\<close>

record merging =
  mg_cr :: ptr
  mg_pcr :: ptr
  mg_icr :: size_t
  mg_init_hops :: int

definition set_merging_stats :: "ptr \<Rightarrow> size_t \<Rightarrow> int \<Rightarrow> merging \<Rightarrow> merging" where
  "set_merging_stats p i v ms = ms\<lparr>mg_cr := p, mg_icr := i, mg_init_hops := v\<rparr>"

definition reset_merging_stats :: merging where
  "reset_merging_stats = \<lparr>mg_cr = NULL, mg_pcr = NULL, mg_icr = 0, mg_init_hops = 0\<rparr>"

text \<open>The comparisons convert the \<open>int\<close> on their left to \<open>size_t\<close>; it is not negative.\<close>

definition is_mergeable :: "arguments \<Rightarrow> merging \<Rightarrow> ptr \<Rightarrow> heap \<Rightarrow> bool option" where
  "is_mergeable A ms r h =
     (if mg_cr ms = NULL then Some False
      else do {
        rr \<leftarrow> routers h r;
        if nat \<bar>mg_init_hops ms - int_of_size (router_hops rr)\<bar> \<le> merge_range A then do {
          cc \<leftarrow> routers h (mg_cr ms);
          Some (nat \<bar>int_of_size (router_hops cc) - int_of_size (router_hops rr)\<bar> \<le> merge_range A)
        }
        else Some False
      })"


section \<open>Filling the address list\<close>

text \<open>
  The labels \<open>copy\<close> and \<open>bitmap\<close> of \<open>set_txg_router\<close>. The list \<open>l\<close> is the caller's array: a
  write behind its end, or a shift by a negative amount, is undefined.
\<close>

definition txg_copy ::
    "size_t \<Rightarrow> in6_addr list \<Rightarrow> uint32 \<Rightarrow> ptr \<Rightarrow> merging \<Rightarrow> heap \<Rightarrow>
     (size_t \<times> in6_addr list \<times> uint32 \<times> merging) option" where
  "txg_copy i l bm r ms h = do {
     let tmp = (if mg_cr ms \<noteq> NULL then mg_cr ms else r);
     tr \<leftarrow> routers h tmp;
     guard (mg_icr ms < length l);
     Some (i, l[mg_icr ms := sin6_addr (router_sa tr)], bm, ms)
   }"

definition txg_bitmap ::
    "in6_addr list \<Rightarrow> uint32 \<Rightarrow> ptr \<Rightarrow> merging \<Rightarrow> heap \<Rightarrow>
     (size_t \<times> in6_addr list \<times> uint32 \<times> merging) option" where
  "txg_bitmap l bm r ms h = do {
     guard (mg_icr ms < 32);
     txg_copy 1 l (bm OR push_bit (4 * 8 - 1 - mg_icr ms) 1) r ms h
   }"

definition set_txg_router ::
    "arguments \<Rightarrow> in6_addr list \<Rightarrow> uint32 \<Rightarrow> ptr \<Rightarrow> size_t \<Rightarrow> merging \<Rightarrow> heap \<Rightarrow>
     (size_t \<times> in6_addr list \<times> uint32 \<times> merging) option" where
  "set_txg_router A l bm r n ms h =
     (if merge_range A = 0 then txg_bitmap l bm r (ms\<lparr>mg_icr := n\<rparr>) h
      else do {
        rr \<leftarrow> routers h r;
        if mg_cr ms = NULL then
          txg_bitmap l bm r (set_merging_stats r n (int_of_size (router_hops rr)) ms) h
        else do {
          cc \<leftarrow> routers h (mg_cr ms);
          b \<leftarrow> (if mg_pcr ms \<noteq> NULL then do {
              pc \<leftarrow> routers h (mg_pcr ms);
              Some (router_hops pc < router_hops rr \<and> router_hops pc < router_hops cc)
            }
            else Some False);
          if b then txg_copy 0 l bm r (ms\<lparr>mg_cr := mg_pcr ms, mg_pcr := NULL\<rparr>) h
          else if router_hops rr < router_hops cc then txg_copy 0 l bm r (ms\<lparr>mg_cr := r\<rparr>) h
          else Some (0, l, bm, ms)
        }
      })"

text \<open>The loop of \<open>add2txg\<close>: \<open>m\<close> receivers from the cell \<open>c\<close> on, the first to the index \<open>i\<close>.\<close>

primrec add2txg_loop :: "nat \<Rightarrow> ptr \<Rightarrow> size_t \<Rightarrow> in6_addr list \<Rightarrow> heap \<Rightarrow> in6_addr list option" where
  "add2txg_loop 0 c i l h = Some l"
| "add2txg_loop (Suc m) c i l h = do {
     ce \<leftarrow> cells h c;
     lf \<leftarrow> leafs h (child_v ce);
     guard (i < length l);
     add2txg_loop m (child_n ce) (i + 1) (l[i := sin6_addr (addr_sa (rcvr_addr (leaf_val lf)))]) h
   }"

definition add2txg ::
    "arguments \<Rightarrow> in6_addr list \<Rightarrow> uint32 \<Rightarrow> ptr \<Rightarrow> size_t \<Rightarrow> size_t \<Rightarrow> merging \<Rightarrow> heap \<Rightarrow>
     (in6_addr list \<times> uint32 \<times> size_t \<times> merging \<times> heap) option" where
  "add2txg A l bm r n m ms h = do {
     (s, l, bm, ms) \<leftarrow> set_txg_router A l bm r n ms h;
     c \<leftarrow> get_free_leaf r h;
     l \<leftarrow> add2txg_loop m c (n + s) l h;
     h \<leftarrow> upd_router r (router_fleaf_update (\<lambda>f. size_sub f m)) h;
     Some (l, bm, n + (m + s), ms, h)
   }"

definition finish_txg ::
    "ptr \<Rightarrow> in6_addr list \<Rightarrow> size_t \<Rightarrow> uint32 \<Rightarrow> heap \<Rightarrow>
     (ptr \<times> size_t \<times> uint32 \<times> merging \<times> heap) option" where
  "finish_txg grp addrs len bm h = do {
     let (c, h) = new_cell \<lparr>child_v = NULL, child_n = NULL\<rparr> h;
     let (d, h) = new_hdr (set_data_hdr addrs len bm) h;
     h \<leftarrow> upd_cell c (child_v_update (\<lambda>_. d)) h;
     h \<leftarrow> upd_cell c (child_n_update (\<lambda>_. if grp \<noteq> NULL then grp else NULL)) h;
     Some (c, 0, 0, reset_merging_stats, h)
   }"


section \<open>The main loop\<close>

record gg =
  gg_addrs :: "in6_addr list"
  gg_bm :: uint32
  gg_n :: size_t
  gg_mdc :: ptr
  gg_r :: ptr
  gg_ms :: merging
  gg_h :: heap

definition gg_add :: "arguments \<Rightarrow> size_t \<Rightarrow> gg \<Rightarrow> gg option" where
  "gg_add A m st = do {
     (l, bm, n, ms, h) \<leftarrow> add2txg A (gg_addrs st) (gg_bm st) (gg_r st) (gg_n st) m (gg_ms st) (gg_h st);
     Some (st\<lparr>gg_addrs := l, gg_bm := bm, gg_n := n, gg_ms := ms, gg_h := h\<rparr>)
   }"

text \<open>
  One round of \<open>while (r->fleaf > 0)\<close> with a free leaf: \<open>Inr\<close> is \<open>goto next\<close>, \<open>Inl\<close> is
  \<open>break\<close>. A round in which no test holds would repeat itself for ever.
\<close>

definition gg_leafs :: "arguments \<Rightarrow> size_t \<Rightarrow> size_t \<Rightarrow> gg \<Rightarrow> (gg + gg) option" where
  "gg_leafs A mx p st = do {
     rr \<leftarrow> routers (gg_h st) (gg_r st);
     let m = gg_n st + router_fleaf rr + p;
     if m > mx then
       (if router_fleaf rr \<ge> mx \<or> split_nodes A then do {
          let m = size_sub (size_sub mx (gg_n st)) p;
          st \<leftarrow> gg_add A m st;
          Some (Inr st)
        }
        else Some (Inr st))
     else if m \<ge> size_sub mx 1 \<or> m \<ge> ok_addrs A then do {
       st \<leftarrow> gg_add A (router_fleaf rr) st;
       h \<leftarrow> rec_back_propagate (gg_r st) (gg_h st);
       Some (Inr (st\<lparr>gg_h := h\<rparr>))
     }
     else if m < mx then do {
       st \<leftarrow> gg_add A (router_fleaf rr) st;
       Some (Inl st)
     }
     else None
   }"

text \<open>The rest of the loop body: down to a free child, or up to the parent.\<close>

definition gg_move :: "arguments \<Rightarrow> gg \<Rightarrow> (gg + gg) option" where
  "gg_move A st = do {
     rr \<leftarrow> routers (gg_h st) (gg_r st);
     c \<leftarrow> (if router_fchild rr > 0 then get_free_router (gg_r st) (gg_h st) else Some NULL);
     if c \<noteq> NULL then do {
       ce \<leftarrow> cells (gg_h st) c;
       Some (Inl (st\<lparr>gg_r := child_v ce\<rparr>))
     }
     else do {
       let pr = node_parent (router_node rr);
       if pr \<noteq> NULL then do {
         mg \<leftarrow> is_mergeable A (gg_ms st) pr (gg_h st);
         let ms = (if mg_cr (gg_ms st) \<noteq> NULL \<and> mg then (gg_ms st)\<lparr>mg_pcr := pr\<rparr> else gg_ms st);
         (_, h) \<leftarrow> back_propagate (gg_r st) (gg_h st);
         prr \<leftarrow> routers h pr;
         let st = st\<lparr>gg_r := pr, gg_ms := ms, gg_h := h\<rparr>;
         Some (if node_parent (router_node prr) = NULL then Inr st else Inl st)
       }
       else Some (Inr st)
     }
   }"

text \<open>From the label \<open>start\<close> to a jump to \<open>start\<close> (\<open>Inl\<close>) or to \<open>next\<close> (\<open>Inr\<close>).\<close>

definition gg_body :: "arguments \<Rightarrow> size_t \<Rightarrow> gg \<Rightarrow> (gg + gg) option" where
  "gg_body A mx st = do {
     mg \<leftarrow> is_mergeable A (gg_ms st) (gg_r st) (gg_h st);
     let p = (if mg then 0 else 1);
     let st = (if p \<noteq> 0 \<and> mg_cr (gg_ms st) \<noteq> NULL then st\<lparr>gg_ms := reset_merging_stats\<rparr> else st);
     rr \<leftarrow> routers (gg_h st) (gg_r st);
     x \<leftarrow> (if router_fleaf rr > 0 then gg_leafs A mx p st else Some (Inl st));
     case x of Inl st \<Rightarrow> gg_move A st | Inr st \<Rightarrow> Some (Inr st)
   }"

text \<open>The label \<open>next\<close>, up to the test of the loop: \<open>Inr\<close> leaves it.\<close>

definition gg_next :: "gg \<Rightarrow> (gg + gg) option" where
  "gg_next st = do {
     (mdc, n, bm, ms, h) \<leftarrow> finish_txg (gg_mdc st) (gg_addrs st) (gg_n st) (gg_bm st) (gg_h st);
     r \<leftarrow> get_start (gg_r st) h;
     let st = st\<lparr>gg_mdc := mdc, gg_n := n, gg_bm := bm, gg_ms := ms, gg_h := h, gg_r := r\<rparr>;
     Some (if r = NULL then Inr st else Inl st)
   }"

definition gg_step :: "arguments \<Rightarrow> size_t \<Rightarrow> gg \<Rightarrow> (gg + gg) option" where
  "gg_step A mx st = do {
     x \<leftarrow> gg_body A mx st;
     case x of Inl st \<Rightarrow> Some (Inl st) | Inr st \<Rightarrow> gg_next st
   }"

text \<open>
  The loop over the free leafs of the root: \<open>acc\<close> is the part of the array \<open>uni\<close> written so
  far, \<open>nuni\<close> the number of entries allocated for it.
\<close>

partial_function (option) uni_loop ::
    "size_t \<Rightarrow> ptr \<Rightarrow> ptr \<Rightarrow> addr list \<Rightarrow> heap \<Rightarrow> (addr list \<times> heap) option" where
  "uni_loop nuni s c acc h =
     (if c = NULL then Some (acc, h)
      else do {
        rr \<leftarrow> routers h s;
        if router_fleaf rr = 0 then Some (acc, h)
        else do {
          ce \<leftarrow> cells h c;
          lf \<leftarrow> leafs h (child_v ce);
          guard (length acc < nuni);
          h \<leftarrow> upd_router s (router_fleaf_update (\<lambda>f. f - 1)) h;
          uni_loop nuni s (child_n ce) (acc @ [rcvr_addr (leaf_val lf)]) h
        }
      })"

declare uni_loop.simps [code]

definition gg_max :: "arguments \<Rightarrow> size_t" where
  "gg_max A = (if max_addrs A < BITMAP_LIMIT then max_addrs A else BITMAP_LIMIT)"

definition greedy_grouping ::
    "arguments \<Rightarrow> ptr \<Rightarrow> merging \<Rightarrow> heap \<Rightarrow> (tx_group option \<times> merging \<times> heap) option" where
  "greedy_grouping A s ms h = do {
     let mx = gg_max A;
     guard (0 < mx);
     if s = NULL then Some (None, ms, h)
     else do {
       r \<leftarrow> get_start s h;
       let st = \<lparr>gg_addrs = replicate mx 0, gg_bm = 0, gg_n = 0, gg_mdc = NULL, gg_r = r,
         gg_ms = ms, gg_h = h\<rparr>;
       st \<leftarrow> (if r = NULL then Some st else run (gg_step A mx) st);
       rr \<leftarrow> routers (gg_h st) s;
       c \<leftarrow> get_free_leaf s (gg_h st);
       (uni, h) \<leftarrow> uni_loop (router_fleaf rr) s c [] (gg_h st);
       Some (Some \<lparr>txg_mdc = gg_mdc st, txg_nuni = router_fleaf rr, txg_uni = uni\<rparr>, gg_ms st, h)
     }
   }"

end
