(* ===== verification/Counters.thy ===== *)
theory Counters
  imports Grouping TreeView
begin

text \<open>
  The free counters during the grouping. The lists of the tree do not change while groups are
  built; only the counters \<open>fleaf\<close> and \<open>fchild\<close> do. So the facts about them are stated over a
  fixed view \<open>V\<close> and a function \<open>F\<close> that gives the number of free elements of every list. The
  free elements of a list are its last ones.
\<close>


section \<open>Free elements\<close>

type_synonym counts = "kind \<times> ptr \<Rightarrow> nat"

definition frees :: "view \<Rightarrow> counts \<Rightarrow> kind \<times> ptr \<Rightarrow> ptr list" where
  "frees V F kr = map snd (drop (length (V kr) - F kr) (V kr))"

definition used :: "view \<Rightarrow> counts \<Rightarrow> kind \<times> ptr \<Rightarrow> ptr list" where
  "used V F kr = map snd (take (length (V kr) - F kr) (V kr))"

definition live :: "counts \<Rightarrow> ptr \<Rightarrow> bool" where
  "live F x \<longleftrightarrow> 0 < F (Leaf, x) \<or> 0 < F (Kid, x)"

definition in_range :: "view \<Rightarrow> counts \<Rightarrow> bool" where
  "in_range V F \<longleftrightarrow> (\<forall>kr. F kr \<le> length (V kr))"

lemma used_frees: "used V F kr @ frees V F kr = map snd (V kr)"
  by (simp add: used_def frees_def flip: map_append)

lemma in_rangeD: "in_range V F \<Longrightarrow> F kr \<le> length (V kr)"
  unfolding in_range_def by blast

lemma length_frees: "in_range V F \<Longrightarrow> length (frees V F kr) = F kr"
  using in_rangeD [of V F kr] by (simp add: frees_def)

lemma frees_fewer:
  assumes "in_range V F" "m \<le> F kr"
  shows "frees V (F(kr := F kr - m)) kr = drop m (frees V F kr)"
    and "used V (F(kr := F kr - m)) kr = used V F kr @ take m (frees V F kr)"
proof -
  have e: "length (V kr) - (F kr - m) = length (V kr) - F kr + m" and le: "F kr \<le> length (V kr)"
    using assms(2) in_rangeD [OF assms(1), of kr] by simp_all
  show "frees V (F(kr := F kr - m)) kr = drop m (frees V F kr)"
    using e by (simp add: frees_def add.commute flip: drop_map)
  show "used V (F(kr := F kr - m)) kr = used V F kr @ take m (frees V F kr)"
    using e by (simp add: frees_def used_def take_add flip: take_map drop_map)
qed

lemma frees_other: "kr' \<noteq> kr \<Longrightarrow> frees V (F(kr := x)) kr' = frees V F kr'"
    "kr' \<noteq> kr \<Longrightarrow> used V (F(kr := x)) kr' = used V F kr'"
  by (simp_all add: frees_def used_def)

lemma in_range_fewer: "in_range V F \<Longrightarrow> x \<le> F kr \<Longrightarrow> in_range V (F(kr := x))"
  unfolding in_range_def by (metis fun_upd_apply order.trans)


section \<open>Free children\<close>

lemma frees_kid: "c \<in> set (frees V F (Kid, r)) \<Longrightarrow> (r, c) \<in> kid_edges V"
  by (auto simp: frees_def kid_edges_def dest: in_set_dropD)

lemma distinct_frees: "tree_view V root \<Longrightarrow> distinct (frees V F kr)"
  using tree_distinct [of V root kr] used_frees [of V F kr] by (metis distinct_append)


section \<open>Free children are those with something free below\<close>

definition kids_ok :: "view \<Rightarrow> counts \<Rightarrow> ptr set \<Rightarrow> bool" where
  "kids_ok V F X \<longleftrightarrow> (\<forall>p x. (p, x) \<in> kid_edges V \<and> x \<notin> X \<longrightarrow>
     (x \<in> set (frees V F (Kid, p)) \<longleftrightarrow> live F x))"

text \<open>Every router on the path from the root to \<open>r\<close> is the first free child of its parent.\<close>

definition front :: "view \<Rightarrow> counts \<Rightarrow> ptr \<Rightarrow> bool" where
  "front V F r \<longleftrightarrow> (\<forall>p x. (p, x) \<in> kid_edges V \<and> (x, r) \<in> (kid_edges V)\<^sup>* \<longrightarrow>
     (\<exists>xs. frees V F (Kid, p) = x # xs))"

definition front_live :: "view \<Rightarrow> counts \<Rightarrow> ptr \<Rightarrow> bool" where
  "front_live V F r \<longleftrightarrow> (\<forall>p x. (p, x) \<in> kid_edges V \<and> (x, r) \<in> (kid_edges V)\<^sup>* \<and> live F x \<longrightarrow>
     (\<exists>xs. frees V F (Kid, p) = x # xs))"

lemma front_liveI: "front V F r \<Longrightarrow> front_live V F r"
  by (simp add: front_def front_live_def)

lemma front_up: "front V F r \<Longrightarrow> (p, r) \<in> kid_edges V \<Longrightarrow> front V F p"
  unfolding front_def by (meson rtrancl.rtrancl_into_rtrancl)

lemma front_live_up: "front_live V F r \<Longrightarrow> (p, r) \<in> kid_edges V \<Longrightarrow> front_live V F p"
  unfolding front_live_def by (meson rtrancl.rtrancl_into_rtrancl)

lemma front_down:
  assumes T: "tree_view V root" and F: "front V F r" and c: "frees V F (Kid, r) = c # xs"
  shows "front V F c"
  unfolding front_def
proof (intro allI impI)
  fix p x
  assume x: "(p, x) \<in> kid_edges V \<and> (x, c) \<in> (kid_edges V)\<^sup>*"
  have rc: "(r, c) \<in> kid_edges V" using frees_kid [of c V F r] c by simp
  from tree_up [OF T _ rc] x consider "x = c" | "(x, r) \<in> (kid_edges V)\<^sup>*" by blast
  then show "\<exists>xs. frees V F (Kid, p) = x # xs"
  proof cases
    case 1
    with x rc c show ?thesis using tree_parent [OF T] by blast
  next
    case 2
    with F x show ?thesis by (auto simp: front_def)
  qed
qed

lemma live_parent:
  "kids_ok V F X \<Longrightarrow> in_range V F \<Longrightarrow> (p, x) \<in> kid_edges V \<Longrightarrow> x \<notin> X \<Longrightarrow> live F x \<Longrightarrow> live F p"
  using length_frees [of V F "(Kid, p)"] unfolding kids_ok_def live_def
  by (metis length_pos_if_in_set)

lemma front_of_live:
  assumes K: "kids_ok V F {}" "in_range V F" and FL: "front_live V F r" and r: "live F r"
  shows "front V F r"
proof -
  have "live F x" if "(x, r) \<in> (kid_edges V)\<^sup>*" for x
    using that r
  proof (induction rule: converse_rtrancl_induct)
    case (step y z)
    then show ?case using live_parent [OF K step.hyps(1)] by simp
  qed
  with FL show ?thesis by (auto simp: front_def front_live_def)
qed

text \<open>A used-up router leaves the free children of its parent.\<close>

definition drop_kid :: "ptr \<Rightarrow> counts \<Rightarrow> counts" where
  "drop_kid p F = F((Kid, p) := F (Kid, p) - 1)"

lemma frees_drop_kid:
  assumes "in_range V F" "frees V F (Kid, p) = r # xs"
  shows "frees V (drop_kid p F) (Kid, p) = xs"
    and "kr \<noteq> (Kid, p) \<Longrightarrow> frees V (drop_kid p F) kr = frees V F kr"
    and "1 \<le> F (Kid, p)"
proof -
  show "1 \<le> F (Kid, p)" using assms length_frees [OF assms(1), of "(Kid, p)"] by simp
  then show "frees V (drop_kid p F) (Kid, p) = xs"
    unfolding drop_kid_def using assms by (subst frees_fewer(1)) simp_all
  show "kr \<noteq> (Kid, p) \<Longrightarrow> frees V (drop_kid p F) kr = frees V F kr"
    by (simp add: drop_kid_def frees_other)
qed

lemma used_leaf_drop_kid: "used V (drop_kid p F) (Leaf, x) = used V F (Leaf, x)"
  by (simp add: drop_kid_def frees_other)

lemma live_drop_kid: "x \<noteq> p \<Longrightarrow> live (drop_kid p F) x = live F x"
    "live (drop_kid p F) x \<Longrightarrow> live F x"
  by (auto simp: live_def drop_kid_def split: if_splits)

lemma drop_kid_ok:
  assumes T: "tree_view V root" and I: "in_range V F" and K: "kids_ok V F {r}" and FR: "front V F r"
    and pr: "(p, r) \<in> kid_edges V" and dead: "\<not> live F r"
  shows "kids_ok V (drop_kid p F) {p}" "front V (drop_kid p F) p" "in_range V (drop_kid p F)"
proof -
  obtain xs where xs: "frees V F (Kid, p) = r # xs" using FR pr by (auto simp: front_def)
  have d: "r \<notin> set xs" using distinct_frees [OF T, of F "(Kid, p)"] xs by simp
  note fd = frees_drop_kid [OF I xs]
  show "in_range V (drop_kid p F)" unfolding drop_kid_def by (rule in_range_fewer [OF I]) simp
  show "kids_ok V (drop_kid p F) {p}"
    unfolding kids_ok_def
  proof (intro allI impI)
    fix q x
    assume qx: "(q, x) \<in> kid_edges V \<and> x \<notin> {p}"
    show "x \<in> set (frees V (drop_kid p F) (Kid, q)) \<longleftrightarrow> live (drop_kid p F) x"
    proof (cases "x = r")
      case True
      then have "q = p" using tree_parent [OF T] qx pr by blast
      with True dead d show ?thesis using live_drop_kid(1) [of x p F] qx by (simp add: fd)
    next
      case False
      then have "x \<in> set (frees V F (Kid, q)) \<longleftrightarrow> live F x" using K qx by (simp add: kids_ok_def)
      with False xs show ?thesis
        using live_drop_kid(1) [of x p F] qx by (cases "q = p") (auto simp: fd)
    qed
  qed
  show "front V (drop_kid p F) p"
    unfolding front_def
  proof (intro allI impI)
    fix q x
    assume qx: "(q, x) \<in> kid_edges V \<and> (x, p) \<in> (kid_edges V)\<^sup>*"
    then have "q \<noteq> p" using tree_no_cycle [OF T] by blast
    moreover have "(x, r) \<in> (kid_edges V)\<^sup>*" using qx pr by (meson rtrancl.rtrancl_into_rtrancl)
    ultimately show "\<exists>xs. frees V (drop_kid p F) (Kid, q) = x # xs"
      using FR qx by (auto simp: front_def fd)
  qed
qed

lemma kids_ok_root: "tree_view V root \<Longrightarrow> kids_ok V F {root} \<longleftrightarrow> kids_ok V F {}"
  using tree_root by (fastforce simp: kids_ok_def)

lemma kids_ok_settled:
  assumes "tree_view V root" "kids_ok V F {r}" "front V F r" "live F r"
  shows "kids_ok V F {}"
  using assms unfolding kids_ok_def front_def
  by (metis (no_types, lifting) list.set_intros(1) rtrancl.rtrancl_refl singletonD)

text \<open>When no child of the root is free, nothing below the root is.\<close>

lemma all_used:
  assumes I: "in_range V F" and K: "kids_ok V F {}" and root: "F (Kid, root) = 0"
    and x: "(root, x) \<in> (kid_edges V)\<^sup>+"
  shows "\<not> live F x"
proof -
  have nil: "frees V F (Kid, p) = []" if "F (Kid, p) = 0" for p
    using that length_frees [OF I, of "(Kid, p)"] by simp
  from x show ?thesis
  proof (induction rule: trancl_induct)
    case (base y)
    then show ?case using K nil [OF root] unfolding kids_ok_def by force
  next
    case (step y z)
    then have "F (Kid, y) = 0" by (simp add: live_def)
    then show ?case using K nil step.hyps(2) unfolding kids_ok_def by force
  qed
qed

text \<open>Taking leafs of a router.\<close>

definition take_leafs :: "ptr \<Rightarrow> nat \<Rightarrow> counts \<Rightarrow> counts" where
  "take_leafs r m F = F((Leaf, r) := F (Leaf, r) - m)"

lemma take_leafs_ok:
  assumes "kids_ok V F {r}" "front V F r" "in_range V F"
  shows "kids_ok V (take_leafs r m F) {r}" "front V (take_leafs r m F) r"
    "in_range V (take_leafs r m F)"
proof -
  have f: "frees V (take_leafs r m F) (Kid, p) = frees V F (Kid, p)" for p
    by (simp add: take_leafs_def frees_other)
  have l: "live (take_leafs r m F) x = live F x" if "x \<noteq> r" for x
    using that by (simp add: take_leafs_def live_def)
  show "kids_ok V (take_leafs r m F) {r}" "front V (take_leafs r m F) r"
    using assms(1,2) by (auto simp: kids_ok_def front_def f l)
  show "in_range V (take_leafs r m F)"
    unfolding take_leafs_def by (rule in_range_fewer [OF assms(3)]) simp
qed

end
