(* ===== verification/GroupingOps.thy ===== *)
theory GroupingOps
  imports Counters
begin

text \<open>
  The operations of the grouping on the memory: each changes nothing but free counters, which
  they change as the counter functions of \<open>Counters\<close> say, and none is undefined on a tree.
\<close>


section \<open>Memories with the same tree\<close>

definition same_tree :: "heap \<Rightarrow> view \<Rightarrow> heap \<Rightarrow> bool" where
  "same_tree h0 V h \<longleftrightarrow> repr h V \<and> rdata h = rdata h0 \<and> ldata h = ldata h0 \<and> par h = par h0"

lemma same_treeD:
  assumes "same_tree h0 V h"
  shows st_repr: "repr h V" and st_rdata: "rdata h = rdata h0" and st_ldata: "ldata h = ldata h0"
    and st_par: "par h = par h0"
  using assms unfolding same_tree_def by blast+

lemma same_tree_refl: "repr h V \<Longrightarrow> same_tree h V h"
  by (simp add: same_tree_def)

definition raddr :: "heap \<Rightarrow> ptr \<Rightarrow> in6_addr" where
  "raddr h r = (case rdata h r of None \<Rightarrow> 0 | Some (sa, _) \<Rightarrow> sin6_addr sa)"

definition laddr :: "heap \<Rightarrow> ptr \<Rightarrow> in6_addr" where
  "laddr h l = (case ldata h l of None \<Rightarrow> 0 | Some v \<Rightarrow> sin6_addr (addr_sa (rcvr_addr v)))"

lemma same_tree_router:
  assumes S: "same_tree h0 V h" and r: "routers h0 r \<noteq> None"
  obtains rr where "routers h r = Some rr" "node_parent (router_node rr) = par h0 r"
    "router_hops rr = hops_at h0 r" "sin6_addr (router_sa rr) = raddr h0 r"
    "router_fleaf rr = free_of h (Leaf, r)" "router_fchild rr = free_of h (Kid, r)"
proof -
  have "routers h r \<noteq> None" using r rdata_dom [OF st_rdata [OF S], of r] by simp
  then obtain rr where rr: "routers h r = Some rr" by blast
  have "leafs h r = None" by (rule node_ok_disj' [OF repr_node_ok [OF st_repr [OF S]] rr])
  then have "node_parent (router_node rr) = par h0 r"
    using par_router [OF _ rr] st_par [OF S] by simp
  moreover have "rdata h0 r = Some (router_sa rr, router_hops rr)"
    using rr st_rdata [OF S] by (metis (no_types, lifting) option.simps(9) rdata_def)
  ultimately show thesis
    using rr by (intro that [of rr]) (simp_all add: hops_at_def raddr_def free_of_def rlist_def
        child_list_def leaf_list_def)
qed

lemma same_tree_in_range: "same_tree h0 V h \<Longrightarrow> in_range V (free_of h)"
  unfolding in_range_def
proof
  fix kr
  assume "same_tree h0 V h"
  then have R: "repr h V" by (rule st_repr)
  show "free_of h kr \<le> length (V kr)"
    using repr_list [OF R, of kr] by (auto simp: free_of_def list_ok_def split: option.splits)
qed

lemma frees_head:
  assumes S: "same_tree h0 V h" and r: "routers h0 r \<noteq> None"
  shows "\<exists>c ys. (case k of Kid \<Rightarrow> get_free_router r h | Leaf \<Rightarrow> get_free_leaf r h) = Some c \<and>
    chain (cells h) c ys \<and> map snd ys = frees V (free_of h) (k, r) \<and> set ys \<subseteq> set (V (k, r))"
proof -
  note R = st_repr [OF S]
  obtain rr where rr: "routers h r = Some rr" using same_tree_router [OF S r] by metis
  let ?l = "list_of k rr" and ?n = "length (V (k, r)) - free_of h (k, r)"
  let ?ys = "drop ?n (V (k, r))"
  have ok: "list_ok (cells h) ?l (V (k, r))" by (rule repr_list [OF R rlist_Some [OF rr]])
  have f: "lh_f ?l = free_of h (k, r)" using rr by (simp add: free_of_def rlist_def)
  have get: "get_free ?l h = Some (head_of ?ys)"
    using get_free_ok [of h ?l "V (k, r)"] ok f by (auto simp: list_ok_def)
  have "chain (cells h) (head_of ?ys) ?ys"
  proof (cases ?ys)
    case (Cons y ys)
    then have "V (k, r) = take ?n (V (k, r)) @ y # ys" by (metis append_take_drop_id)
    then have "chain (cells h) (fst y) (y # ys)"
      using ok chain_append [of "cells h"] unfolding list_ok_def by metis
    then show ?thesis using Cons by simp
  qed simp
  moreover have "map snd ?ys = frees V (free_of h) (k, r)" by (simp add: frees_def)
  moreover have "set ?ys \<subseteq> set (V (k, r))" by (rule set_drop_subset)
  ultimately show ?thesis
    using rr get by (cases k) (auto simp: get_free_router_def get_free_leaf_def)
qed

lemma get_free_router_ok:
  assumes S: "same_tree h0 V h" and r: "routers h0 r \<noteq> None"
  shows "\<exists>c. get_free_router r h = Some c \<and>
    (case frees V (free_of h) (Kid, r) of [] \<Rightarrow> c = NULL
     | v # _ \<Rightarrow> c \<noteq> NULL \<and> (\<exists>ce. cells h c = Some ce \<and> child_v ce = v))"
proof -
  obtain c ys where "get_free_router r h = Some c" "chain (cells h) c ys"
    "map snd ys = frees V (free_of h) (Kid, r)"
    using frees_head [OF S r, of Kid] by auto
  then show ?thesis
    by (cases ys) (auto split: option.splits simp flip: \<open>map snd ys = frees V (free_of h) (Kid, r)\<close>)
qed

text \<open>A new value for a free counter.\<close>

definition set_free :: "kind \<Rightarrow> ptr \<Rightarrow> nat \<Rightarrow> heap \<Rightarrow> heap" where
  "set_free k p x h = h\<lparr>routers := (routers h)(p := map_option
     (case k of Kid \<Rightarrow> router_fchild_update (\<lambda>_. x) | Leaf \<Rightarrow> router_fleaf_update (\<lambda>_. x)) (routers h p))\<rparr>"

lemma obs_set_free [mem_simps]:
  "cells (set_free k p x h) = cells h" "hdrs (set_free k p x h) = hdrs h"
  "brk (set_free k p x h) = brk h" "leafs (set_free k p x h) = leafs h"
  "rdata (set_free k p x h) = rdata h" "ldata (set_free k p x h) = ldata h"
  "par (set_free k p x h) = par h" "has (set_free k p x h) k' v = has h k' v"
  "node_ok h \<Longrightarrow> node_ok (set_free k p x h)"
proof -
  show "has (set_free k p x h) k' v = has h k' v" by (cases k'; simp add: set_free_def)
  show "node_ok h \<Longrightarrow> node_ok (set_free k p x h)"
    unfolding node_ok_def by (cases k; cases "routers h p") (auto simp: set_free_def split: if_splits intro!: gr0I)
  show "rdata (set_free k p x h) = rdata h"
    by (cases k; cases "routers h p") (auto simp: set_free_def rdata_def fun_eq_iff)
  show "par (set_free k p x h) = par h"
    by (cases k; cases "routers h p") (auto simp: set_free_def par_def get_node_def fun_eq_iff split: option.split)
  show "ldata (set_free k p x h) = ldata h" by (simp add: set_free_def ldata_def fun_eq_iff)
qed (simp_all add: set_free_def)

lemma rlist_set_free:
  "rlist (set_free k p x h) kr =
     (if kr = (k, p) then map_option (lh_f_update (\<lambda>_. x)) (rlist h kr) else rlist h kr)"
proof -
  obtain k' r where kr: "kr = (k', r)" by (cases kr)
  show ?thesis unfolding kr
    by (cases "r = p"; cases "routers h p"; cases k; cases k')
      (simp_all add: set_free_def rlist_def child_list_def leaf_list_def)
qed

lemma set_free_ok:
  assumes S: "same_tree h0 V h" and p: "routers h0 p \<noteq> None" and x: "x \<le> free_of h (k, p)"
  shows "same_tree h0 V (set_free k p x h)"
    and "free_of (set_free k p x h) = (free_of h)((k, p) := x)"
proof -
  note R = st_repr [OF S]
  obtain rr where rr: "routers h p = Some rr" using same_tree_router [OF S p] by metis
  have list: "list_ok (cells h) l (V kr)" if L: "rlist (set_free k p x h) kr = Some l" for kr l
  proof (cases "kr = (k, p)")
    case True
    then obtain l' where l': "rlist h (k, p) = Some l'" "l = lh_f_update (\<lambda>_. x) l'"
      using L by (auto simp: rlist_set_free simp del: rlist_None)
    then have "x \<le> lh_f l'" using x by (simp add: free_of_def)
    with repr_list [OF R l'(1)] l'(2) True show ?thesis by (auto simp: list_ok_def)
  next
    case False
    with L repr_list [OF R] show ?thesis by (simp add: rlist_set_free)
  qed
  have "repr (set_free k p x h) V"
    unfolding repr_def
    using list repr_None [OF R] repr_in [OF R] repr_par [OF R] repr_node_ok [OF R]
    by (auto simp: mem_simps rlist_set_free split: if_splits)
  then show "same_tree h0 V (set_free k p x h)"
    using S by (simp add: same_tree_def mem_simps)
  show "free_of (set_free k p x h) = (free_of h)((k, p) := x)"
  proof
    fix kr
    have "rlist h (k, p) \<noteq> None" using rr by simp
    then show "free_of (set_free k p x h) kr = ((free_of h)((k, p) := x)) kr"
      by (auto simp: free_of_def rlist_set_free simp del: rlist_None)
  qed
qed

lemma upd_router_fchild:
  assumes "routers h p = Some rr" "f (router_fchild rr) = x"
  shows "upd_router p (router_fchild_update f) h = Some (set_free Kid p x h)"
proof -
  have "router_fchild_update f rr = rr\<lparr>router_fchild := x\<rparr>" using assms(2) by (cases rr) simp
  with assms(1) show ?thesis by (simp add: upd_router_def set_free_def)
qed

lemma upd_router_fleaf:
  assumes "routers h p = Some rr" "f (router_fleaf rr) = x"
  shows "upd_router p (router_fleaf_update f) h = Some (set_free Leaf p x h)"
proof -
  have "router_fleaf_update f rr = rr\<lparr>router_fleaf := x\<rparr>" using assms(2) by (cases rr) simp
  with assms(1) show ?thesis by (simp add: upd_router_def set_free_def)
qed


section \<open>Propagation\<close>

lemma kid_edge_routers:
  assumes T: "topo_ok h0 V root" and e: "(p, x) \<in> kid_edges V"
  shows "routers h0 p \<noteq> None" "routers h0 x \<noteq> None" "par h0 x = p" "p \<noteq> NULL" "x \<noteq> NULL"
proof -
  note R = topo_repr [OF T]
  show "routers h0 p \<noteq> None" by (rule kid_edges_router [OF R e])
  show "routers h0 x \<noteq> None" "par h0 x = p" "p \<noteq> NULL" using e by (auto simp: kid_edges_iff [OF R])
  then show "x \<noteq> NULL" using node_ok_NULL [OF repr_node_ok [OF R], of Kid x] by simp
qed

lemma router_parent:
  assumes T: "topo_ok h0 V root" and r: "(root, r) \<in> (kid_edges V)\<^sup>*"
  obtains (root) "r = root" "par h0 r = NULL" | (kid) p where "(p, r) \<in> kid_edges V" "par h0 r = p"
    "p \<noteq> NULL" "(root, p) \<in> (kid_edges V)\<^sup>*" "r \<noteq> root"
proof (cases "r = root")
  case True
  then show thesis using root topo_root(2) [OF T] by simp
next
  case False
  with r obtain p where p: "(root, p) \<in> (kid_edges V)\<^sup>*" "(p, r) \<in> kid_edges V"
    by (cases rule: rtranclE) auto
  show thesis by (rule kid [OF p(2)]) (use kid_edge_routers [OF T p(2)] p(1) False in auto)
qed

lemma tree_router:
  assumes T: "topo_ok h0 V root" and r: "(root, r) \<in> (kid_edges V)\<^sup>*"
  shows "routers h0 r \<noteq> None" "r \<noteq> NULL"
proof -
  show "routers h0 r \<noteq> None"
    using r by (cases rule: rtranclE) (use topo_root(1) [OF T] kid_edge_routers [OF T] in auto)
  then show "r \<noteq> NULL" using node_ok_NULL [OF repr_node_ok [OF topo_repr [OF T]], of Kid r] by simp
qed

text \<open>Nothing but the counters of the tree differs between the two memories.\<close>

definition same_rest :: "heap \<Rightarrow> heap \<Rightarrow> bool" where
  "same_rest h h' \<longleftrightarrow> cells h' = cells h \<and> hdrs h' = hdrs h \<and> brk h' = brk h"

lemma same_rest_refl [simp]: "same_rest h h"
  by (simp add: same_rest_def)

lemma same_rest_set_free [simp]: "same_rest h (set_free k p x h)"
  by (simp add: same_rest_def mem_simps)

lemma same_rest_trans: "same_rest h h' \<Longrightarrow> same_rest h' h'' \<Longrightarrow> same_rest h h''"
  by (simp add: same_rest_def)

lemma back_propagate_stop:
  assumes T: "topo_ok h0 V root" and S: "same_tree h0 V h" and r: "(root, r) \<in> (kid_edges V)\<^sup>*"
    and "r = root \<or> live (free_of h) r"
  shows "back_propagate r h = Some (NULL, h)"
proof -
  obtain rr where "routers h r = Some rr" "node_parent (router_node rr) = par h0 r"
    "router_fleaf rr = free_of h (Leaf, r)" "router_fchild rr = free_of h (Kid, r)"
    using same_tree_router [OF S tree_router(1) [OF T r]] by metis
  with assms(4) topo_root(2) [OF T] tree_router(2) [OF T r] show ?thesis
    by (auto simp: back_propagate_def live_def)
qed

lemma back_propagate_kid:
  assumes T: "topo_ok h0 V root" and S: "same_tree h0 V h" and e: "(p, r) \<in> kid_edges V"
    and dead: "\<not> live (free_of h) r" and free: "0 < free_of h (Kid, p)"
  obtains h' where "back_propagate r h = Some (p, h')" "same_tree h0 V h'" "same_rest h h'"
    "free_of h' = drop_kid p (free_of h)"
proof -
  note k = kid_edge_routers [OF T e]
  obtain rr where rr: "routers h r = Some rr" "node_parent (router_node rr) = par h0 r"
    "router_fleaf rr = free_of h (Leaf, r)" "router_fchild rr = free_of h (Kid, r)"
    using same_tree_router [OF S k(2)] by metis
  obtain pr where pr: "routers h p = Some pr" "router_fchild pr = free_of h (Kid, p)"
    using same_tree_router [OF S k(1)] by metis
  let ?h = "set_free Kid p (free_of h (Kid, p) - 1) h"
  have upd: "upd_router p (router_fchild_update (\<lambda>n. n - 1)) h = Some ?h"
    by (rule upd_router_fchild [OF pr(1)]) (simp add: pr(2))
  have "back_propagate r h = Some (p, ?h)"
    using rr pr k dead free upd by (simp add: back_propagate_def live_def)
  then show thesis
    using set_free_ok [OF S k(1), of "free_of h (Kid, p) - 1" Kid]
    by (intro that [of ?h]) (simp_all add: drop_kid_def)
qed

definition counts_le :: "counts \<Rightarrow> counts \<Rightarrow> bool" where
  "counts_le F' F \<longleftrightarrow> (\<forall>kr. F' kr \<le> F kr) \<and> (\<forall>x. F' (Leaf, x) = F (Leaf, x))"

lemma counts_le_refl [simp]: "counts_le F F"
  by (simp add: counts_le_def)

lemma counts_le_trans: "counts_le F1 F2 \<Longrightarrow> counts_le F2 F3 \<Longrightarrow> counts_le F1 F3"
  by (simp add: counts_le_def) (meson order.trans)

lemma counts_le_drop_kid: "counts_le (drop_kid p F) F"
  by (simp add: counts_le_def drop_kid_def)

lemma live_le: "counts_le F' F \<Longrightarrow> live F' x \<Longrightarrow> live F x"
  unfolding counts_le_def live_def by (metis gr0I le_zero_eq)

lemma used_leaf_le: "counts_le F' F \<Longrightarrow> used V F' (Leaf, x) = used V F (Leaf, x)"
  by (simp add: counts_le_def used_def)

lemma rec_back_propagate_ok:
  assumes T: "topo_ok h0 V root"
  shows "same_tree h0 V h \<Longrightarrow> (root, r) \<in> (kid_edges V)\<^sup>* \<Longrightarrow> kids_ok V (free_of h) {r} \<Longrightarrow>
    front V (free_of h) r \<Longrightarrow>
    \<exists>h'. rec_back_propagate r h = Some h' \<and> same_tree h0 V h' \<and> same_rest h h' \<and>
      kids_ok V (free_of h') {} \<and> front_live V (free_of h') r \<and> counts_le (free_of h') (free_of h)"
proof (induction r arbitrary: h rule: wf_induct_rule [OF tree_wf(1) [OF topo_tree_view [OF T]]])
  case (1 r)
  note TV = topo_tree_view [OF T] and S = 1(2) and r = 1(3) and K = 1(4) and FR = 1(5)
  have NULL: "rec_back_propagate 0 h' = Some h'" for h' by (subst rec_back_propagate.simps) simp
  have r0: "r \<noteq> NULL" by (rule tree_router(2) [OF T r])
  show ?case
  proof (cases "r = root \<or> live (free_of h) r")
    case True
    then have "rec_back_propagate r h = Some h"
      using back_propagate_stop [OF T S r] r0 NULL by (subst rec_back_propagate.simps) simp
    moreover have "kids_ok V (free_of h) {}"
      using True kids_ok_root [OF TV] K kids_ok_settled [OF TV K FR] by auto
    ultimately show ?thesis using S front_liveI [OF FR] by simp
  next
    case False
    from r show ?thesis
    proof (cases rule: router_parent [OF T, consumes 1, case_names root kid])
      case (kid p)
      have free: "0 < free_of h (Kid, p)"
        using FR kid(1) frees_drop_kid(3) [OF same_tree_in_range [OF S]] by (fastforce simp: front_def)
      obtain h1 where h1: "back_propagate r h = Some (p, h1)" "same_tree h0 V h1" "same_rest h h1"
        "free_of h1 = drop_kid p (free_of h)"
        using back_propagate_kid [OF T S kid(1) _ free] False by metis
      note d = drop_kid_ok [OF TV same_tree_in_range [OF S] K FR kid(1)]
      obtain h2 where h2: "rec_back_propagate p h1 = Some h2" "same_tree h0 V h2" "same_rest h1 h2"
        "kids_ok V (free_of h2) {}" "front_live V (free_of h2) p" "counts_le (free_of h2) (free_of h1)"
        using 1(1) [OF kid(1) h1(2) kid(4)] d False h1(4) by auto
      have le: "counts_le (free_of h2) (free_of h)"
        using counts_le_trans [OF h2(6)] counts_le_drop_kid h1(4) by simp
      have "\<not> live (free_of h2) r" using live_le [OF le] False by blast
      then have "front_live V (free_of h2) r"
        using h2(5) tree_up [OF TV _ kid(1)] unfolding front_live_def by blast
      moreover have "rec_back_propagate r h = Some h2"
        using h1(1) h2(1) r0 by (subst rec_back_propagate.simps) simp
      ultimately show ?thesis using h2 le same_rest_trans [OF h1(3)] by blast
    qed (use False in simp)
  qed
qed


section \<open>The next start\<close>

lemma get_start_loop_ok:
  assumes T: "topo_ok h0 V root" and S: "same_tree h0 V h"
    and K: "kids_ok V (free_of h) {}"
  shows "(root, r) \<in> (kid_edges V)\<^sup>* \<Longrightarrow> front V (free_of h) r \<Longrightarrow> get_free_router r h = Some c \<Longrightarrow>
    \<exists>d. get_start_loop r c s h = Some (d, if d = r then s else d) \<and> (r, d) \<in> (kid_edges V)\<^sup>* \<and>
      free_of h (Kid, d) = 0 \<and> front V (free_of h) d \<and> (d \<noteq> r \<longrightarrow> 0 < free_of h (Leaf, d))"
proof (induction r arbitrary: c s rule: wf_induct_rule [OF tree_wf(2) [OF topo_tree_view [OF T]]])
  case (1 r)
  note TV = topo_tree_view [OF T] and I = same_tree_in_range [OF S]
  note rt = tree_router [OF T 1(2)]
  have c: "case frees V (free_of h) (Kid, r) of [] \<Rightarrow> c = NULL
      | v # _ \<Rightarrow> c \<noteq> NULL \<and> (\<exists>ce. cells h c = Some ce \<and> child_v ce = v)"
    using get_free_router_ok [OF S rt(1)] 1(4) by auto
  show ?case
  proof (cases "frees V (free_of h) (Kid, r)")
    case Nil
    then have "free_of h (Kid, r) = 0" using length_frees [OF I, of "(Kid, r)"] by simp
    moreover have "get_start_loop r c s h = Some (r, s)"
      using c Nil by (subst get_start_loop.simps) simp
    ultimately show ?thesis using 1(3) by auto
  next
    case (Cons v vs)
    then obtain ce where ce: "c \<noteq> NULL" "cells h c = Some ce" "child_v ce = v" using c by auto
    have e: "(r, v) \<in> kid_edges V" using frees_kid [of v V "free_of h" r] Cons by simp
    have v: "(root, v) \<in> (kid_edges V)\<^sup>*" using 1(2) e by (rule rtrancl.rtrancl_into_rtrancl)
    obtain c' where c': "get_free_router v h = Some c'"
      using get_free_router_ok [OF S tree_router(1) [OF T v]] by auto
    obtain rr where rr: "routers h v = Some rr" "router_fleaf rr = free_of h (Leaf, v)"
      using same_tree_router [OF S tree_router(1) [OF T v]] by metis
    let ?s = "if 0 < free_of h (Leaf, v) then v else s"
    obtain d where d: "get_start_loop v c' ?s h = Some (d, if d = v then ?s else d)"
      "(v, d) \<in> (kid_edges V)\<^sup>*" "free_of h (Kid, d) = 0" "front V (free_of h) d"
      "d \<noteq> v \<longrightarrow> 0 < free_of h (Leaf, d)"
      using 1(1) [of v c' ?s] e v front_down [OF TV 1(3) Cons] c' by auto
    have "live (free_of h) v" using K Cons e unfolding kids_ok_def by force
    then have pos: "0 < free_of h (Leaf, d)" using d(3,5) by (auto simp: live_def)
    have "d \<noteq> r" using tree_no_cycle [OF TV e] d(2) by blast
    moreover have "(r, d) \<in> (kid_edges V)\<^sup>*" using e d(2) by (rule converse_rtrancl_into_rtrancl)
    moreover have "get_start_loop r c s h = Some (d, d)"
      using ce c' rr d(1) pos by (subst get_start_loop.simps) auto
    ultimately show ?thesis using d(3,4) pos by (intro exI [of _ d]) simp
  qed
qed

lemma get_start_ok:
  assumes T: "topo_ok h0 V root" and S: "same_tree h0 V h" and K: "kids_ok V (free_of h) {}"
  shows "(root, r) \<in> (kid_edges V)\<^sup>* \<Longrightarrow> front_live V (free_of h) r \<Longrightarrow>
    \<exists>s. get_start r h = Some s \<and>
      (s = NULL \<and> free_of h (Kid, root) = 0 \<or>
       (root, s) \<in> (kid_edges V)\<^sup>+ \<and> front V (free_of h) s \<and> 0 < free_of h (Leaf, s))"
proof (induction r rule: wf_induct_rule [OF tree_wf(1) [OF topo_tree_view [OF T]]])
  case (1 r)
  note TV = topo_tree_view [OF T] and I = same_tree_in_range [OF S]
  note rt = tree_router [OF T 1(2)]
  obtain c where c: "get_free_router r h = Some c" "case frees V (free_of h) (Kid, r) of [] \<Rightarrow> c = NULL
      | v # _ \<Rightarrow> c \<noteq> NULL \<and> (\<exists>ce. cells h c = Some ce \<and> child_v ce = v)"
    using get_free_router_ok [OF S rt(1)] by auto
  obtain rr where rr: "routers h r = Some rr" "node_parent (router_node rr) = par h0 r"
    "router_fleaf rr = free_of h (Leaf, r)"
    using same_tree_router [OF S rt(1)] by metis
  let ?s = "if par h0 r \<noteq> NULL \<and> 0 < free_of h (Leaf, r) then r else NULL"
  have rootp: "(root, x) \<in> (kid_edges V)\<^sup>+" if "(root, x) \<in> (kid_edges V)\<^sup>*" "x \<noteq> root" for x
    using that by (simp add: rtrancl_eq_or_trancl)
  show ?case
  proof (cases "live (free_of h) r")
    case True
    note FR = front_of_live [OF K I 1(3) True]
    obtain d where d: "get_start_loop r c ?s h = Some (d, if d = r then ?s else d)"
        "(r, d) \<in> (kid_edges V)\<^sup>*" "free_of h (Kid, d) = 0" "front V (free_of h) d"
        "d \<noteq> r \<longrightarrow> 0 < free_of h (Leaf, d)"
      using get_start_loop_ok [OF T S K 1(2) FR c(1)] by blast
    have rd: "(root, d) \<in> (kid_edges V)\<^sup>*" using 1(2) d(2) by (rule rtrancl_trans)
    show ?thesis
    proof (cases "d = r \<and> r = root")
      case True
      then have "get_start r h = Some NULL"
        using c(1) rr d(1) rt(2) topo_root(2) [OF T] by (subst get_start.simps) simp
      then show ?thesis using True d(3) by simp
    next
      case False
      have dpos: "0 < free_of h (Leaf, d)" using d(3,5) True by (auto simp: live_def)
      have "par h0 d \<noteq> NULL" if "d \<noteq> root"
        using rd by (cases rule: router_parent [OF T, consumes 1, case_names root kid]) (use that in auto)
      then have s: "(if d = r then ?s else d) = d" using False dpos by auto
      have "d \<noteq> NULL" by (rule tree_router(2) [OF T rd])
      then have "get_start r h = Some d"
        using c(1) rr d(1) rt(2) s by (subst get_start.simps) (simp split del: if_split)
      moreover have "d \<noteq> root"
      proof
        assume "d = root"
        with False have "(r, root) \<in> (kid_edges V)\<^sup>+" using d(2) by (simp add: rtrancl_eq_or_trancl)
        then show False by (cases rule: tranclE) (use tree_root [OF TV] in auto)
      qed
      ultimately show ?thesis using rootp [OF rd] d(4) dpos by blast
    qed
  next
    case False
    then have "frees V (free_of h) (Kid, r) = []"
      using length_frees [OF I, of "(Kid, r)"] by (simp add: live_def)
    then have c0: "c = NULL" using c(2) by simp
    have s0: "?s = NULL" using False by (simp add: live_def)
    have loop: "get_start_loop r NULL ?s h = Some (r, NULL)"
      unfolding s0 by (subst get_start_loop.simps) simp
    have step: "get_start r h = (if par h0 r \<noteq> NULL then get_start (par h0 r) h else Some NULL)"
      using c(1) rr loop rt(2) c0 by (subst get_start.simps) (simp add: Let_def)
    from 1(2) show ?thesis
    proof (cases rule: router_parent [OF T, consumes 1, case_names root kid])
      case root
      with False step show ?thesis by (simp add: live_def)
    next
      case (kid p)
      with step 1(1) [OF kid(1,4) front_live_up [OF 1(3) kid(1)]] show ?thesis by simp
    qed
  qed
qed

end
