(* ===== verification/Segments.thy ===== *)
theory Segments
  imports GroupingOps
begin

text \<open>
  The content of a group: an address list with a bitmap is a sequence of segments, each a router
  and the receivers listed behind it. The theory has the functions that lay segments out as the
  program does, the function by which a router on the way reads a header back, and the round trip
  between them.
\<close>


section \<open>Layout\<close>

type_synonym seg = "ptr \<times> ptr list"

definition entries :: "heap \<Rightarrow> seg list \<Rightarrow> in6_addr list" where
  "entries h segs = concat (map (\<lambda>(y, ls). raddr h y # map (laddr h) ls) segs)"

definition flags :: "seg list \<Rightarrow> bool list" where
  "flags segs = concat (map (\<lambda>(y, ls). True # replicate (length ls) False) segs)"

definition seg_leafs :: "seg list \<Rightarrow> ptr list" where
  "seg_leafs segs = concat (map snd segs)"

text \<open>The bitmap: bit \<open>31 - i\<close> is set if the entry \<open>i\<close> is a router.\<close>

definition bits_ok :: "uint32 \<Rightarrow> bool list \<Rightarrow> bool" where
  "bits_ok bm fs \<longleftrightarrow> (\<forall>i < 32. bit bm (31 - i) \<longleftrightarrow> i < length fs \<and> fs ! i)"

lemma entries_simps [simp]:
  "entries h [] = []"
  "entries h ((y, ls) # segs) = raddr h y # map (laddr h) ls @ entries h segs"
  "entries h (segs @ segs') = entries h segs @ entries h segs'"
  by (simp_all add: entries_def)

lemma flags_simps [simp]:
  "flags [] = []"
  "flags ((y, ls) # segs) = True # replicate (length ls) False @ flags segs"
  "flags (segs @ segs') = flags segs @ flags segs'"
  by (simp_all add: flags_def)

lemma seg_leafs_simps [simp]:
  "seg_leafs [] = []"
  "seg_leafs ((y, ls) # segs) = ls @ seg_leafs segs"
  "seg_leafs (segs @ segs') = seg_leafs segs @ seg_leafs segs'"
  by (simp_all add: seg_leafs_def)

lemma length_flags: "length (flags segs) = length (entries h segs)"
  by (induction segs) auto

lemma entries_Nil_iff [simp]: "entries h segs = [] \<longleftrightarrow> segs = []"
  by (cases segs) auto

lemma bits_ok_zero: "bits_ok 0 []"
  by (simp add: bits_ok_def)

lemma bits_ok_router:
  assumes "bits_ok bm fs" "length fs < 32"
  shows "bits_ok (bm OR push_bit (31 - length fs) 1) (fs @ True # replicate k False)"
  unfolding bits_ok_def
proof (intro allI impI)
  fix i :: nat
  assume i: "i < 32"
  have "bit (push_bit (31 - length fs) (1 :: uint32)) (31 - i) \<longleftrightarrow> i = length fs"
    using i assms(2) by (auto simp: bit_simps)
  moreover have "(fs @ True # replicate k False) ! i \<longleftrightarrow> i < length fs \<and> fs ! i \<or> i = length fs"
    if "i < length fs + 1 + k"
    using that by (auto simp: nth_append nth_Cons split: nat.splits)
  ultimately show "bit (bm OR push_bit (31 - length fs) 1) (31 - i) \<longleftrightarrow>
      i < length (fs @ True # replicate k False) \<and> (fs @ True # replicate k False) ! i"
    using assms(1) i unfolding bits_ok_def bit_or_iff by auto
qed

lemma bits_ok_leafs:
  assumes "bits_ok bm fs"
  shows "bits_ok bm (fs @ replicate k False)"
  using assms unfolding bits_ok_def by (auto simp: nth_append)


section \<open>Reading a header\<close>

text \<open>
  How the receiver of a header splits its addresses: an entry whose bit is set is a router, the
  entries up to the next router are receivers it is responsible for.
\<close>

function split_marked :: "(bool \<times> 'a) list \<Rightarrow> ('a \<times> 'a list) list" where
  "split_marked [] = []"
| "split_marked ((b, a) # xs) =
     (if b then (a, map snd (takeWhile (\<lambda>x. \<not> fst x) xs)) # split_marked (dropWhile (\<lambda>x. \<not> fst x) xs)
      else split_marked xs)"
  by pat_completeness auto
termination
  by (relation "measure length") (auto simp: le_imp_less_Suc length_dropWhile_le)

definition marks :: "uint32 \<Rightarrow> nat \<Rightarrow> bool list" where
  "marks bm n = map (\<lambda>i. bit bm (31 - i)) [0..<n]"

definition hdr_groups :: "ip6_mdc_hdr \<Rightarrow> (in6_addr \<times> in6_addr list) list" where
  "hdr_groups d = split_marked (zip (marks (mdc_rtm d) (unat (hdr_dsts d))) (mdc_addr d))"

lemma marks_flags:
  assumes "bits_ok bm fs" "length fs \<le> 32"
  shows "marks bm (length fs) = fs"
  using assms by (intro nth_equalityI) (auto simp: marks_def bits_ok_def)

lemma split_marked_leafs:
  "split_marked (zip (True # replicate (length ls) False @ flags segs) (y # ls @ entries h segs)) =
   (y, ls) # split_marked (zip (flags segs) (entries h segs))"
proof -
  let ?z = "zip (replicate (length ls) False) ls" and ?t = "zip (flags segs) (entries h segs)"
  have all: "\<forall>x \<in> set ?z. \<not> fst x" by (auto simp: in_set_zip)
  have head: "takeWhile (\<lambda>x. \<not> fst x) ?t = []" "dropWhile (\<lambda>x. \<not> fst x) ?t = ?t"
    by (cases segs; force)+
  have "takeWhile (\<lambda>x. \<not> fst x) (?z @ ?t) = ?z" "dropWhile (\<lambda>x. \<not> fst x) (?z @ ?t) = ?t"
    using all head by (simp_all add: takeWhile_append2 dropWhile_append2)
  moreover have "map snd ?z = ls" by (simp add: map_snd_zip)
  moreover have "zip (replicate (length ls) False @ flags segs) (ls @ entries h segs) = ?z @ ?t"
    by (simp add: zip_append)
  ultimately show ?thesis by simp
qed

lemma split_marked_entries:
  "split_marked (zip (flags segs) (entries h segs)) =
   map (\<lambda>(y, ls). (raddr h y, map (laddr h) ls)) segs"
proof (induction segs)
  case (Cons s segs)
  obtain y ls where s: "s = (y, ls)" by (cases s)
  show ?case
    using split_marked_leafs [of "map (laddr h) ls" segs "raddr h y" h] Cons.IH by (simp add: s)
qed simp

text \<open>The fields in front of the bitmaps, but for the number of destinations.\<close>

definition data_hdr :: "ip6_mdc_hdr \<Rightarrow> bool" where
  "data_hdr d \<longleftrightarrow> mdc_rthdr d = \<lparr>ip6r_nxt = IPPROTO_UDP, ip6r_len = word_of_nat (2 * length (mdc_addr d) + 1),
     ip6r_type = IPV6_MEADCAST, ip6r_segleft = 0\<rparr> \<and> \<not> hdr_dcv d \<and> \<not> hdr_rsp d"

lemma data_hdr_set: "n \<le> length l \<Longrightarrow> data_hdr (set_data_hdr l n bm)"
  by (simp add: data_hdr_def set_data_hdr_fields set_data_hdr_rthdr min_absorb2)

text \<open>A header that lists the segments \<open>g\<close>.\<close>

definition hdr_ok :: "heap \<Rightarrow> nat \<Rightarrow> ip6_mdc_hdr \<Rightarrow> seg list \<Rightarrow> bool" where
  "hdr_ok h mx d g \<longleftrightarrow> mdc_addr d = entries h g \<and> unat (hdr_dsts d) = length (entries h g) \<and>
     bits_ok (mdc_rtm d) (flags g) \<and> mdc_dlvm d = mdc_rtm d \<and> g \<noteq> [] \<and> (\<forall>s \<in> set g. snd s \<noteq> []) \<and>
     length (entries h g) \<le> mx \<and> data_hdr d"

lemma hdr_groups_ok:
  "hdr_ok h mx d g \<Longrightarrow> mx \<le> 32 \<Longrightarrow> hdr_groups d = map (\<lambda>(y, ls). (raddr h y, map (laddr h) ls)) g"
  using marks_flags [of "mdc_rtm d" "flags g"] split_marked_entries [of g h]
  by (auto simp: hdr_ok_def hdr_groups_def length_flags [of g h])

end
