(* ===== verification/GroupingAdd.thy ===== *)
theory GroupingAdd
  imports Segments
begin

text \<open>
  What \<open>add2txg\<close> does to the group under construction. The address list and the bitmap always lay
  out a sequence of segments; a call appends a segment, or extends the last one when the merging
  of routers is on and the router is near. In the second case the segment's router may be replaced
  by one nearer to the sender; if distances increase on every path away from the sender, that
  router is on the path to every receiver listed behind it.
\<close>


section \<open>Invariant of the merging variables\<close>

definition strict_hops :: "heap \<Rightarrow> view \<Rightarrow> bool" where
  "strict_hops h V \<longleftrightarrow> (\<forall>(p, x) \<in> kid_edges V. hops_at h p < hops_at h x)"

lemma strict_hops_path:
  "strict_hops h V \<Longrightarrow> (x, y) \<in> (kid_edges V)\<^sup>* \<Longrightarrow> x = y \<or> hops_at h x < hops_at h y"
  by (rotate_tac, induction rule: rtrancl_induct) (force simp: strict_hops_def)+

text \<open>
  \<open>c\<close> is the closest router, \<open>p\<close> the potential one, \<open>r\<close> the router at which the traversal is: one
  of the two is an ancestor of both \<open>r\<close> and the closest router.
\<close>

definition path_ok :: "view \<Rightarrow> counts \<Rightarrow> ptr \<Rightarrow> ptr \<Rightarrow> ptr \<Rightarrow> bool" where
  "path_ok V F r c p \<longleftrightarrow>
     (p \<noteq> NULL \<longrightarrow> (p, c) \<in> (kid_edges V)\<^sup>* \<or> (c, p) \<in> (kid_edges V)\<^sup>*) \<and>
     ((c, r) \<in> (kid_edges V)\<^sup>* \<or>
      p \<noteq> NULL \<and> (p, c) \<in> (kid_edges V)\<^sup>* \<and> (p, r) \<in> (kid_edges V)\<^sup>* \<and> (p = r \<or> live F r))"

text \<open>The router that \<open>set_txg_router\<close> makes the closest one when it merges \<open>r\<close>.\<close>

definition takes_pcr :: "heap \<Rightarrow> ptr \<Rightarrow> ptr \<Rightarrow> ptr \<Rightarrow> bool" where
  "takes_pcr h r c p \<longleftrightarrow> p \<noteq> NULL \<and> hops_at h p < hops_at h r \<and> hops_at h p < hops_at h c"

definition closest :: "heap \<Rightarrow> ptr \<Rightarrow> ptr \<Rightarrow> ptr \<Rightarrow> ptr" where
  "closest h r c p =
     (if takes_pcr h r c p then p else if hops_at h r < hops_at h c then r else c)"

lemma closest_path:
  assumes H: "strict_hops h V" and P: "path_ok V F r c p"
  shows "(closest h r c p, c) \<in> (kid_edges V)\<^sup>*" "(closest h r c p, r) \<in> (kid_edges V)\<^sup>*"
    "path_ok V F' r (closest h r c p) (if takes_pcr h r c p then NULL else p)"
proof -
  note mono = strict_hops_path [OF H]
  have main: "(closest h r c p, c) \<in> (kid_edges V)\<^sup>* \<and> (closest h r c p, r) \<in> (kid_edges V)\<^sup>* \<and>
    (\<not> takes_pcr h r c p \<and> p \<noteq> NULL \<longrightarrow>
      (p, closest h r c p) \<in> (kid_edges V)\<^sup>* \<or> (closest h r c p, p) \<in> (kid_edges V)\<^sup>*)"
  proof (cases "takes_pcr h r c p")
    case True
    then have p: "p \<noteq> NULL" "hops_at h p < hops_at h r" "hops_at h p < hops_at h c"
      by (auto simp: takes_pcr_def)
    then have pc: "(p, c) \<in> (kid_edges V)\<^sup>*" using P mono [of c p] by (auto simp: path_ok_def)
    have "(p, r) \<in> (kid_edges V)\<^sup>*"
      using P pc by (auto simp: path_ok_def intro: rtrancl_trans)
    with pc True show ?thesis by (simp add: closest_def)
  next
    case no: False
    show ?thesis
    proof (cases "hops_at h r < hops_at h c")
      case True
      then have "(c, r) \<notin> (kid_edges V)\<^sup>*" using mono [of c r] by auto
      then have p: "p \<noteq> NULL" "(p, c) \<in> (kid_edges V)\<^sup>*" "(p, r) \<in> (kid_edges V)\<^sup>*"
        using P by (auto simp: path_ok_def)
      have "p = r"
      proof (rule ccontr)
        assume "p \<noteq> r"
        then have "hops_at h p < hops_at h r" using mono [OF p(3)] by simp
        with no True p(1) show False by (simp add: takes_pcr_def)
      qed
      with no True p show ?thesis by (simp add: closest_def)
    next
      case False
      have "(c, r) \<in> (kid_edges V)\<^sup>*"
      proof (rule ccontr)
        assume "(c, r) \<notin> (kid_edges V)\<^sup>*"
        then have p: "p \<noteq> NULL" "(p, c) \<in> (kid_edges V)\<^sup>*" "(p, r) \<in> (kid_edges V)\<^sup>*"
          using P by (auto simp: path_ok_def)
        then have "p \<noteq> c" using \<open>(c, r) \<notin> (kid_edges V)\<^sup>*\<close> by blast
        then have pc: "hops_at h p < hops_at h c" using mono [OF p(2)] by simp
        then have "hops_at h p < hops_at h r" using False by simp
        with no pc p(1) show False by (simp add: takes_pcr_def)
      qed
      with no False P show ?thesis by (auto simp: closest_def path_ok_def)
    qed
  qed
  then show "(closest h r c p, c) \<in> (kid_edges V)\<^sup>*" "(closest h r c p, r) \<in> (kid_edges V)\<^sup>*"
    by blast+
  show "path_ok V F' r (closest h r c p) (if takes_pcr h r c p then NULL else p)"
    using main by (auto simp: path_ok_def)
qed

lemma path_ok_self: "path_ok V F r r NULL"
  by (simp add: path_ok_def)

lemma path_ok_down:
  assumes "path_ok V F r c p" "(r, x) \<in> kid_edges V" "live F x"
  shows "path_ok V F x c p"
  using assms rtrancl.rtrancl_into_rtrancl [OF _ assms(2)] unfolding path_ok_def by blast

lemma path_ok_up:
  assumes T: "tree_view V root" and P: "path_ok V F r c p" and e: "(q, r) \<in> kid_edges V"
    and dead: "\<not> live F r" and q: "q \<noteq> NULL"
  shows "path_ok V F' q c q"
proof -
  have qr: "(q, r) \<in> (kid_edges V)\<^sup>*" using e by blast
  have "(c, r) \<in> (kid_edges V)\<^sup>* \<or> (r, c) \<in> (kid_edges V)\<^sup>*" using P dead by (auto simp: path_ok_def)
  then have "(q, c) \<in> (kid_edges V)\<^sup>* \<or> (c, q) \<in> (kid_edges V)\<^sup>*"
    using tree_comparable [OF T qr] rtrancl_trans [OF qr] by blast
  with q show ?thesis by (auto simp: path_ok_def)
qed

definition ms_ok :: "arguments \<Rightarrow> heap \<Rightarrow> view \<Rightarrow> ptr \<Rightarrow> seg list \<Rightarrow> merging \<Rightarrow> bool" where
  "ms_ok A h V root segs ms \<longleftrightarrow>
     (mg_cr ms = NULL \<longrightarrow> mg_pcr ms = NULL) \<and>
     (mg_cr ms \<noteq> NULL \<longrightarrow> merge_range A \<noteq> 0 \<and> (root, mg_cr ms) \<in> (kid_edges V)\<^sup>+ \<and>
       (\<exists>ss ls. segs = ss @ [(mg_cr ms, ls)] \<and> mg_icr ms = length (entries h ss))) \<and>
     (mg_pcr ms \<noteq> NULL \<longrightarrow> (root, mg_pcr ms) \<in> (kid_edges V)\<^sup>+)"

definition ms_path :: "heap \<Rightarrow> view \<Rightarrow> counts \<Rightarrow> ptr \<Rightarrow> merging \<Rightarrow> bool" where
  "ms_path h V F r ms \<longleftrightarrow>
     (strict_hops h V \<and> mg_cr ms \<noteq> NULL \<longrightarrow> path_ok V F r (mg_cr ms) (mg_pcr ms))"

lemma ms_reset [simp]: "ms_ok A h V root segs reset_merging_stats" "ms_path h V F r reset_merging_stats"
    "mg_cr reset_merging_stats = NULL"
  by (simp_all add: ms_ok_def ms_path_def reset_merging_stats_def)

text \<open>Every receiver in a segment is below the router of the segment.\<close>

definition cover :: "heap \<Rightarrow> view \<Rightarrow> seg list \<Rightarrow> bool" where
  "cover h V segs \<longleftrightarrow>
     (\<forall>(y, ls) \<in> set segs. \<forall>l \<in> set ls. (y, par h l) \<in> (kid_edges V)\<^sup>*)"

lemma cover_simps [simp]:
  "cover h V []"
  "cover h V (segs @ segs') \<longleftrightarrow> cover h V segs \<and> cover h V segs'"
  "cover h V (s # segs) \<longleftrightarrow> (\<forall>l \<in> set (snd s). (fst s, par h l) \<in> (kid_edges V)\<^sup>*) \<and> cover h V segs"
  by (auto simp: cover_def)

lemma cover_merge:
  assumes H: "strict_hops h V" and P: "path_ok V F r c p" and C: "cover h V (ss @ [(c, ls)])"
    and ks: "\<And>l. l \<in> set ks \<Longrightarrow> par h l = r"
  shows "cover h V (ss @ [(closest h r c p, ls @ ks)])"
  using C ks closest_path [OF H P] by (auto intro: rtrancl_trans)


section \<open>The address list\<close>

definition cur_ok :: "heap \<Rightarrow> nat \<Rightarrow> seg list \<Rightarrow> in6_addr list \<Rightarrow> uint32 \<Rightarrow> nat \<Rightarrow> bool" where
  "cur_ok h mx segs l bm n \<longleftrightarrow> length l = mx \<and> mx \<le> 32 \<and> n \<le> mx \<and> n = length (entries h segs) \<and>
     take n l = entries h segs \<and> bits_ok bm (flags segs) \<and> (\<forall>s \<in> set segs. snd s \<noteq> [])"

lemma cur_ok_empty: "length l = mx \<Longrightarrow> mx \<le> 32 \<Longrightarrow> cur_ok h mx [] l 0 0"
  by (simp add: cur_ok_def bits_ok_zero)

lemma add2txg_loop_ok:
  "chain (cells h) c ys \<Longrightarrow> m \<le> length ys \<Longrightarrow> i + m \<le> length l \<Longrightarrow>
   (\<And>v. v \<in> snd ` set ys \<Longrightarrow> leafs h v \<noteq> None) \<Longrightarrow> ldata h = ldata h0 \<Longrightarrow>
   add2txg_loop m c i l h =
     Some (take i l @ map (laddr h0) (take m (map snd ys)) @ drop (i + m) l)"
proof (induction m arbitrary: c ys i l)
  case (Suc m)
  then obtain v zs where ys: "ys = (c, v) # zs" by (cases ys) (auto elim: chain_ConsE)
  with Suc.prems(1) obtain ce where ce: "cells h c = Some ce" "child_v ce = v"
      "chain (cells h) (child_n ce) zs" by (auto split: option.splits)
  obtain lf where lf: "leafs h v = Some lf" using Suc.prems(4) [of v] ys by auto
  let ?a = "sin6_addr (addr_sa (rcvr_addr (leaf_val lf)))"
  have "ldata h v = Some (leaf_val lf)" using lf by (simp add: ldata_def)
  then have a: "?a = laddr h0 v" using Suc.prems(5) by (simp add: laddr_def)
  have "add2txg_loop m (child_n ce) (i + 1) (l[i := ?a]) h =
      Some (take (i + 1) (l[i := ?a]) @ map (laddr h0) (take m (map snd zs)) @
        drop (i + 1 + m) (l[i := ?a]))"
    using Suc.prems ys ce by (intro Suc.IH) auto
  moreover have "take (i + 1) (l[i := ?a]) = take i l @ [laddr h0 v]"
    using Suc.prems(3) by (simp add: take_Suc_conv_app_nth a)
  ultimately show ?case
    using ce lf Suc.prems(3) ys by (simp add: drop_update_cancel)
qed simp


section \<open>The router entry\<close>

lemma set_txg_router_new:
  assumes S: "same_tree h0 V h" and r: "routers h0 r \<noteq> None" "r \<noteq> NULL"
    and n: "n < length l" "length l \<le> 32" and cr: "mg_cr ms = NULL"
  shows "set_txg_router A l bm r n ms h = Some (1, l[n := raddr h0 r], bm OR push_bit (31 - n) 1,
    if merge_range A = 0 then ms\<lparr>mg_icr := n\<rparr>
    else set_merging_stats r n (int_of_size (hops_at h0 r)) ms)"
proof -
  obtain rr where "routers h r = Some rr" "router_hops rr = hops_at h0 r"
    "sin6_addr (router_sa rr) = raddr h0 r"
    using same_tree_router [OF S r(1)] by metis
  with r(2) n cr show ?thesis
    by (simp add: set_txg_router_def txg_bitmap_def txg_copy_def set_merging_stats_def)
qed

lemma set_txg_router_merge:
  assumes S: "same_tree h0 V h" and r: "routers h0 r \<noteq> None" "r \<noteq> NULL"
    and cr: "mg_cr ms \<noteq> NULL" "routers h0 (mg_cr ms) \<noteq> None" "merge_range A \<noteq> 0"
    and pcr: "mg_pcr ms \<noteq> NULL \<Longrightarrow> routers h0 (mg_pcr ms) \<noteq> None"
    and icr: "mg_icr ms < length l" "l ! mg_icr ms = raddr h0 (mg_cr ms)"
  shows "set_txg_router A l bm r n ms h = Some (0,
    l[mg_icr ms := raddr h0 (closest h0 r (mg_cr ms) (mg_pcr ms))], bm,
    ms\<lparr>mg_cr := closest h0 r (mg_cr ms) (mg_pcr ms),
      mg_pcr := (if takes_pcr h0 r (mg_cr ms) (mg_pcr ms) then NULL else mg_pcr ms)\<rparr>)"
proof -
  let ?c = "mg_cr ms" and ?p = "mg_pcr ms"
  obtain rr where rr: "routers h r = Some rr" "router_hops rr = hops_at h0 r"
    "sin6_addr (router_sa rr) = raddr h0 r"
    using same_tree_router [OF S r(1)] by metis
  obtain cc where cc: "routers h ?c = Some cc" "router_hops cc = hops_at h0 ?c"
    "sin6_addr (router_sa cc) = raddr h0 ?c"
    using same_tree_router [OF S cr(2)] by metis
  have p: "\<exists>pc. routers h ?p = Some pc \<and> router_hops pc = hops_at h0 ?p \<and>
      sin6_addr (router_sa pc) = raddr h0 ?p" if "?p \<noteq> NULL"
    using same_tree_router [OF S pcr [OF that]] by metis
  then have b: "(if ?p \<noteq> NULL then do {
        pc \<leftarrow> routers h ?p;
        Some (router_hops pc < router_hops rr \<and> router_hops pc < router_hops cc)
      } else Some False) = Some (takes_pcr h0 r ?c ?p)"
    using rr(2) cc(2) by (auto simp: takes_pcr_def)
  have same: "l[mg_icr ms := raddr h0 ?c] = l" using icr(2) by (metis list_update_id)
  consider "takes_pcr h0 r ?c ?p" | "\<not> takes_pcr h0 r ?c ?p" "hops_at h0 r < hops_at h0 ?c" |
    "\<not> takes_pcr h0 r ?c ?p" "\<not> hops_at h0 r < hops_at h0 ?c" by blast
  then show ?thesis
  proof cases
    case 1
    then have "?p \<noteq> NULL" by (simp add: takes_pcr_def)
    then obtain pc where "routers h ?p = Some pc" "sin6_addr (router_sa pc) = raddr h0 ?p"
      using p by blast
    with 1 rr cc cr icr(1) b \<open>?p \<noteq> NULL\<close> show ?thesis
      by (simp add: set_txg_router_def txg_copy_def closest_def split del: if_split cong: if_cong)
  next
    case 2
    with rr cc cr r(2) icr(1) b show ?thesis
      by (simp add: set_txg_router_def txg_copy_def closest_def split del: if_split cong: if_cong)
  next
    case 3
    with rr cc cr r(2) icr(1) b same show ?thesis
      by (simp add: set_txg_router_def txg_copy_def closest_def split del: if_split cong: if_cong)
  qed
qed

end
