(* ===== verification/GroupingRun.thy ===== *)
theory GroupingRun
  imports GroupingAdd
begin

text \<open>
  The main loop of \<open>greedy_grouping\<close>: its invariant at the label \<open>start\<close>, what the loop body does
  under it, and the measure that every jump decreases.
\<close>


section \<open>Invariant\<close>

text \<open>The headers finished so far, the latest first, and the segments each of them lists.\<close>

definition groups_ok :: "heap \<Rightarrow> nat \<Rightarrow> heap \<Rightarrow> ptr \<Rightarrow> seg list list \<Rightarrow> bool" where
  "groups_ok h0 mx h mdc es \<longleftrightarrow> (\<exists>ds. chain (cells h) mdc ds \<and>
     list_all2 (\<lambda>x g. \<exists>d. hdrs h (snd x) = Some d \<and> hdr_ok h0 mx d g \<and> \<not> is_node h0 (snd x)) ds es)"

text \<open>The receivers listed so far: the used leafs of the routers below the root, each once.\<close>

definition leaves_ok :: "view \<Rightarrow> counts \<Rightarrow> ptr \<Rightarrow> ptr list \<Rightarrow> bool" where
  "leaves_ok V F root ls \<longleftrightarrow> distinct ls \<and>
     set ls = {l. \<exists>x. (root, x) \<in> (kid_edges V)\<^sup>+ \<and> l \<in> set (used V F (Leaf, x))}"

definition gg_core :: "heap \<Rightarrow> view \<Rightarrow> ptr \<Rightarrow> nat \<Rightarrow> seg list \<Rightarrow> seg list list \<Rightarrow> gg \<Rightarrow> bool" where
  "gg_core h0 V root mx segs es st \<longleftrightarrow>
     topo_ok h0 V root \<and> 2 \<le> mx \<and> same_tree h0 V (gg_h st) \<and>
     free_of (gg_h st) (Leaf, root) = length (V (Leaf, root)) \<and>
     cur_ok h0 mx segs (gg_addrs st) (gg_bm st) (gg_n st) \<and>
     groups_ok h0 mx (gg_h st) (gg_mdc st) es \<and>
     leaves_ok V (free_of (gg_h st)) root (seg_leafs (concat es @ segs)) \<and>
     (strict_hops h0 V \<longrightarrow> cover h0 V (concat es @ segs))"

lemma gg_coreD:
  assumes "gg_core h0 V root mx segs es st"
  shows core_topo: "topo_ok h0 V root" and core_mx: "2 \<le> mx"
    and core_tree: "same_tree h0 V (gg_h st)"
    and core_root: "free_of (gg_h st) (Leaf, root) = length (V (Leaf, root))"
    and core_cur: "cur_ok h0 mx segs (gg_addrs st) (gg_bm st) (gg_n st)"
    and core_groups: "groups_ok h0 mx (gg_h st) (gg_mdc st) es"
    and core_leaves: "leaves_ok V (free_of (gg_h st)) root (seg_leafs (concat es @ segs))"
    and core_cover: "strict_hops h0 V \<Longrightarrow> cover h0 V (concat es @ segs)"
  using assms unfolding gg_core_def by blast+

lemma gg_core_cong:
  assumes C: "gg_core h0 V root mx segs es st"
    and "same_tree h0 V (gg_h st')" "same_rest (gg_h st) (gg_h st')"
      "counts_le (free_of (gg_h st')) (free_of (gg_h st))"
      "gg_addrs st' = gg_addrs st" "gg_bm st' = gg_bm st" "gg_n st' = gg_n st" "gg_mdc st' = gg_mdc st"
  shows "gg_core h0 V root mx segs es st'"
proof -
  have "leaves_ok V (free_of (gg_h st')) root ls" if "leaves_ok V (free_of (gg_h st)) root ls" for ls
    using that used_leaf_le [OF assms(4)] by (simp add: leaves_ok_def)
  with assms show ?thesis
    unfolding gg_core_def by (auto simp: same_rest_def groups_ok_def counts_le_def)
qed

text \<open>At a router below the root, with counters that are right but for that router's own.\<close>

definition gg_at :: "view \<Rightarrow> ptr \<Rightarrow> gg \<Rightarrow> bool" where
  "gg_at V root st \<longleftrightarrow> (root, gg_r st) \<in> (kid_edges V)\<^sup>+ \<and>
     kids_ok V (free_of (gg_h st)) {gg_r st} \<and> front V (free_of (gg_h st)) (gg_r st)"

definition mergeable :: "arguments \<Rightarrow> heap \<Rightarrow> merging \<Rightarrow> ptr \<Rightarrow> bool" where
  "mergeable A h ms r \<longleftrightarrow> mg_cr ms \<noteq> NULL \<and>
     nat \<bar>mg_init_hops ms - int_of_size (hops_at h r)\<bar> \<le> merge_range A \<and>
     nat \<bar>int_of_size (hops_at h (mg_cr ms)) - int_of_size (hops_at h r)\<bar> \<le> merge_range A"

lemma is_mergeable_ok:
  assumes S: "same_tree h0 V h" and r: "routers h0 r \<noteq> None"
    and cr: "mg_cr ms \<noteq> NULL \<Longrightarrow> routers h0 (mg_cr ms) \<noteq> None"
  shows "is_mergeable A ms r h = Some (mergeable A h0 ms r)"
proof (cases "mg_cr ms = NULL")
  case False
  obtain rr where "routers h r = Some rr" "router_hops rr = hops_at h0 r"
    using same_tree_router [OF S r] by metis
  moreover obtain cc where "routers h (mg_cr ms) = Some cc" "router_hops cc = hops_at h0 (mg_cr ms)"
    using same_tree_router [OF S cr [OF False]] by metis
  ultimately show ?thesis using False by (simp add: is_mergeable_def mergeable_def)
qed (simp add: is_mergeable_def mergeable_def)

lemma ms_ok_router:
  assumes T: "topo_ok h0 V root" and M: "ms_ok A h0 V root segs ms"
  shows "mg_cr ms \<noteq> NULL \<Longrightarrow> routers h0 (mg_cr ms) \<noteq> None"
    "mg_pcr ms \<noteq> NULL \<Longrightarrow> routers h0 (mg_pcr ms) \<noteq> None"
  using M tree_router(1) [OF T] by (auto simp: ms_ok_def dest: trancl_into_rtrancl)


section \<open>Adding receivers\<close>

lemma leaves_ok_take:
  assumes T: "topo_ok h0 V root" and S: "same_tree h0 V h" and r: "(root, r) \<in> (kid_edges V)\<^sup>+"
    and m: "m \<le> free_of h (Leaf, r)" and L: "leaves_ok V (free_of h) root ls"
    and ls': "distinct ls'" "set ls' = set ls \<union> set (take m (frees V (free_of h) (Leaf, r)))"
  shows "leaves_ok V (take_leafs r m (free_of h)) root ls'"
proof -
  let ?F = "free_of h" and ?F' = "take_leafs r m (free_of h)"
  have u: "used V ?F' (Leaf, x) = (if x = r then used V ?F (Leaf, r) @ take m (frees V ?F (Leaf, r))
      else used V ?F (Leaf, x))" for x
    unfolding take_leafs_def
    using frees_fewer(2) [of V ?F m "(Leaf, r)"] same_tree_in_range [OF S] m frees_other(2) by simp
  show ?thesis using L ls' r unfolding leaves_ok_def u by auto
qed

lemma free_leafs_new:
  assumes T: "topo_ok h0 V root" and S: "same_tree h0 V h"
    and L: "leaves_ok V (free_of h) root ls"
  shows "set ls \<inter> set (frees V (free_of h) (Leaf, r)) = {}"
proof -
  note TV = topo_tree_view [OF T] and R = st_repr [OF S]
  have "x = r" if x: "l \<in> set (used V (free_of h) (Leaf, x))" "l \<in> set (frees V (free_of h) (Leaf, r))" for l x
  proof -
    from x obtain c c' where "(c, l) \<in> set (V (Leaf, x))" "(c', l) \<in> set (V (Leaf, r))"
      by (auto simp: used_def frees_def dest!: in_set_takeD in_set_dropD)
    then show ?thesis using repr_in [OF R] by metis
  qed
  moreover have "set (used V (free_of h) (Leaf, r)) \<inter> set (frees V (free_of h) (Leaf, r)) = {}"
    using tree_distinct [OF TV, of "(Leaf, r)"] used_frees [of V "free_of h" "(Leaf, r)"]
    by (metis distinct_append)
  ultimately show ?thesis using L by (auto simp: leaves_ok_def)
qed

lemma free_leafs_parent:
  assumes S: "same_tree h0 V h" and l: "l \<in> set (frees V (free_of h) (Leaf, r))"
  shows "par h0 l = r" "leafs h l \<noteq> None"
proof -
  obtain c where "(c, l) \<in> set (V (Leaf, r))"
    using l by (auto simp: frees_def dest: in_set_dropD)
  then show "par h0 l = r" "leafs h l \<noteq> None"
    using repr_in [OF st_repr [OF S], of c l Leaf r] st_par [OF S] by auto
qed

text \<open>
  The part of \<open>add2txg\<close> after \<open>set_txg_router\<close>, which returned the number \<open>s\<close> of entries it added.
\<close>

lemma add2txg_rest:
  assumes S: "same_tree h0 V h" and r: "routers h0 r \<noteq> None"
    and m: "m \<le> free_of h (Leaf, r)" "n + s + m \<le> length l'"
    and set: "set_txg_router A l bm r n ms h = Some (s, l', bm', ms')"
  shows "\<exists>h'. add2txg A l bm r n m ms h = Some
      (take (n + s) l' @ map (laddr h0) (take m (frees V (free_of h) (Leaf, r))) @ drop (n + s + m) l',
       bm', n + (m + s), ms', h') \<and>
    same_tree h0 V h' \<and> same_rest h h' \<and> free_of h' = take_leafs r m (free_of h)"
proof -
  obtain c ys where c: "get_free_leaf r h = Some c" "chain (cells h) c ys"
      "map snd ys = frees V (free_of h) (Leaf, r)"
    using frees_head [OF S r, of Leaf] by auto
  have "length ys = free_of h (Leaf, r)"
    using c(3) length_frees [OF same_tree_in_range [OF S]] by (metis length_map)
  then have loop: "add2txg_loop m c (n + s) l' h = Some
      (take (n + s) l' @ map (laddr h0) (take m (map snd ys)) @ drop (n + s + m) l')"
    using m c(3) free_leafs_parent(2) [OF S, of _ r] st_ldata [OF S]
    by (intro add2txg_loop_ok [OF c(2)]) (auto simp flip: c(3))
  obtain rr where rr: "routers h r = Some rr" "router_fleaf rr = free_of h (Leaf, r)"
    using same_tree_router [OF S r] by metis
  let ?h = "set_free Leaf r (free_of h (Leaf, r) - m) h"
  have "upd_router r (router_fleaf_update (\<lambda>f. size_sub f m)) h = Some ?h"
    by (rule upd_router_fleaf [OF rr(1)]) (simp add: rr(2) m(1))
  then show ?thesis
    using set c(1) loop c(3) set_free_ok [OF S r, of "free_of h (Leaf, r) - m" Leaf]
    by (intro exI [of _ ?h]) (simp add: add2txg_def take_leafs_def)
qed

lemma gg_add_ok:
  assumes C: "gg_core h0 V root mx segs es st" and at: "gg_at V root st"
    and M: "ms_ok A h0 V root segs (gg_ms st)" "ms_path h0 V (free_of (gg_h st)) (gg_r st) (gg_ms st)"
    and p: "p = (if mg_cr (gg_ms st) = NULL then 1 else 0)"
    and m: "0 < m" "m \<le> free_of (gg_h st) (Leaf, gg_r st)" "gg_n st + m + p \<le> mx"
  shows "\<exists>l bm ms h' segs'. gg_add A m st =
      Some (st\<lparr>gg_addrs := l, gg_bm := bm, gg_n := gg_n st + m + p, gg_ms := ms, gg_h := h'\<rparr>) \<and>
    gg_core h0 V root mx segs' es (st\<lparr>gg_addrs := l, gg_bm := bm, gg_n := gg_n st + m + p, gg_ms := ms, gg_h := h'\<rparr>) \<and>
    free_of h' = take_leafs (gg_r st) m (free_of (gg_h st)) \<and>
    ms_ok A h0 V root segs' ms \<and> ms_path h0 V (free_of h') (gg_r st) ms"
proof -
  let ?h = "gg_h st" and ?r = "gg_r st" and ?n = "gg_n st" and ?ms = "gg_ms st" and ?l = "gg_addrs st"
  let ?F = "free_of ?h" and ?ks = "take m (frees V (free_of (gg_h st)) (Leaf, gg_r st))"
  note T = core_topo [OF C] and S = core_tree [OF C]
  have r: "routers h0 ?r \<noteq> None" "?r \<noteq> NULL"
    using at tree_router [OF T] by (auto simp: gg_at_def dest: trancl_into_rtrancl)
  have cur: "length ?l = mx" "mx \<le> 32" "?n \<le> mx" "?n = length (entries h0 segs)"
      "take ?n ?l = entries h0 segs" "bits_ok (gg_bm st) (flags segs)" "\<forall>s \<in> set segs. snd s \<noteq> []"
    using core_cur [OF C] by (auto simp: cur_ok_def)
  have ks: "length ?ks = m" "?ks \<noteq> []"
    using length_frees [OF same_tree_in_range [OF S], of "(Leaf, ?r)"] m(1,2) by auto
  have kpar: "par h0 x = ?r" if "x \<in> set ?ks" for x
    using free_leafs_parent(1) [OF S] in_set_takeD [OF that] by blast
  have kdist: "distinct ?ks" by (rule distinct_take [OF distinct_frees [OF topo_tree_view [OF T]]])
  define segs' where "segs' = (if mg_cr ?ms = NULL then segs @ [(?r, ?ks)]
    else butlast segs @ [(closest h0 ?r (mg_cr ?ms) (mg_pcr ?ms), snd (last segs) @ ?ks)])"
  have step: "\<exists>l' bm ms. set_txg_router A ?l (gg_bm st) ?r ?n ?ms ?h = Some (p, l', bm, ms) \<and>
      length l' = mx \<and> take (?n + p) l' @ map (laddr h0) ?ks = entries h0 segs' \<and>
      bits_ok bm (flags segs') \<and> (\<forall>s \<in> set segs'. snd s \<noteq> []) \<and>
      seg_leafs segs' = seg_leafs segs @ ?ks \<and>
      (strict_hops h0 V \<and> cover h0 V segs \<longrightarrow> cover h0 V segs') \<and>
      ms_ok A h0 V root segs' ms \<and> (\<forall>F. ms_path h0 V F ?r ms)"
  proof (cases "mg_cr ?ms = NULL")
    case True
    let ?ms' = "if merge_range A = 0 then ?ms\<lparr>mg_icr := ?n\<rparr>
      else set_merging_stats ?r ?n (int_of_size (hops_at h0 ?r)) ?ms"
    have n: "?n < length ?l" using m True p cur(1) by simp
    have segs': "segs' = segs @ [(?r, ?ks)]" by (simp add: segs'_def True)
    have "set_txg_router A ?l (gg_bm st) ?r ?n ?ms ?h =
        Some (1, ?l[?n := raddr h0 ?r], gg_bm st OR push_bit (31 - ?n) 1, ?ms')"
      using set_txg_router_new [OF S r n _ True] cur(1,2) by simp
    moreover have "take (?n + 1) (?l[?n := raddr h0 ?r]) @ map (laddr h0) ?ks = entries h0 segs'"
      using n cur(5) by (simp add: take_Suc_conv_app_nth segs')
    moreover have "bits_ok (gg_bm st OR push_bit (31 - ?n) 1) (flags segs')"
      using bits_ok_router [OF cur(6), of m] cur n ks(1) by (simp add: segs' length_flags [of _ h0])
    moreover have "\<forall>s \<in> set segs'. snd s \<noteq> []" using cur(7) ks(2) by (simp add: segs')
    moreover have "mg_pcr ?ms = NULL" using M(1) True by (simp add: ms_ok_def)
    then have "ms_ok A h0 V root segs' ?ms'" "ms_path h0 V F ?r ?ms'" for F
      using True at cur(4)
      by (auto simp: ms_ok_def ms_path_def gg_at_def set_merging_stats_def segs' path_ok_self)
    ultimately show ?thesis using p True cur(1) kpar by (auto simp: segs')
  next
    case False
    let ?c = "mg_cr ?ms" and ?p = "mg_pcr ?ms"
    let ?cl = "closest h0 ?r ?c ?p"
    obtain ss ls where ss: "segs = ss @ [(?c, ls)]" "mg_icr ?ms = length (entries h0 ss)"
        "merge_range A \<noteq> 0" "(root, ?c) \<in> (kid_edges V)\<^sup>+"
        "?p \<noteq> NULL \<longrightarrow> (root, ?p) \<in> (kid_edges V)\<^sup>+"
      using M(1) False by (auto simp: ms_ok_def)
    let ?i = "length (entries h0 ss)"
    let ?ms' = "?ms\<lparr>mg_cr := ?cl, mg_pcr := (if takes_pcr h0 ?r ?c ?p then NULL else ?p)\<rparr>"
    have p0: "p = 0" using p False by simp
    have l: "?l = entries h0 ss @ raddr h0 ?c # map (laddr h0) ls @ drop ?n ?l"
      using append_take_drop_id [of ?n ?l] cur(5) ss(1) by simp
    then have i: "?i < length ?l" "?l ! ?i = raddr h0 ?c" by (metis length_append length_Cons
      less_add_same_cancel1 zero_less_Suc, metis nth_append_length)
    have l': "?l[?i := x] = entries h0 ss @ x # map (laddr h0) ls @ drop ?n ?l" for x
      by (subst l) simp
    have segs': "segs' = ss @ [(?cl, ls @ ?ks)]" using False by (simp add: segs'_def ss(1))
    have "set_txg_router A ?l (gg_bm st) ?r ?n ?ms ?h = Some (0, ?l[?i := raddr h0 ?cl], gg_bm st, ?ms')"
      using set_txg_router_merge [OF S r False ms_ok_router(1) [OF T M(1) False] ss(3)
          ms_ok_router(2) [OF T M(1)]] i ss(2) by simp
    moreover have "take ?n (?l[?i := raddr h0 ?cl]) @ map (laddr h0) ?ks = entries h0 segs'"
      using cur(4) ss(1) by (simp add: l' segs')
    moreover have "bits_ok (gg_bm st) (flags segs')"
      using bits_ok_leafs [OF cur(6), of m] ks(1) by (simp add: ss(1) segs' replicate_add)
    moreover have "\<forall>s \<in> set segs'. snd s \<noteq> []" using cur(7) ks(2) by (simp add: segs' ss(1))
    moreover have "(root, ?cl) \<in> (kid_edges V)\<^sup>+" "?cl \<noteq> NULL"
      using ss(4,5) at False r(2) by (auto simp: closest_def takes_pcr_def gg_at_def)
    then have "ms_ok A h0 V root segs' ?ms'"
      using ss(3,5) by (simp add: ms_ok_def segs' ss(2))
    moreover have path: "path_ok V ?F ?r ?c ?p" if "strict_hops h0 V"
      using M(2) that False by (simp add: ms_path_def)
    then have "ms_path h0 V F ?r ?ms'" for F
      using closest_path(3) [of h0 V ?F ?r ?c ?p F] by (simp add: ms_path_def)
    moreover have "cover h0 V segs'" if "strict_hops h0 V" "cover h0 V segs"
      unfolding segs' using cover_merge [OF that(1) path [OF that(1)] _ kpar] that(2) ss(1) by simp
    ultimately show ?thesis using p0 cur(1) ss(1) by (auto simp: segs')
  qed
  then obtain l' bm ms where set: "set_txg_router A ?l (gg_bm st) ?r ?n ?ms ?h = Some (p, l', bm, ms)"
      "length l' = mx" "take (?n + p) l' @ map (laddr h0) ?ks = entries h0 segs'"
      "bits_ok bm (flags segs')" "\<forall>s \<in> set segs'. snd s \<noteq> []" "seg_leafs segs' = seg_leafs segs @ ?ks"
      "strict_hops h0 V \<and> cover h0 V segs \<longrightarrow> cover h0 V segs'"
      "ms_ok A h0 V root segs' ms" "\<And>F. ms_path h0 V F ?r ms" by blast
  let ?l' = "take (?n + p) l' @ map (laddr h0) ?ks @ drop (?n + p + m) l'"
  obtain h' where h': "add2txg A ?l (gg_bm st) ?r ?n m ?ms ?h = Some (?l', bm, ?n + (m + p), ms, h')"
      "same_tree h0 V h'" "same_rest ?h h'" "free_of h' = take_leafs ?r m ?F"
    using add2txg_rest [OF S r(1) m(2) _ set(1)] m(3) set(2) by (auto simp: ac_simps)
  have len: "length (take (?n + p) l') = ?n + p" using m(3) set(2) by simp
  have e: "?l' = entries h0 segs' @ drop (?n + p + m) l'" by (simp flip: set(3))
  have ln: "length (entries h0 segs') = ?n + m + p" using len ks(1) by (simp flip: set(3))
  have "cur_ok h0 mx segs' ?l' bm (?n + m + p)"
    unfolding cur_ok_def using e ln cur(2) m(3) set(2,4,5) len ks(1) by simp
  moreover have "groups_ok h0 mx h' (gg_mdc st) es"
    using core_groups [OF C] h'(3) by (simp add: groups_ok_def same_rest_def)
  moreover have "free_of h' (Leaf, root) = length (V (Leaf, root))"
    using core_root [OF C] at tree_no_cycle [OF topo_tree_view [OF T]]
      tree_acyclic [OF topo_tree_view [OF T]]
    by (auto simp: h'(4) take_leafs_def gg_at_def acyclic_def)
  moreover have "leaves_ok V (free_of h') root (seg_leafs (concat es @ segs'))"
    unfolding h'(4)
  proof (rule leaves_ok_take [OF T S _ m(2) core_leaves [OF C]])
    show "(root, ?r) \<in> (kid_edges V)\<^sup>+" using at by (simp add: gg_at_def)
    have "set (seg_leafs (concat es @ segs)) \<inter> set ?ks = {}"
      using free_leafs_new [OF T S core_leaves [OF C], of ?r]
        set_take_subset [of m "frees V ?F (Leaf, ?r)"] by blast
    moreover have "distinct (seg_leafs (concat es @ segs))"
      using core_leaves [OF C] by (simp add: leaves_ok_def)
    ultimately show "distinct (seg_leafs (concat es @ segs'))"
      using kdist by (simp add: set(6) Int_Un_distrib2 Int_Un_distrib)
  qed (simp add: set(6) Un_assoc)
  moreover have "strict_hops h0 V \<longrightarrow> cover h0 V (concat es @ segs')"
    using core_cover [OF C] set(7) by simp
  ultimately have "gg_core h0 V root mx segs' es
      (st\<lparr>gg_addrs := ?l', gg_bm := bm, gg_n := ?n + m + p, gg_ms := ms, gg_h := h'\<rparr>)"
    using T core_mx [OF C] h'(2) by (simp add: gg_core_def)
  moreover have "gg_add A m st = Some (st\<lparr>gg_addrs := ?l', gg_bm := bm, gg_n := ?n + m + p, gg_ms := ms, gg_h := h'\<rparr>)"
    using h'(1) by (simp add: gg_add_def ac_simps)
  ultimately show ?thesis using h'(4) set(8,9) by blast
qed


section \<open>Measure\<close>

definition total :: "nat \<Rightarrow> counts \<Rightarrow> nat" where
  "total b F = (\<Sum>x < b. F (Leaf, x) + F (Kid, x))"

lemma total_le: "(\<And>kr. F' kr \<le> F kr) \<Longrightarrow> total b F' \<le> total b F"
  unfolding total_def by (intro sum_mono add_mono) auto

lemma total_less:
  assumes "\<And>kr. F' kr \<le> F kr" "F' (k, x) < F (k, x)" "x < b"
  shows "total b F' < total b F"
  unfolding total_def
proof (rule sum_strict_mono_ex1)
  show "\<forall>x \<in> {..<b}. F' (Leaf, x) + F' (Kid, x) \<le> F (Leaf, x) + F (Kid, x)"
    using assms(1) by (simp add: add_mono)
  have "F' (Leaf, x) + F' (Kid, x) < F (Leaf, x) + F (Kid, x)"
    using assms(1) [of "(Leaf, x)"] assms(1) [of "(Kid, x)"] assms(2) by (cases k) simp_all
  then show "\<exists>x \<in> {..<b}. F' (Leaf, x) + F' (Kid, x) < F (Leaf, x) + F (Kid, x)"
    using assms(3) by blast
qed simp

lemma total_take_leafs:
  "0 < m \<Longrightarrow> m \<le> F (Leaf, r) \<Longrightarrow> r < b \<Longrightarrow> total b (take_leafs r m F) < total b F"
  by (rule total_less [where k = Leaf and x = r]) (auto simp: take_leafs_def)

lemma total_drop_kid: "0 < F (Kid, p) \<Longrightarrow> p < b \<Longrightarrow> total b (drop_kid p F) < total b F"
  by (rule total_less [where k = Kid and x = p]) (auto simp: drop_kid_def)

lemma total_counts_le: "counts_le F' F \<Longrightarrow> total b F' \<le> total b F"
  unfolding counts_le_def by (rule total_le) blast

text \<open>
  Every jump uses something up, or gives up a started group, or goes down the tree.
\<close>

definition gg_rel :: "view \<Rightarrow> heap \<Rightarrow> (gg \<times> gg) set" where
  "gg_rel V h0 = measures [\<lambda>st. total (brk h0) (free_of (gg_h st)),
     \<lambda>st. if gg_n st = 0 then 0 else 1, \<lambda>st. below V (gg_r st)]"

definition gg_total :: "heap \<Rightarrow> gg \<Rightarrow> nat" where
  "gg_total h0 st = total (brk h0) (free_of (gg_h st))"


section \<open>The loop body\<close>

definition gg_mid :: "arguments \<Rightarrow> nat \<Rightarrow> view \<Rightarrow> ptr \<Rightarrow> heap \<Rightarrow> gg \<Rightarrow> bool" where
  "gg_mid A mx V root h0 st \<longleftrightarrow> (\<exists>segs es. gg_core h0 V root mx segs es st \<and> gg_at V root st \<and>
     gg_n st + 2 \<le> mx \<and> ms_ok A h0 V root segs (gg_ms st) \<and>
     ms_path h0 V (free_of (gg_h st)) (gg_r st) (gg_ms st))"

definition gg_inv :: "arguments \<Rightarrow> nat \<Rightarrow> view \<Rightarrow> ptr \<Rightarrow> heap \<Rightarrow> gg \<Rightarrow> bool" where
  "gg_inv A mx V root h0 st \<longleftrightarrow> (\<exists>segs es. gg_core h0 V root mx segs es st \<and> gg_at V root st \<and>
     gg_n st + 2 \<le> mx \<and> ms_ok A h0 V root segs (gg_ms st) \<and>
     (mergeable A h0 (gg_ms st) (gg_r st) \<longrightarrow>
       ms_path h0 V (free_of (gg_h st)) (gg_r st) (gg_ms st))) \<and>
     (gg_n st = 0 \<longrightarrow> 0 < free_of (gg_h st) (Leaf, gg_r st))"

definition gg_ninv :: "nat \<Rightarrow> view \<Rightarrow> ptr \<Rightarrow> heap \<Rightarrow> gg \<Rightarrow> bool" where
  "gg_ninv mx V root h0 st \<longleftrightarrow> (\<exists>segs es. gg_core h0 V root mx segs es st \<and> segs \<noteq> [] \<and>
     (root, gg_r st) \<in> (kid_edges V)\<^sup>* \<and> kids_ok V (free_of (gg_h st)) {} \<and>
     front_live V (free_of (gg_h st)) (gg_r st))"

lemma core_n: "gg_core h0 V root mx segs es st \<Longrightarrow> gg_n st = 0 \<longleftrightarrow> segs = []"
  using core_cur [of h0 V root mx segs es st] by (auto simp: cur_ok_def)

lemma core_router:
  assumes C: "gg_core h0 V root mx segs es st" and r: "(root, r) \<in> (kid_edges V)\<^sup>*"
  obtains rr where "routers (gg_h st) r = Some rr" "node_parent (router_node rr) = par h0 r"
    "router_fleaf rr = free_of (gg_h st) (Leaf, r)" "router_fchild rr = free_of (gg_h st) (Kid, r)"
    "r < brk h0" "r \<noteq> NULL"
proof -
  note t = tree_router [OF core_topo [OF C] r]
  have "r < brk h0"
    using node_ok_upto(1) [OF repr_node_ok [OF topo_repr [OF core_topo [OF C]]], of Kid r] t by simp
  then show thesis using same_tree_router [OF core_tree [OF C] t(1)] that t(2) by metis
qed

lemma at_root: "gg_at V root st \<Longrightarrow> (root, gg_r st) \<in> (kid_edges V)\<^sup>*"
  by (simp add: gg_at_def trancl_into_rtrancl)

lemma gg_add_mid:
  assumes C: "gg_core h0 V root mx segs es st" and at: "gg_at V root st"
    and M: "ms_ok A h0 V root segs (gg_ms st)" "ms_path h0 V (free_of (gg_h st)) (gg_r st) (gg_ms st)"
    and p: "p = (if mg_cr (gg_ms st) = NULL then 1 else 0)"
    and m: "0 < m" "m \<le> free_of (gg_h st) (Leaf, gg_r st)" "gg_n st + m + p \<le> mx"
  obtains st' segs' where "gg_add A m st = Some st'" "gg_core h0 V root mx segs' es st'"
    "gg_at V root st'" "ms_ok A h0 V root segs' (gg_ms st')"
    "ms_path h0 V (free_of (gg_h st')) (gg_r st') (gg_ms st')" "gg_r st' = gg_r st"
    "gg_n st' = gg_n st + m + p" "free_of (gg_h st') = take_leafs (gg_r st) m (free_of (gg_h st))"
    "gg_total h0 st' < gg_total h0 st" "segs' \<noteq> []"
proof -
  note I = same_tree_in_range [OF core_tree [OF C]]
  obtain l bm ms h' segs' where s: "gg_add A m st =
      Some (st\<lparr>gg_addrs := l, gg_bm := bm, gg_n := gg_n st + m + p, gg_ms := ms, gg_h := h'\<rparr>)"
    "gg_core h0 V root mx segs' es (st\<lparr>gg_addrs := l, gg_bm := bm, gg_n := gg_n st + m + p, gg_ms := ms, gg_h := h'\<rparr>)"
    "free_of h' = take_leafs (gg_r st) m (free_of (gg_h st))"
    "ms_ok A h0 V root segs' ms" "ms_path h0 V (free_of h') (gg_r st) ms"
    using gg_add_ok [OF C at M p m] by blast
  have "gg_r st < brk h0" using core_router [OF C at_root [OF at]] by metis
  then have "gg_total h0 (st\<lparr>gg_addrs := l, gg_bm := bm, gg_n := gg_n st + m + p, gg_ms := ms, gg_h := h'\<rparr>)
      < gg_total h0 st"
    using total_take_leafs [of m "free_of (gg_h st)" "gg_r st"] m(1,2) by (simp add: gg_total_def s(3))
  moreover have "segs' \<noteq> []" using core_n [OF s(2)] m(1) by simp
  ultimately show thesis
    using s at take_leafs_ok [OF _ _ I] by (intro that [OF s(1,2)]) (simp_all add: gg_at_def)
qed

lemma ninv_of_at:
  assumes C: "gg_core h0 V root mx segs es st" and at: "gg_at V root st" and "segs \<noteq> []"
    and live: "live (free_of (gg_h st)) (gg_r st)"
  shows "gg_ninv mx V root h0 st"
  using assms kids_ok_settled [OF topo_tree_view [OF core_topo [OF C]] _ _ live] front_liveI at_root [OF at]
  unfolding gg_ninv_def gg_at_def by blast

lemma gg_leafs_ok:
  assumes C: "gg_core h0 V root mx segs es st" and at: "gg_at V root st"
    and M: "ms_ok A h0 V root segs (gg_ms st)" "ms_path h0 V (free_of (gg_h st)) (gg_r st) (gg_ms st)"
    and p: "p = (if mg_cr (gg_ms st) = NULL then 1 else 0)" "p = 0 \<longrightarrow> gg_n st \<noteq> 0"
    and n: "gg_n st + 2 \<le> mx" and free: "0 < free_of (gg_h st) (Leaf, gg_r st)"
  shows "(\<exists>st'. gg_leafs A mx p st = Some (Inl st') \<and> gg_mid A mx V root h0 st' \<and> gg_n st' \<noteq> 0 \<and>
      free_of (gg_h st') (Leaf, gg_r st') = 0 \<and> gg_total h0 st' < gg_total h0 st) \<or>
    (\<exists>st'. gg_leafs A mx p st = Some (Inr st') \<and> gg_ninv mx V root h0 st' \<and>
      (gg_total h0 st' < gg_total h0 st \<or> st' = st \<and> gg_n st \<noteq> 0))"
proof -
  let ?f = "free_of (gg_h st) (Leaf, gg_r st)" and ?m = "gg_n st + free_of (gg_h st) (Leaf, gg_r st) + p"
  obtain rr where rr: "routers (gg_h st) (gg_r st) = Some rr" "router_fleaf rr = ?f"
    using core_router [OF C at_root [OF at]] by metis
  have mx: "2 \<le> mx" and p1: "p \<le> 1" using core_mx [OF C] p(1) by auto
  consider (part) "mx < ?m" "mx \<le> ?f \<or> split_nodes A" | (skip) "mx < ?m" "\<not> (mx \<le> ?f \<or> split_nodes A)" |
    (full) "?m \<le> mx" "mx - 1 \<le> ?m \<or> ok_addrs A \<le> ?m" | (some) "?m < mx - 1" "\<not> ok_addrs A \<le> ?m"
    by linarith
  then show ?thesis
  proof cases
    case part
    let ?k = "mx - gg_n st - p"
    have k: "0 < ?k" "?k \<le> ?f" "gg_n st + ?k + p \<le> mx" using n p1 part(1) by auto
    obtain st' segs' where s: "gg_add A ?k st = Some st'" "gg_core h0 V root mx segs' es st'"
        "gg_at V root st'" "free_of (gg_h st') = take_leafs (gg_r st) ?k (free_of (gg_h st))"
        "gg_total h0 st' < gg_total h0 st" "segs' \<noteq> []" "gg_r st' = gg_r st"
      using gg_add_mid [OF C at M p(1) k] by metis
    have "live (free_of (gg_h st')) (gg_r st')"
      using part(1) n p1 by (simp add: s(4,7) live_def take_leafs_def)
    then have "gg_ninv mx V root h0 st'" by (rule ninv_of_at [OF s(2,3,6)])
    moreover have "gg_leafs A mx p st = Some (Inr st')"
      using rr part s(1) n p1 by (simp add: gg_leafs_def)
    ultimately show ?thesis using s(5) by blast
  next
    case skip
    have n0: "gg_n st \<noteq> 0" using skip p(2) p1 by (cases "p = 0") auto
    have "live (free_of (gg_h st)) (gg_r st)" using free by (simp add: live_def)
    then have "gg_ninv mx V root h0 st" using ninv_of_at [OF C at] core_n [OF C] n0 by blast
    moreover have "gg_leafs A mx p st = Some (Inr st)" using rr skip by (simp add: gg_leafs_def)
    ultimately show ?thesis using n0 by blast
  next
    case full
    have k: "0 < ?f" "?f \<le> ?f" "gg_n st + ?f + p \<le> mx" using free full by auto
    obtain st' segs' where s: "gg_add A ?f st = Some st'" "gg_core h0 V root mx segs' es st'"
        "gg_at V root st'" "gg_total h0 st' < gg_total h0 st" "segs' \<noteq> []" "gg_r st' = gg_r st"
      using gg_add_mid [OF C at M p(1) k] by metis
    have r: "(root, gg_r st') \<in> (kid_edges V)\<^sup>*" by (rule at_root [OF s(3)])
    obtain h2 where h2: "rec_back_propagate (gg_r st') (gg_h st') = Some h2" "same_tree h0 V h2"
        "same_rest (gg_h st') h2" "kids_ok V (free_of h2) {}" "front_live V (free_of h2) (gg_r st')"
        "counts_le (free_of h2) (free_of (gg_h st'))"
      using rec_back_propagate_ok [OF core_topo [OF C] core_tree [OF s(2)] r] s(3)
      by (auto simp: gg_at_def)
    let ?st = "st'\<lparr>gg_h := h2\<rparr>"
    have "gg_core h0 V root mx segs' es ?st" by (rule gg_core_cong [OF s(2)]) (simp_all add: h2)
    then have "gg_ninv mx V root h0 ?st" using h2(4,5) s(5) r unfolding gg_ninv_def by auto
    moreover have "gg_leafs A mx p st = Some (Inr ?st)"
      using rr full s(1) h2(1) mx by (auto simp: gg_leafs_def)
    moreover have "gg_total h0 ?st < gg_total h0 st"
      using total_counts_le [OF h2(6), of "brk h0"] s(4) by (simp add: gg_total_def)
    ultimately show ?thesis by blast
  next
    case some
    have k: "0 < ?f" "?f \<le> ?f" "gg_n st + ?f + p \<le> mx" using free some by auto
    obtain st' segs' where s: "gg_add A ?f st = Some st'" "gg_core h0 V root mx segs' es st'"
        "gg_at V root st'" "ms_ok A h0 V root segs' (gg_ms st')"
        "ms_path h0 V (free_of (gg_h st')) (gg_r st') (gg_ms st')" "gg_r st' = gg_r st"
        "gg_n st' = ?m" "free_of (gg_h st') = take_leafs (gg_r st) ?f (free_of (gg_h st))"
        "gg_total h0 st' < gg_total h0 st"
      using gg_add_mid [OF C at M p(1) k] by metis
    have "gg_mid A mx V root h0 st'"
      using s(2-5,7) some mx unfolding gg_mid_def by fastforce
    moreover have "gg_leafs A mx p st = Some (Inl st')"
    proof -
      have "\<not> mx < ?m" "\<not> mx - 1 \<le> ?m" "?m < mx" using some mx by auto
      then show ?thesis using rr some(2) s(1) mx by (simp add: gg_leafs_def Let_def)
    qed
    moreover have "free_of (gg_h st') (Leaf, gg_r st') = 0" by (simp add: s(6,8) take_leafs_def)
    ultimately show ?thesis using s(7,9) free by auto
  qed
qed

end
