(* ===== verification/GroupingProof.thy ===== *)
theory GroupingProof
  imports GroupingRun
begin

text \<open>
  \<open>greedy_grouping\<close> returns, and its groups serve every receiver exactly once. The main loop is an
  instance of the contract \<open>measured_loop\<close>: \<open>gg_inv\<close> is its invariant, \<open>gg_rel\<close> the relation its
  jumps descend.
\<close>


section \<open>Moving on\<close>

lemma gg_move_down:
  assumes C: "gg_core h0 V root mx segs es st" and at: "gg_at V root st" and n: "gg_n st + 2 \<le> mx"
    and M: "ms_ok A h0 V root segs (gg_ms st)" "ms_path h0 V (free_of (gg_h st)) (gg_r st) (gg_ms st)"
    and n0: "gg_n st \<noteq> 0" and v: "frees V (free_of (gg_h st)) (Kid, gg_r st) = v # vs"
  shows "gg_move A st = Some (Inl (st\<lparr>gg_r := v\<rparr>)) \<and> gg_inv A mx V root h0 (st\<lparr>gg_r := v\<rparr>) \<and>
    (gg_r st, v) \<in> kid_edges V"
proof -
  let ?F = "free_of (gg_h st)" and ?r = "gg_r st"
  note T = core_topo [OF C] and S = core_tree [OF C] and I = same_tree_in_range [OF core_tree [OF C]]
  note TV = topo_tree_view [OF T] and r = at_root [OF at]
  obtain rr where rr: "routers (gg_h st) ?r = Some rr" "router_fchild rr = ?F (Kid, ?r)"
    using core_router [OF C r] by metis
  have fc: "0 < ?F (Kid, ?r)" using length_frees [OF I, of "(Kid, ?r)"] v by simp
  obtain c ce where c: "get_free_router ?r (gg_h st) = Some c" "c \<noteq> NULL"
      "cells (gg_h st) c = Some ce" "child_v ce = v"
    using get_free_router_ok [OF S tree_router(1) [OF T r]] v by auto
  have e: "(?r, v) \<in> kid_edges V" using frees_kid [of v V ?F ?r] v by simp
  have K: "kids_ok V ?F {}"
    using kids_ok_settled [OF TV, of ?F ?r] at fc by (simp add: gg_at_def live_def)
  then have K': "kids_ok V ?F {v}" by (simp add: kids_ok_def)
  have lv: "live ?F v" using K e v unfolding kids_ok_def by force
  have "front V ?F v" using front_down [OF TV _ v] at by (simp add: gg_at_def)
  moreover have "(root, v) \<in> (kid_edges V)\<^sup>+" using at e by (auto simp: gg_at_def)
  ultimately have "gg_at V root (st\<lparr>gg_r := v\<rparr>)" using K' by (simp add: gg_at_def)
  moreover have "gg_core h0 V root mx segs es (st\<lparr>gg_r := v\<rparr>)"
    using S by (intro gg_core_cong [OF C]) simp_all
  moreover have "ms_path h0 V ?F v (gg_ms st)"
    using M(2) path_ok_down [OF _ e lv] by (simp add: ms_path_def)
  ultimately have "gg_inv A mx V root h0 (st\<lparr>gg_r := v\<rparr>)"
    using n n0 M(1) unfolding gg_inv_def by auto
  moreover have "gg_move A st = Some (Inl (st\<lparr>gg_r := v\<rparr>))"
    using rr fc c by (simp add: gg_move_def)
  ultimately show ?thesis using e by blast
qed

lemma gg_move_up:
  assumes C: "gg_core h0 V root mx segs es st" and at: "gg_at V root st" and n: "gg_n st + 2 \<le> mx"
    and M: "ms_ok A h0 V root segs (gg_ms st)" "ms_path h0 V (free_of (gg_h st)) (gg_r st) (gg_ms st)"
    and n0: "gg_n st \<noteq> 0" and dead: "\<not> live (free_of (gg_h st)) (gg_r st)"
  shows "(\<exists>st'. gg_move A st = Some (Inl st') \<and> gg_inv A mx V root h0 st' \<and> gg_total h0 st' < gg_total h0 st) \<or>
    (\<exists>st'. gg_move A st = Some (Inr st') \<and> gg_ninv mx V root h0 st' \<and> gg_total h0 st' < gg_total h0 st)"
proof -
  let ?F = "free_of (gg_h st)" and ?r = "gg_r st" and ?ms = "gg_ms st"
  note T = core_topo [OF C] and S = core_tree [OF C] and I = same_tree_in_range [OF core_tree [OF C]]
  note TV = topo_tree_view [OF T] and r = at_root [OF at]
  have at': "kids_ok V ?F {?r}" "front V ?F ?r" "?r \<noteq> root"
    using at tree_acyclic [OF TV] by (auto simp: gg_at_def acyclic_def)
  obtain p where p: "(p, ?r) \<in> kid_edges V" "par h0 ?r = p" "p \<noteq> NULL" "(root, p) \<in> (kid_edges V)\<^sup>*"
    using router_parent [OF T r] at'(3) by metis
  obtain rr where rr: "routers (gg_h st) ?r = Some rr" "router_fchild rr = ?F (Kid, ?r)"
      "node_parent (router_node rr) = p"
    using core_router [OF C r] p(2) by metis
  have free: "0 < ?F (Kid, p)"
    using at'(2) p(1) frees_drop_kid(3) [OF I] by (fastforce simp: front_def)
  obtain h' where h': "back_propagate ?r (gg_h st) = Some (p, h')" "same_tree h0 V h'"
      "same_rest (gg_h st) h'" "free_of h' = drop_kid p ?F"
    using back_propagate_kid [OF T S p(1) dead free] by metis
  note d = drop_kid_ok [OF TV I at'(1,2) p(1) dead]
  let ?mg = "mergeable A h0 ?ms p"
  let ?ms' = "if ?mg then ?ms\<lparr>mg_pcr := p\<rparr> else ?ms"
  let ?st = "st\<lparr>gg_r := p, gg_ms := ?ms', gg_h := h'\<rparr>"
  obtain prr where prr: "routers h' p = Some prr" "node_parent (router_node prr) = par h0 p"
    using same_tree_router [OF h'(2) tree_router(1) [OF T p(4)]] by metis
  have "is_mergeable A ?ms p (gg_h st) = Some ?mg"
    by (rule is_mergeable_ok [OF S tree_router(1) [OF T p(4)] ms_ok_router(1) [OF T M(1)]])
  moreover have "mg_cr ?ms \<noteq> NULL \<and> ?mg \<longleftrightarrow> ?mg" by (auto simp: mergeable_def)
  ultimately have run: "gg_move A st = Some (if par h0 p = NULL then Inr ?st else Inl ?st)"
    using rr p(3) dead h'(1) prr by (simp add: gg_move_def live_def cong: if_cong)
  have core: "gg_core h0 V root mx segs es ?st"
    using h' counts_le_drop_kid by (intro gg_core_cong [OF C]) simp_all
  have segs: "segs \<noteq> []" using core_n [OF C] n0 by simp
  have "p < brk h0" using core_router [OF C p(4)] by metis
  then have less: "gg_total h0 ?st < gg_total h0 st"
    using total_drop_kid [of ?F p] free by (simp add: gg_total_def h'(4))
  from p(4) show ?thesis
  proof (cases rule: router_parent [OF T, consumes 1, case_names root kid])
    case root
    then have "gg_ninv mx V root h0 ?st"
      using core segs d kids_ok_root [OF TV] front_liveI p(4) unfolding gg_ninv_def
      by (intro exI [of _ segs] exI [of _ es]) (auto simp: h'(4))
    then show ?thesis using run root less by auto
  next
    case (kid q)
    have rp: "(root, p) \<in> (kid_edges V)\<^sup>+" using p(4) kid(5) by (simp add: rtrancl_eq_or_trancl)
    have "ms_path h0 V (free_of h') p ?ms'" if ?mg
    proof (cases "strict_hops h0 V \<and> mg_cr ?ms \<noteq> NULL")
      case True
      then have "path_ok V ?F ?r (mg_cr ?ms) (mg_pcr ?ms)" using M(2) by (simp add: ms_path_def)
      from path_ok_up [OF TV this p(1) dead p(3)] that show ?thesis by (simp add: ms_path_def)
    qed (auto simp: ms_path_def that)
    moreover have "?mg" if "mergeable A h0 ?ms' p" using that by (simp add: mergeable_def split: if_splits)
    moreover have "ms_ok A h0 V root segs ?ms'"
      using M(1) rp by (auto simp: ms_ok_def mergeable_def)
    moreover have "gg_at V root ?st" using d rp by (simp add: gg_at_def h'(4))
    ultimately have "gg_inv A mx V root h0 ?st"
      using core n n0 unfolding gg_inv_def by (intro conjI exI [of _ segs] exI [of _ es]) auto
    then show ?thesis using run kid less by auto
  qed
qed

lemma gg_move_ok:
  assumes I: "gg_mid A mx V root h0 st" and n0: "gg_n st \<noteq> 0"
    and f: "free_of (gg_h st) (Leaf, gg_r st) = 0"
  shows "(\<exists>st'. gg_move A st = Some (Inl st') \<and> gg_inv A mx V root h0 st' \<and>
      (gg_total h0 st' < gg_total h0 st \<or> gg_total h0 st' = gg_total h0 st \<and> gg_n st' = gg_n st \<and>
        (gg_r st, gg_r st') \<in> kid_edges V)) \<or>
    (\<exists>st'. gg_move A st = Some (Inr st') \<and> gg_ninv mx V root h0 st' \<and> gg_total h0 st' < gg_total h0 st)"
proof -
  obtain segs es where C: "gg_core h0 V root mx segs es st" "gg_at V root st" "gg_n st + 2 \<le> mx"
      "ms_ok A h0 V root segs (gg_ms st)" "ms_path h0 V (free_of (gg_h st)) (gg_r st) (gg_ms st)"
    using I by (auto simp: gg_mid_def)
  note IR = same_tree_in_range [OF core_tree [OF C(1)]]
  show ?thesis
  proof (cases "frees V (free_of (gg_h st)) (Kid, gg_r st)")
    case Nil
    then have "\<not> live (free_of (gg_h st)) (gg_r st)"
      using f length_frees [OF IR, of "(Kid, gg_r st)"] by (simp add: live_def)
    from gg_move_up [OF C n0 this] show ?thesis by blast
  next
    case (Cons v vs)
    from gg_move_down [OF C n0 Cons] show ?thesis by (intro disjI1 exI) (auto simp: gg_total_def)
  qed
qed

text \<open>The first lines of the loop body, which choose \<open>p\<close> and reset the merging variables.\<close>

lemma gg_enter:
  assumes I: "gg_inv A mx V root h0 st"
  obtains p st1 segs es where "gg_body A mx st = do {
      x \<leftarrow> (if 0 < free_of (gg_h st) (Leaf, gg_r st) then gg_leafs A mx p st1 else Some (Inl st1));
      case x of Inl st \<Rightarrow> gg_move A st | Inr st \<Rightarrow> Some (Inr st)
    }" "gg_core h0 V root mx segs es st1" "gg_at V root st1" "gg_n st1 + 2 \<le> mx"
    "ms_ok A h0 V root segs (gg_ms st1)" "ms_path h0 V (free_of (gg_h st1)) (gg_r st1) (gg_ms st1)"
    "p = (if mg_cr (gg_ms st1) = NULL then 1 else 0)" "p = 0 \<longrightarrow> gg_n st1 \<noteq> 0"
    "gg_h st1 = gg_h st" "gg_r st1 = gg_r st" "gg_n st1 = gg_n st"
    "gg_n st = 0 \<longrightarrow> 0 < free_of (gg_h st) (Leaf, gg_r st)"
proof -
  obtain segs es where C: "gg_core h0 V root mx segs es st" and at: "gg_at V root st"
    and n: "gg_n st + 2 \<le> mx" and M: "ms_ok A h0 V root segs (gg_ms st)"
      "mergeable A h0 (gg_ms st) (gg_r st) \<Longrightarrow> ms_path h0 V (free_of (gg_h st)) (gg_r st) (gg_ms st)"
    and f: "gg_n st = 0 \<Longrightarrow> 0 < free_of (gg_h st) (Leaf, gg_r st)"
    using I by (auto simp: gg_inv_def)
  let ?mg = "mergeable A h0 (gg_ms st) (gg_r st)"
  have mg: "is_mergeable A (gg_ms st) (gg_r st) (gg_h st) = Some ?mg"
    using is_mergeable_ok [OF core_tree [OF C] _ ms_ok_router(1) [OF core_topo [OF C] M(1)]]
      tree_router(1) [OF core_topo [OF C] at_root [OF at]] by simp
  have mgc: "mg_cr (gg_ms st) \<noteq> NULL" if ?mg using that by (simp add: mergeable_def)
  then have n0: "gg_n st \<noteq> 0" if ?mg using that M(1) core_n [OF C] by (auto simp: ms_ok_def)
  obtain rr where rr: "routers (gg_h st) (gg_r st) = Some rr" "router_fleaf rr = free_of (gg_h st) (Leaf, gg_r st)"
    using core_router [OF C at_root [OF at]] by metis
  consider (new) "\<not> ?mg" "mg_cr (gg_ms st) = NULL" | (reset) "\<not> ?mg" "mg_cr (gg_ms st) \<noteq> NULL" |
    (merge) ?mg by blast
  then show thesis
  proof cases
    case new
    with mg rr show thesis
      by (intro that [of 1 st, OF _ C at n M(1)]) (simp_all add: gg_body_def ms_path_def f)
  next
    case reset
    let ?st = "st\<lparr>gg_ms := reset_merging_stats\<rparr>"
    have "gg_core h0 V root mx segs es ?st" "gg_at V root ?st"
      using C at by (simp_all add: gg_core_def gg_at_def)
    with reset mg rr n show thesis
      by (intro that [of 1 ?st segs es]) (simp_all add: gg_body_def f)
  next
    case merge
    with mg rr mgc n0 M(2) show thesis
      by (intro that [of 0 st, OF _ C at n M(1)]) (simp_all add: gg_body_def f)
  qed
qed

lemma gg_body_ok:
  assumes I: "gg_inv A mx V root h0 st"
  shows "(\<exists>st'. gg_body A mx st = Some (Inl st') \<and> gg_inv A mx V root h0 st' \<and> (st', st) \<in> gg_rel V h0) \<or>
    (\<exists>st'. gg_body A mx st = Some (Inr st') \<and> gg_ninv mx V root h0 st' \<and>
      (gg_total h0 st' < gg_total h0 st \<or> gg_total h0 st' = gg_total h0 st \<and> gg_n st \<noteq> 0))"
proof -
  obtain p st1 segs es where body: "gg_body A mx st = do {
      x \<leftarrow> (if 0 < free_of (gg_h st) (Leaf, gg_r st) then gg_leafs A mx p st1 else Some (Inl st1));
      case x of Inl st \<Rightarrow> gg_move A st | Inr st \<Rightarrow> Some (Inr st)
    }" and C: "gg_core h0 V root mx segs es st1" "gg_at V root st1" "gg_n st1 + 2 \<le> mx"
    "ms_ok A h0 V root segs (gg_ms st1)" "ms_path h0 V (free_of (gg_h st1)) (gg_r st1) (gg_ms st1)"
    and p: "p = (if mg_cr (gg_ms st1) = NULL then 1 else 0)" "p = 0 \<longrightarrow> gg_n st1 \<noteq> 0"
    and same: "gg_h st1 = gg_h st" "gg_r st1 = gg_r st" "gg_n st1 = gg_n st"
    and f: "gg_n st = 0 \<longrightarrow> 0 < free_of (gg_h st) (Leaf, gg_r st)"
    by (rule gg_enter [OF I])
  have tot: "gg_total h0 st1 = gg_total h0 st" by (simp add: gg_total_def same)
  have move: ?thesis if b: "gg_body A mx st = gg_move A st2" and m: "gg_mid A mx V root h0 st2" "gg_n st2 \<noteq> 0"
      "free_of (gg_h st2) (Leaf, gg_r st2) = 0"
    and t: "gg_total h0 st2 < gg_total h0 st \<or>
      gg_total h0 st2 = gg_total h0 st \<and> gg_n st2 = gg_n st \<and> gg_r st2 = gg_r st" for st2
    using gg_move_ok [OF m]
  proof (elim disjE exE conjE)
    fix st'
    assume s: "gg_move A st2 = Some (Inl st')" "gg_inv A mx V root h0 st'" "gg_total h0 st' < gg_total h0 st2"
    then have "(st', st) \<in> gg_rel V h0" using t by (auto simp: gg_rel_def gg_total_def)
    with s b show ?thesis by auto
  next
    fix st'
    assume s: "gg_move A st2 = Some (Inl st')" "gg_inv A mx V root h0 st'" "gg_total h0 st' = gg_total h0 st2"
      "gg_n st' = gg_n st2" "(gg_r st2, gg_r st') \<in> kid_edges V"
    have "below V (gg_r st') < below V (gg_r st2)"
      by (rule below_kid [OF topo_tree_view [OF core_topo [OF C(1)]] s(5)])
    then have "(st', st) \<in> gg_rel V h0" using t s by (auto simp: gg_rel_def gg_total_def)
    with s b show ?thesis by auto
  next
    fix st'
    assume "gg_move A st2 = Some (Inr st')" "gg_ninv mx V root h0 st'" "gg_total h0 st' < gg_total h0 st2"
    with t b show ?thesis by auto
  qed
  show ?thesis
  proof (cases "0 < free_of (gg_h st) (Leaf, gg_r st)")
    case True
    then have free: "0 < free_of (gg_h st1) (Leaf, gg_r st1)" by (simp add: same)
    from gg_leafs_ok [OF C(1,2,4,5) p(1,2) C(3) free] show ?thesis
    proof (elim disjE exE conjE)
      fix st2
      assume "gg_leafs A mx p st1 = Some (Inl st2)" "gg_mid A mx V root h0 st2" "gg_n st2 \<noteq> 0"
        "free_of (gg_h st2) (Leaf, gg_r st2) = 0" "gg_total h0 st2 < gg_total h0 st1"
      then show ?thesis using True body tot by (intro move [of st2]) simp_all
    next
      fix st2
      assume "gg_leafs A mx p st1 = Some (Inr st2)" "gg_ninv mx V root h0 st2" "gg_total h0 st2 < gg_total h0 st1"
      then show ?thesis using True body tot by simp
    next
      fix st2
      assume "gg_leafs A mx p st1 = Some (Inr st2)" "gg_ninv mx V root h0 st2" "st2 = st1" "gg_n st1 \<noteq> 0"
      then show ?thesis using True body tot same by simp
    qed
  next
    case False
    moreover have "gg_mid A mx V root h0 st1" using C unfolding gg_mid_def by blast
    ultimately show ?thesis using body f same tot by (intro move [of st1]) simp_all
  qed
qed


section \<open>Finishing a group\<close>

lemma obs_objects:
  assumes "leafs h' = leafs h" "routers h' = routers h"
  shows "rdata h' = rdata h" "ldata h' = ldata h" "par h' = par h" "rlist h' = rlist h"
    "has h' k v = has h k v"
proof -
  show "has h' k v = has h k v" using assms by (cases k) simp_all
  have "get_node x h' = get_node x h" for x by (simp add: get_node_def assms split: option.split)
  then show "par h' = par h" by (intro ext) (simp add: par_def)
  show "rdata h' = rdata h" "ldata h' = ldata h"
    using assms by (intro ext, simp add: rdata_def ldata_def)+
  show "rlist h' = rlist h" using assms by (simp add: rlist_def)
qed

lemma finish_txg_ok:
  assumes S: "same_tree h0 V h"
  obtains c d h' where "finish_txg grp l n bm h = Some (c, 0, 0, reset_merging_stats, h')"
    "same_tree h0 V h'" "free_of h' = free_of h" "c \<noteq> NULL"
    "cells h' = (cells h)(c \<mapsto> \<lparr>child_v = d, child_n = grp\<rparr>)"
    "hdrs h' = (hdrs h)(d \<mapsto> set_data_hdr l n bm)" "cells h c = None" "hdrs h d = None" "\<not> is_node h0 d"
proof -
  let ?c = "brk h" and ?d = "Suc (brk h)"
  define h1 where "h1 = h\<lparr>cells := (cells h)(?c \<mapsto> \<lparr>child_v = ?d, child_n = grp\<rparr>),
    hdrs := (hdrs h)(?d \<mapsto> set_data_hdr l n bm), brk := Suc (Suc (brk h))\<rparr>"
  note R = st_repr [OF S] and N = repr_node_ok [OF st_repr [OF S]]
  have c0: "?c \<noteq> NULL" using N by (simp add: node_ok_def)
  have run: "finish_txg grp l n bm h = Some (?c, 0, 0, reset_merging_stats, h1)"
    by (cases "grp = 0") (simp_all add: finish_txg_def new_cell_def new_hdr_def upd_cell_def h1_def)
  have obs: "rdata h1 = rdata h" "ldata h1 = ldata h" "par h1 = par h" "rlist h1 = rlist h"
      "has h1 k v = has h k v" for k v
    by (rule obs_objects; simp add: h1_def)+
  have "repr h1 V"
  proof (rule repr_new [OF R])
    show "node_ok h1" using N unfolding node_ok_def by (auto simp: h1_def)
    show "cells h1 x = cells h x" if "cells h x \<noteq> None" for x
      using node_ok_upto(2) [OF N that] by (simp add: h1_def)
  qed (auto simp: obs simp del: rlist_None)
  then have "same_tree h0 V h1" using S by (simp add: same_tree_def obs)
  moreover have "free_of h1 = free_of h" by (intro ext) (simp add: free_of_def obs)
  moreover have "hdrs h ?d = None" using N by (simp add: node_ok_def)
  moreover have "\<not> is_node h0 ?d"
    using N rdata_dom [OF st_rdata [OF S]] ldata_dom [OF st_ldata [OF S]] by (simp add: node_ok_def is_node_def)
  ultimately show thesis
    using node_ok_fresh [OF N, of ?c] c0 by (intro that [OF run]) (simp_all add: h1_def)
qed

lemma groups_ok_finish:
  assumes G: "groups_ok h0 mx h grp es" and d: "hdr_ok h0 mx d g"
    and h': "cells h' = (cells h)(c \<mapsto> \<lparr>child_v = p, child_n = grp\<rparr>)" "hdrs h' = (hdrs h)(p \<mapsto> d)"
      "cells h c = None" "hdrs h p = None" "c \<noteq> NULL" "\<not> is_node h0 p"
  shows "groups_ok h0 mx h' c (g # es)"
proof -
  obtain ds where ds: "chain (cells h) grp ds"
      "list_all2 (\<lambda>x g. \<exists>d. hdrs h (snd x) = Some d \<and> hdr_ok h0 mx d g \<and> \<not> is_node h0 (snd x)) ds es"
    using G by (auto simp: groups_ok_def)
  have "c \<notin> fst ` set ds" using chain_cell [OF ds(1)] h'(3) by fastforce
  then have "chain (cells h') c ((c, p) # ds)" using ds(1) h'(1,5) by (simp add: chain_upd)
  moreover have "list_all2 (\<lambda>x g. \<exists>d. hdrs h' (snd x) = Some d \<and> hdr_ok h0 mx d g \<and> \<not> is_node h0 (snd x)) ds es"
    by (rule list_all2_mono [OF ds(2)]) (use h'(2,4) in auto)
  ultimately show ?thesis
    using d h'(2,6) unfolding groups_ok_def by (intro exI [of _ "(c, p) # ds"]) simp
qed

lemma cur_ok_hdr:
  assumes "cur_ok h mx segs l bm n" "segs \<noteq> []"
  shows "hdr_ok h mx (set_data_hdr l n bm) segs"
proof -
  have "n < 256" using assms by (simp add: cur_ok_def)
  then show ?thesis
    using assms unat_hdr_dsts_set_data_hdr [of n l bm]
    by (auto simp: cur_ok_def hdr_ok_def set_data_hdr_fields(1-3) data_hdr_set)
qed

text \<open>What holds when the main loop is left.\<close>

definition gg_post :: "nat \<Rightarrow> view \<Rightarrow> ptr \<Rightarrow> heap \<Rightarrow> gg \<Rightarrow> bool" where
  "gg_post mx V root h0 st \<longleftrightarrow> (\<exists>es. gg_core h0 V root mx [] es st) \<and>
     kids_ok V (free_of (gg_h st)) {} \<and> free_of (gg_h st) (Kid, root) = 0 \<and>
     gg_ms st = reset_merging_stats"

lemma gg_next_ok:
  assumes I: "gg_ninv mx V root h0 st"
  shows "(\<exists>st'. gg_next st = Some (Inl st') \<and> gg_inv A mx V root h0 st' \<and> gg_n st' = 0 \<and>
      gg_total h0 st' = gg_total h0 st) \<or>
    (\<exists>st'. gg_next st = Some (Inr st') \<and> gg_post mx V root h0 st')"
proof -
  obtain segs es where C: "gg_core h0 V root mx segs es st" and segs: "segs \<noteq> []"
    and r: "(root, gg_r st) \<in> (kid_edges V)\<^sup>*" and K: "kids_ok V (free_of (gg_h st)) {}"
    and FL: "front_live V (free_of (gg_h st)) (gg_r st)"
    using I by (auto simp: gg_ninv_def)
  note T = core_topo [OF C] and cur = core_cur [OF C]
  obtain c d h' where f: "finish_txg (gg_mdc st) (gg_addrs st) (gg_n st) (gg_bm st) (gg_h st) =
        Some (c, 0, 0, reset_merging_stats, h')" "same_tree h0 V h'" "free_of h' = free_of (gg_h st)"
      "c \<noteq> NULL" "cells h' = (cells (gg_h st))(c \<mapsto> \<lparr>child_v = d, child_n = gg_mdc st\<rparr>)"
      "hdrs h' = (hdrs (gg_h st))(d \<mapsto> set_data_hdr (gg_addrs st) (gg_n st) (gg_bm st))"
      "cells (gg_h st) c = None" "hdrs (gg_h st) d = None" "\<not> is_node h0 d"
    using finish_txg_ok [OF core_tree [OF C]] by metis
  obtain s where s: "get_start (gg_r st) h' = Some s"
      "s = NULL \<and> free_of h' (Kid, root) = 0 \<or>
       (root, s) \<in> (kid_edges V)\<^sup>+ \<and> front V (free_of h') s \<and> 0 < free_of h' (Leaf, s)"
    using get_start_ok [OF T f(2) _ r] K FL f(3) by auto
  let ?st = "st\<lparr>gg_mdc := c, gg_n := 0, gg_bm := 0, gg_ms := reset_merging_stats, gg_h := h', gg_r := s\<rparr>"
  have run: "gg_next st = Some (if s = NULL then Inr ?st else Inl ?st)"
    using f(1) s(1) by (simp add: gg_next_def)
  have "groups_ok h0 mx h' c (segs # es)"
    by (rule groups_ok_finish [OF core_groups [OF C] cur_ok_hdr [OF cur segs] f(5,6,7,8,4,9)])
  moreover have "leaves_ok V (free_of h') root (seg_leafs (concat (segs # es) @ []))"
    using core_leaves [OF C] by (auto simp: leaves_ok_def f(3))
  moreover have "cover h0 V (concat (segs # es) @ [])" if "strict_hops h0 V"
    using core_cover [OF C that] by simp
  ultimately have core: "gg_core h0 V root mx [] (segs # es) ?st"
    using T core_mx [OF C] f(2,3) core_root [OF C] cur cur_ok_empty [of "gg_addrs st" mx h0]
    by (simp add: gg_core_def cur_ok_def)
  from s(2) show ?thesis
  proof (elim disjE conjE)
    assume "s = NULL" "free_of h' (Kid, root) = 0"
    then have "gg_post mx V root h0 ?st" using core K f(3) by (auto simp: gg_post_def)
    then show ?thesis using run \<open>s = NULL\<close> by auto
  next
    assume a: "(root, s) \<in> (kid_edges V)\<^sup>+" "front V (free_of h') s" "0 < free_of h' (Leaf, s)"
    have s0: "s \<noteq> NULL" using tree_router(2) [OF T] a(1) by (simp add: trancl_into_rtrancl)
    have "kids_ok V (free_of h') {s}" using K f(3) by (simp add: kids_ok_def)
    then have at: "gg_at V root ?st" using a by (simp add: gg_at_def)
    have "gg_inv A mx V root h0 ?st"
      unfolding gg_inv_def using core at core_mx [OF C] a(3)
      by (intro conjI exI [of _ "[]"] exI [of _ "segs # es"]) simp_all
    moreover have "gg_total h0 ?st = gg_total h0 st" using f(3) by (simp add: gg_total_def)
    ultimately show ?thesis using run s0 by (intro disjI1 exI [of _ ?st]) simp
  qed
qed

lemma gg_step_ok:
  assumes I: "gg_inv A mx V root h0 st"
  shows "(\<exists>st'. gg_step A mx st = Some (Inl st') \<and> gg_inv A mx V root h0 st' \<and> (st', st) \<in> gg_rel V h0) \<or>
    (\<exists>st'. gg_step A mx st = Some (Inr st') \<and> gg_post mx V root h0 st')"
  using gg_body_ok [OF I]
proof (elim disjE exE conjE)
  fix st'
  assume "gg_body A mx st = Some (Inl st')" "gg_inv A mx V root h0 st'" "(st', st) \<in> gg_rel V h0"
  then show ?thesis by (simp add: gg_step_def)
next
  fix st1
  assume b: "gg_body A mx st = Some (Inr st1)" "gg_ninv mx V root h0 st1" "gg_total h0 st1 < gg_total h0 st"
  with gg_next_ok [OF b(2), of A] show ?thesis by (auto simp: gg_step_def gg_rel_def gg_total_def)
next
  fix st1
  assume b: "gg_body A mx st = Some (Inr st1)" "gg_ninv mx V root h0 st1"
    "gg_total h0 st1 = gg_total h0 st" "gg_n st \<noteq> 0"
  with gg_next_ok [OF b(2), of A] show ?thesis by (auto simp: gg_step_def gg_rel_def gg_total_def)
qed

interpretation gg_loop: measured_loop "gg_step A mx" "gg_inv A mx V root h0" "gg_post mx V root h0"
  "gg_rel V h0" for A mx V root h0
proof
  show "wf (gg_rel V h0)" by (simp add: gg_rel_def)
qed (rule gg_step_ok)

end
