(* ===== verification/GroupingSpec.thy ===== *)
theory GroupingSpec
  imports GroupingProof
begin

text \<open>
  What \<open>greedy_grouping\<close> promises, from a well-formed topology in which no router is without both
  receivers and child routers: a list of headers and an array of addresses that together serve
  every receiver exactly once, and memory that differs from the old one in free counters only.
\<close>


section \<open>The array of the remaining receivers\<close>

lemma uni_loop_ok:
  assumes r: "routers h0 s \<noteq> None"
  shows "same_tree h0 V h \<Longrightarrow> chain (cells h) c ys \<Longrightarrow> free_of h (Leaf, s) = length ys \<Longrightarrow>
    (\<And>v. v \<in> snd ` set ys \<Longrightarrow> leafs h v \<noteq> None) \<Longrightarrow> length acc + length ys \<le> nuni \<Longrightarrow>
    \<exists>h'. uni_loop nuni s c acc h = Some (acc @ rcvr_addrs h0 (map snd ys), h') \<and>
      same_tree h0 V h' \<and> same_rest h h' \<and> free_of h' = (free_of h)((Leaf, s) := 0)"
proof (induction ys arbitrary: c acc h)
  case Nil
  then show ?case
    by (intro exI [of _ h]) (subst uni_loop.simps, simp add: rcvr_addrs_def fun_upd_idem)
next
  case (Cons y ys)
  from Cons.prems(2) obtain v ce where y: "y = (c, v)" "c \<noteq> NULL" "cells h c = Some ce" "child_v ce = v"
    "chain (cells h) (child_n ce) ys" by (auto elim: chain_ConsE)
  obtain lf where lf: "leafs h v = Some lf" using Cons.prems(4) [of v] y(1) by auto
  have v: "rcvr_addr (leaf_val lf) = rcvr_addr (the (ldata h0 v))"
    using lf st_ldata [OF Cons.prems(1)] by (metis ldata_def option.sel option.simps(9))
  obtain rr where rr: "routers h s = Some rr" "router_fleaf rr = free_of h (Leaf, s)"
    using same_tree_router [OF Cons.prems(1) r] by metis
  let ?h = "set_free Leaf s (length ys) h"
  have upd: "upd_router s (router_fleaf_update (\<lambda>f. f - 1)) h = Some ?h"
    by (rule upd_router_fleaf [OF rr(1)]) (simp add: rr(2) Cons.prems(3))
  have h: "same_tree h0 V ?h" "free_of ?h = (free_of h)((Leaf, s) := length ys)"
    using set_free_ok [OF Cons.prems(1) r, of "length ys" Leaf] Cons.prems(3) by auto
  have "\<exists>h'. uni_loop nuni s (child_n ce) (acc @ [rcvr_addr (leaf_val lf)]) ?h =
        Some ((acc @ [rcvr_addr (leaf_val lf)]) @ rcvr_addrs h0 (map snd ys), h') \<and>
      same_tree h0 V h' \<and> same_rest ?h h' \<and> free_of h' = (free_of ?h)((Leaf, s) := 0)"
    using y(5) Cons.prems(4,5) by (intro Cons.IH h(1)) (auto simp: mem_simps h(2))
  then obtain h' where h': "uni_loop nuni s (child_n ce) (acc @ [rcvr_addr (leaf_val lf)]) ?h =
        Some ((acc @ [rcvr_addr (leaf_val lf)]) @ rcvr_addrs h0 (map snd ys), h')"
      "same_tree h0 V h'" "same_rest ?h h'" "free_of h' = (free_of ?h)((Leaf, s) := 0)" by blast
  have "uni_loop nuni s c acc h = Some (acc @ rcvr_addrs h0 (map snd (y # ys)), h')"
    using y rr Cons.prems(3,5) lf upd h'(1) v by (subst uni_loop.simps) (simp add: rcvr_addrs_def)
  then show ?case using h'(2,3,4) h(2) by (intro exI [of _ h']) (simp add: same_rest_def mem_simps)
qed


section \<open>The start\<close>

definition no_dead :: "view \<Rightarrow> bool" where
  "no_dead V \<longleftrightarrow> (\<forall>(p, x) \<in> kid_edges V. V (Leaf, x) \<noteq> [] \<or> V (Kid, x) \<noteq> [])"

lemma all_free_counts:
  assumes T: "topo_ok h V root"
  shows "free_of h kr = length (V kr)"
proof (cases "rlist h kr")
  case None
  then show ?thesis using repr_None [OF topo_repr [OF T]] by (simp add: free_of_def)
next
  case (Some l)
  then show ?thesis using topo_free [OF T] unfolding all_free_def by (cases kr) auto
qed

lemma topo_start:
  assumes T: "topo_ok h V root" and D: "no_dead V"
  shows "kids_ok V (free_of h) {}" "front_live V (free_of h) root"
    "frees V (free_of h) kr = map snd (V kr)" "used V (free_of h) kr = []"
proof -
  note TV = topo_tree_view [OF T] and F = all_free_counts [OF T]
  show fr: "frees V (free_of h) kr = map snd (V kr)" "used V (free_of h) kr = []" for kr
    by (simp_all add: frees_def used_def F)
  show "kids_ok V (free_of h) {}"
    using D unfolding kids_ok_def no_dead_def fr live_def F by (auto simp: kid_edges_def)
  show "front_live V (free_of h) root"
    unfolding front_live_def
  proof (intro allI impI)
    fix p x
    assume x: "(p, x) \<in> kid_edges V \<and> (x, root) \<in> (kid_edges V)\<^sup>* \<and> live (free_of h) x"
    then have "(p, root) \<in> (kid_edges V)\<^sup>+" by (meson rtrancl_into_trancl2)
    then have False by (cases rule: tranclE) (use tree_root [OF TV] in auto)
    then show "\<exists>xs. frees V (free_of h) (Kid, p) = x # xs" ..
  qed
qed

text \<open>The receivers are the leafs of the routers in the tree.\<close>

lemma tree_leafs:
  assumes T: "topo_ok h V root"
  shows "leafs h l \<noteq> None \<longleftrightarrow>
    l \<in> set (map snd (V (Leaf, root))) \<or> (\<exists>x. (root, x) \<in> (kid_edges V)\<^sup>+ \<and> l \<in> set (map snd (V (Leaf, x))))"
    (is "_ \<longleftrightarrow> ?R")
proof
  note R = topo_repr [OF T]
  assume l: "leafs h l \<noteq> None"
  then have m: "l \<in> snd ` set (V (Leaf, par h l))" using repr_par [OF R, of Leaf l] topo_leaf [OF T l] by simp
  then obtain c where "(c, l) \<in> set (V (Leaf, par h l))" by auto
  from attached_reach [OF T topo_parent_attached [OF T this]] m show ?R
    by (auto simp: rtrancl_eq_or_trancl)
next
  assume ?R
  then show "leafs h l \<noteq> None" using repr_in [OF topo_repr [OF T], of _ l Leaf] by auto
qed


section \<open>The result\<close>

lemma gg_loop_start:
  assumes T: "topo_ok h V root" and D: "no_dead V" and mx: "2 \<le> mx" "mx \<le> 32"
    and st: "st = \<lparr>gg_addrs = replicate mx 0, gg_bm = 0, gg_n = 0, gg_mdc = NULL, gg_r = r,
      gg_ms = reset_merging_stats, gg_h = h\<rparr>"
    and r: "get_start root h = Some r"
  shows "\<exists>st'. (if r = NULL then Some st else run (gg_step A mx) st) = Some st' \<and> gg_post mx V root h st'"
proof -
  note S = same_tree_refl [OF topo_repr [OF T]]
  have s: "r = NULL \<and> free_of h (Kid, root) = 0 \<or>
       (root, r) \<in> (kid_edges V)\<^sup>+ \<and> front V (free_of h) r \<and> 0 < free_of h (Leaf, r)"
    using get_start_ok [OF T S topo_start(1) [OF T D] _ topo_start(2) [OF T D]] r by auto
  have "leaves_ok V (free_of h) root []"
    by (simp add: leaves_ok_def topo_start(4) [OF T D])
  moreover have "groups_ok h mx h NULL []" by (simp add: groups_ok_def)
  ultimately have core: "gg_core h V root mx [] [] st"
    using T mx S all_free_counts [OF T] cur_ok_empty [of "replicate mx 0" mx h]
    by (simp add: gg_core_def st)
  from s show ?thesis
  proof (elim disjE conjE)
    assume "r = NULL" "free_of h (Kid, root) = 0"
    then show ?thesis using core topo_start(1) [OF T D] by (auto simp: gg_post_def st)
  next
    assume a: "(root, r) \<in> (kid_edges V)\<^sup>+" "front V (free_of h) r" "0 < free_of h (Leaf, r)"
    have r0: "r \<noteq> NULL" using tree_router(2) [OF T] a(1) by (simp add: trancl_into_rtrancl)
    have "kids_ok V (free_of h) {r}" using topo_start(1) [OF T D] by (simp add: kids_ok_def)
    then have "gg_at V root st" using a by (simp add: gg_at_def st)
    then have "gg_inv A mx V root h st"
      unfolding gg_inv_def using core mx a(3)
      by (intro conjI exI [of _ "[]"]) (simp_all add: st)
    from gg_loop.run_ok [OF this] r0 show ?thesis by auto
  qed
qed

theorem greedy_grouping_all:
  assumes T: "topo_ok h V root" and D: "no_dead V" and A: "2 \<le> max_addrs A"
  shows "\<exists>grp h' ds gs us. greedy_grouping A root reset_merging_stats h =
      Some (Some grp, reset_merging_stats, h') \<and>
    same_tree h V h' \<and> chain (cells h') (txg_mdc grp) ds \<and>
    list_all2 (\<lambda>x g. \<exists>d. hdrs h' (snd x) = Some d \<and> hdr_ok h (gg_max A) d g \<and> \<not> is_node h (snd x)) ds gs \<and>
    txg_nuni grp = length us \<and> txg_uni grp = rcvr_addrs h us \<and>
    distinct (seg_leafs (concat gs) @ us) \<and>
    set (seg_leafs (concat gs) @ us) = {l. leafs h l \<noteq> None} \<and>
    (strict_hops h V \<longrightarrow> cover h V (concat gs))"
proof -
  let ?mx = "gg_max A"
  note TV = topo_tree_view [OF T]
  have mx: "2 \<le> ?mx" "?mx \<le> 32" "0 < ?mx" using A by (auto simp: gg_max_def BITMAP_LIMIT_def)
  have rootN: "root \<noteq> NULL" using tree_router(2) [OF T, of root] by simp
  obtain r where r: "get_start root h = Some r"
    using get_start_ok [OF T same_tree_refl [OF topo_repr [OF T]] topo_start(1) [OF T D] _
        topo_start(2) [OF T D]] by auto
  let ?st = "\<lparr>gg_addrs = replicate ?mx 0, gg_bm = 0, gg_n = 0, gg_mdc = NULL, gg_r = r,
      gg_ms = reset_merging_stats, gg_h = h\<rparr>"
  obtain st where st: "(if r = NULL then Some ?st else run (gg_step A ?mx) ?st) = Some st"
      "gg_post ?mx V root h st"
    using gg_loop_start [OF T D mx(1,2) refl r] by blast
  then obtain es where C: "gg_core h V root ?mx [] es st" and K: "kids_ok V (free_of (gg_h st)) {}"
      "free_of (gg_h st) (Kid, root) = 0" and ms: "gg_ms st = reset_merging_stats"
    by (auto simp: gg_post_def)
  note S = core_tree [OF C] and I = same_tree_in_range [OF core_tree [OF C]]
  obtain rr where rr: "routers (gg_h st) root = Some rr" "router_fleaf rr = free_of (gg_h st) (Leaf, root)"
    using core_router [OF C, of root] by auto
  obtain c ys where c: "get_free_leaf root (gg_h st) = Some c" "chain (cells (gg_h st)) c ys"
      "map snd ys = frees V (free_of (gg_h st)) (Leaf, root)" "set ys \<subseteq> set (V (Leaf, root))"
    using frees_head [OF S topo_root(1) [OF T], of Leaf] by auto
  have us: "map snd ys = map snd (V (Leaf, root))" using c(3) core_root [OF C] by (simp add: frees_def)
  have len: "free_of (gg_h st) (Leaf, root) = length ys"
    using core_root [OF C] us by (metis length_map)
  have "leafs (gg_h st) v \<noteq> None" if "v \<in> snd ` set ys" for v
    using that c(4) repr_in [OF st_repr [OF S], of _ v Leaf root] by auto
  then obtain h' where h': "uni_loop (length ys) root c [] (gg_h st) = Some ([] @ rcvr_addrs h (map snd ys), h')"
      "same_tree h V h'" "same_rest (gg_h st) h'"
    using uni_loop_ok [OF topo_root(1) [OF T] S c(2) len, of "[]" "length ys"] by auto
  let ?grp = "\<lparr>txg_mdc = gg_mdc st, txg_nuni = length ys, txg_uni = rcvr_addrs h (map snd ys)\<rparr>"
  have run: "greedy_grouping A root reset_merging_stats h = Some (Some ?grp, reset_merging_stats, h')"
    using rootN mx(3) r st(1) rr c(1) h'(1) ms len by (simp add: greedy_grouping_def Let_def)
  obtain ds where ds: "chain (cells (gg_h st)) (gg_mdc st) ds"
      "list_all2 (\<lambda>x g. \<exists>d. hdrs (gg_h st) (snd x) = Some d \<and> hdr_ok h ?mx d g \<and> \<not> is_node h (snd x)) ds es"
    using core_groups [OF C] by (auto simp: groups_ok_def)
  have F0: "free_of (gg_h st) (Leaf, x) = 0" if "(root, x) \<in> (kid_edges V)\<^sup>+" for x
    using all_used [OF I K that] by (simp add: live_def)
  have L: "leaves_ok V (free_of (gg_h st)) root (seg_leafs (concat es))" using core_leaves [OF C] by simp
  have "set (seg_leafs (concat es) @ map snd ys) = {l. leafs h l \<noteq> None}"
  proof -
    have "set (seg_leafs (concat es)) =
        {l. \<exists>x. (root, x) \<in> (kid_edges V)\<^sup>+ \<and> l \<in> set (map snd (V (Leaf, x)))}"
      using L F0 unfolding leaves_ok_def used_def by (simp cong: conj_cong)
    then show ?thesis unfolding tree_leafs [OF T] set_append us by blast
  qed
  moreover have "distinct (seg_leafs (concat es) @ map snd ys)"
    using L free_leafs_new [OF T S L, of root] distinct_frees [OF TV, of "free_of (gg_h st)" "(Leaf, root)"] c(3)
    by (auto simp: leaves_ok_def)
  ultimately show ?thesis
    using run h'(2,3) ds core_cover [OF C]
    by (intro exI [of _ ?grp] exI [of _ h'] exI [of _ ds] exI [of _ es] exI [of _ "map snd ys"])
      (simp add: same_rest_def)
qed

end
