(* ===== verification/Discover.thy ===== *)
theory Discover
  imports Tx ReduceProof Reset GroupingSpec
begin

text \<open>
  The discovery thread, \<open>discover.c\<close>: two timers that take turns (\<open>flip_timers\<close>), the start of a
  discovery phase (\<open>tint_handler\<close>), its end, where the topology becomes a transmission group
  (\<open>tout_handler\<close>), and the event loop (\<open>dx_loop\<close>).

  The timers are those of \<open>timerfd_create\<close>: a map from descriptors to their settings, of which
  \<open>it_value\<close> is zero if and only if the timer is disarmed. Setting a timer fails on a descriptor
  that is no timer and on nanoseconds out of range. The events of the loop are a list, each with
  what the system calls of its handler return; when \<open>epoll_wait\<close> fails, the loop is left and there are
  no further events.
\<close>


section \<open>Timers\<close>

type_synonym timers = "int \<Rightarrow> itimerspec option"

definition timerfd_settime :: "int \<Rightarrow> itimerspec \<Rightarrow> timers \<Rightarrow> int \<times> timers" where
  "timerfd_settime fd its tm =
     (if tm fd = None \<or> \<not> timespec_ok (it_value its) \<or> \<not> timespec_ok (it_interval its) then (- 1, tm)
      else (0, tm(fd \<mapsto> its)))"

definition update_timer :: "int \<Rightarrow> int \<Rightarrow> int \<Rightarrow> timers \<Rightarrow> int \<times> timers" where
  "update_timer t sec nsec tm = (case tm t of
     None \<Rightarrow> (- 1, tm)
   | Some tspec \<Rightarrow>
       (let (ret, tm) = timerfd_settime t (tspec\<lparr>it_value := \<lparr>tv_sec = sec, tv_nsec = nsec\<rparr>\<rparr>) tm
        in if ret < 0 then (ret, tm) else (0, tm)))"

definition flip_timers :: "int \<Rightarrow> int \<Rightarrow> timespec option \<Rightarrow> timers \<Rightarrow> int \<times> timers" where
  "flip_timers t1 t2 ts tm = (case ts of
     None \<Rightarrow> (- 1, tm)
   | Some ts \<Rightarrow>
       (let (ret, tm) = update_timer t1 0 0 tm
        in if ret < 0 then (ret, tm) else update_timer t2 (tv_sec ts) (tv_nsec ts) tm))"

text \<open>
  \<open>init_timerfd\<close>: the descriptor \<open>fd\<close> that \<open>timerfd_create\<close> returned, negative on failure; the
  result has the descriptor or the error, and the pointer stored in \<open>ts\<close>.
\<close>

definition init_timerfd :: "int \<Rightarrow> itimerspec \<Rightarrow> timers \<Rightarrow> int \<times> timespec option \<times> timers" where
  "init_timerfd fd its tm =
     (if fd < 0 then (fd, None, tm)
      else let zero = \<lparr>tv_sec = 0, tv_nsec = 0\<rparr>;
               (ret, tm) = timerfd_settime fd its (tm(fd \<mapsto> \<lparr>it_interval = zero, it_value = zero\<rparr>))
           in if ret < 0 then (ret, None, tm) else (fd, Some (it_interval its), tm))"


section \<open>Handlers\<close>

text \<open>The static variables of the file and the arguments of the thread.\<close>

record dx_conf =
  tint_fd :: int
  tout_fd :: int
  tint_ts :: "timespec option"
  tout_ts :: "timespec option"

record 't dx =
  dx_g :: "'t group"
  dx_h :: heap
  dx_ms :: merging
  dx_tm :: timers
  dx_n :: size_t

definition tint_handler ::
    "int \<Rightarrow> (nat \<Rightarrow> int) \<Rightarrow> ip6_mdc_hdr \<Rightarrow> dx_conf \<Rightarrow> 't dx \<Rightarrow> (int \<times> dcvr_packet list \<times> 't dx) option" where
  "tint_handler rd res txbuf c st =
     (if rd < 1 then Some (rd, [], st)
      else do {
        (_, out) \<leftarrow> send_dcvr res txbuf (dx_g st) (dx_h st);
        let (n, tm) = flip_timers (tint_fd c) (tout_fd c) (tout_ts c) (dx_tm st);
        let st = st\<lparr>dx_tm := tm\<rparr>;
        Some (if n < 0 then n else 0, out, st)
      })"

definition tout_handler ::
    "'t judy \<Rightarrow> arguments \<Rightarrow> int \<Rightarrow> dx_conf \<Rightarrow> 't dx \<Rightarrow> (int \<times> 't dx) option" where
  "tout_handler J A rd c st = do {
     let st = st\<lparr>dx_n := 0\<rparr>;
     if rd < 1 then Some (- 1, st)
     else do {
       let r = g_root (dx_g st);
       (h, t) \<leftarrow> reduce_tree J A r (dx_h st) (g_ht (dx_g st));
       let st = st\<lparr>dx_h := h, dx_g := (dx_g st)\<lparr>g_ht := t\<rparr>\<rparr>;
       (grp, ms, h) \<leftarrow> greedy_grouping A r (dx_ms st) (dx_h st);
       let st = st\<lparr>dx_h := h, dx_ms := ms\<rparr>;
       case grp of
         None \<Rightarrow> Some (- 1, st)
       | Some grp \<Rightarrow> do {
           let st = st\<lparr>dx_g := set_txg grp (dx_g st)\<rparr>;
           h \<leftarrow> rec_reset_tree r r (dx_h st);
           let (n, tm) = flip_timers (tout_fd c) (tint_fd c) (tint_ts c) (dx_tm st);
           let st = st\<lparr>dx_h := h, dx_tm := tm\<rparr>;
           Some (if n < 0 then n else 0, st)
         }
     }
   }"

text \<open>
  An event: a datagram on the MEADcast socket, an expiration of one of the timers with the result
  of the \<open>read\<close> in its handler and those of \<open>sendto\<close>.
\<close>

datatype event = Response dgram | Timeout int | Interval int "nat \<Rightarrow> int"

definition dx_event ::
    "'t judy \<Rightarrow> arguments \<Rightarrow> ip6_mdc_hdr \<Rightarrow> dx_conf \<Rightarrow> event \<Rightarrow> 't dx \<Rightarrow> (dcvr_packet list \<times> 't dx) option" where
  "dx_event J A txbuf c e st = (case e of
     Response d \<Rightarrow> do {
       (_, n, h, t) \<leftarrow> rx_dcvr J d (dx_n st) (dx_h st) (g_ht (dx_g st));
       Some ([], st\<lparr>dx_n := n, dx_h := h, dx_g := (dx_g st)\<lparr>g_ht := t\<rparr>\<rparr>)
     }
   | Timeout rd \<Rightarrow> do {
       (_, st) \<leftarrow> tout_handler J A rd c st;
       Some ([], st)
     }
   | Interval rd res \<Rightarrow> do {
       (_, out, st) \<leftarrow> tint_handler rd res txbuf c st;
       Some (out, st)
     })"

fun dx_loop ::
    "'t judy \<Rightarrow> arguments \<Rightarrow> ip6_mdc_hdr \<Rightarrow> dx_conf \<Rightarrow> event list \<Rightarrow> 't dx \<Rightarrow> (dcvr_packet list \<times> 't dx) option" where
  "dx_loop J A txbuf c [] st = Some ([], st)"
| "dx_loop J A txbuf c (e # es) st = do {
     (out, st) \<leftarrow> dx_event J A txbuf c e st;
     (out', st) \<leftarrow> dx_loop J A txbuf c es st;
     Some (out @ out', st)
   }"

end
