(* ===== verification/TxProof.thy ===== *)
theory TxProof
  imports Tx
begin

text \<open>
  What is handed to \<open>sendto\<close>: the requests of \<open>send_dcvr\<close>, and for the packets of \<open>tx_uni\<close> and
  \<open>tx_mdc\<close> that they carry the payload that was read, with a destination port and a checksum that
  fit their addresses.
\<close>


section \<open>Loops that stop at the first error\<close>

text \<open>How many of \<open>n\<close> calls are made, the first being call \<open>k\<close>, and what the loop returns.\<close>

fun sends :: "(nat \<Rightarrow> int) \<Rightarrow> nat \<Rightarrow> nat \<Rightarrow> nat \<times> int" where
  "sends res k 0 = (0, 0)"
| "sends res k (Suc n) =
     (if res k < 1 then (1, res k) else let (m, e) = sends res (k + 1) n in (Suc m, e))"

lemma sends_all: "(\<And>i. k \<le> i \<Longrightarrow> i < k + n \<Longrightarrow> 1 \<le> res i) \<Longrightarrow> sends res k n = (n, 0)"
  by (induction n arbitrary: k) force+

lemma sends_le: "fst (sends res k n) \<le> n"
  by (induction n arbitrary: k) (auto split: prod.splits, metis fst_conv)


section \<open>Discovery requests\<close>

definition dcvr_packet_of :: "heap \<Rightarrow> ip6_mdc_hdr \<Rightarrow> uint8 \<Rightarrow> ptr \<Rightarrow> dcvr_packet" where
  "dcvr_packet_of h hdr len l =
     (let dst = addr_sa (rcvr_addr (the (ldata h l)))
      in \<lparr>dp_dst = dst, dp_hdr = hdr\<lparr>mdc_addr := (mdc_addr hdr)[0 := sin6_addr dst]\<rparr>, dp_len = len\<rparr>)"

lemma send_dcvr_loop_ok:
  "rchain (leafs h) i ls \<Longrightarrow> mdc_addr hdr \<noteq> [] \<Longrightarrow>
   send_dcvr_loop res len k hdr out i h =
     Some (snd (sends res k (length ls)),
       out @ map (dcvr_packet_of h hdr len) (take (fst (sends res k (length ls))) ls))"
proof (induction ls arbitrary: i k hdr out)
  case Nil
  then show ?case by (subst send_dcvr_loop.simps) simp
next
  case (Cons l ls)
  from Cons.prems obtain lf where lf: "i = l" "l \<noteq> NULL" "leafs h l = Some lf"
      "rchain (leafs h) (rcvr_next (leaf_val lf)) ls" by (auto split: option.splits)
  let ?dst = "addr_sa (rcvr_addr (leaf_val lf))"
  let ?hdr = "hdr\<lparr>mdc_addr := (mdc_addr hdr)[0 := sin6_addr ?dst]\<rparr>"
  have l: "ldata h l = Some (leaf_val lf)" using lf(3) by (simp add: ldata_def)
  have pk: "dcvr_packet_of h ?hdr len = dcvr_packet_of h hdr len"
    by (simp add: dcvr_packet_of_def Let_def fun_eq_iff)
  show ?case
    using lf Cons.prems(2) Cons.IH [OF lf(4), of ?hdr "k + 1"] l pk
    by (subst send_dcvr_loop.simps) (simp add: case_prod_beta dcvr_packet_of_def [of h hdr len l] Let_def)
qed

lemma set_dcvr_hdr_addr: "mdc_addr (fst (set_dcvr_hdr b)) = mdc_addr b"
  by (simp add: set_dcvr_hdr_def Let_def set_rt_hdr_def)

text \<open>One request for every receiver, in the order of the receiver list, up to the first error.\<close>

lemma send_dcvr_ok:
  assumes G: "group_ok J g h V" and b: "mdc_addr txbuf \<noteq> []"
  shows "\<exists>ls. distinct ls \<and> set ls = dom (leafs h) \<and>
    send_dcvr res txbuf g h = Some (snd (sends res 0 (length ls)),
      map (dcvr_packet_of h (fst (set_dcvr_hdr txbuf)) 32) (take (fst (sends res 0 (length ls))) ls))"
proof -
  obtain ls where ls: "rchain (leafs h) (g_rcvr g) ls" "distinct ls" "\<And>l. l \<in> set ls \<longleftrightarrow> leafs h l \<noteq> None"
    using group_okE [OF G] by metis
  have "snd (set_dcvr_hdr txbuf) = 32" by (simp add: set_dcvr_hdr_def Let_def get_mdc_hdr_size_eq)
  then have "send_dcvr res txbuf g h =
      send_dcvr_loop res 32 0 (fst (set_dcvr_hdr txbuf)) [] (g_rcvr g) h"
    by (simp add: send_dcvr_def case_prod_beta)
  then show ?thesis
    using send_dcvr_loop_ok [OF ls(1), of "fst (set_dcvr_hdr txbuf)" res 32 0 "[]"] b ls(2,3)
    by (intro exI [of _ ls]) (auto simp: set_dcvr_hdr_addr)
qed


section \<open>Corrections of the UDP header\<close>

text \<open>Payloads that differ in the destination port and the checksum at most.\<close>

definition udp_like :: "uint8 list \<Rightarrow> uint8 list \<Rightarrow> bool" where
  "udp_like pl pl' \<longleftrightarrow> length pl' = length pl \<and> (\<forall>i < length pl. i \<notin> {2, 3, 6, 7} \<longrightarrow> pl' ! i = pl ! i)"

lemma udp_like_refl [simp]: "udp_like pl pl"
  by (simp add: udp_like_def)

lemma udp_like_trans: "udp_like pl pl' \<Longrightarrow> udp_like pl' pl'' \<Longrightarrow> udp_like pl pl''"
  by (simp add: udp_like_def)

lemma udp_like_store: "j = 2 \<or> j = 6 \<Longrightarrow> udp_like pl (store16 j x pl)"
  by (auto simp: udp_like_def store16_def nth_list_update)

lemma udp_like_len: "udp_like pl pl' \<Longrightarrow> 5 < length pl \<Longrightarrow> load16 4 pl' = load16 4 pl"
  by (simp add: udp_like_def load16_def)

text \<open>The length field of a UDP header lies within the payload, and covers the header.\<close>

definition udp_len_ok :: "uint8 list \<Rightarrow> nat \<Rightarrow> bool" where
  "udp_len_ok pl plen \<longleftrightarrow> 8 \<le> unat (load16 4 pl) \<and> unat (load16 4 pl) \<le> plen \<and> plen \<le> length pl"

definition udp_checks :: "in6_addr \<Rightarrow> in6_addr \<Rightarrow> uint8 list \<Rightarrow> bool" where
  "udp_checks src dst pl \<longleftrightarrow>
     net_checksum_tcpudp (load16 4 pl) 0 17 (in6_bytes src) (in6_bytes dst) pl = Some 0"

lemma length_in6_bytes [simp]: "length (in6_bytes a) = 16"
  by (simp add: in6_bytes_def)

lemma udp_fix_check_ok:
  assumes ok: "udp_len_ok pl plen"
  shows "\<exists>pl'. udp_fix_check src dst pl = Some pl' \<and> udp_like pl pl' \<and> load16 2 pl' = load16 2 pl \<and>
    udp_checks src dst pl' \<and> udp_checks src dst (take plen pl')"
proof -
  let ?n = "load16 4 pl" and ?pl = "store16 6 0 pl"
  have n: "8 \<le> unat ?n" "unat ?n \<le> plen" "plen \<le> length pl" using ok by (auto simp: udp_len_ok_def)
  have l4: "load16 4 ?pl = ?n" by (simp add: load16_other)
  define c where "c = net_checksum_finish (word_of_nat (segment_sum ?n 17 (in6_bytes src) (in6_bytes dst) ?pl))"
  have c: "net_checksum_tcpudp ?n 0 17 (in6_bytes src) (in6_bytes dst) ?pl = Some c"
    unfolding c_def by (rule net_checksum_tcpudp_sum) (use n in simp_all)
  let ?pl' = "store16 6 c ?pl"
  have zero: "?pl ! 6 = 0" "?pl ! (6 + 1) = 0" using n by (simp_all add: store16_def nth_list_update)
  have chk: "net_checksum_tcpudp ?n 0 17 (in6_bytes src) (in6_bytes dst) ?pl' = Some 0"
    by (rule checksum_checks [OF _ _ _ _ _ zero c]) (use n in simp_all)
  have like: "udp_like pl ?pl'" using udp_like_trans [OF udp_like_store udp_like_store] by blast
  have l4': "load16 4 ?pl' = ?n" by (rule udp_like_len [OF like]) (use n in simp)
  have "net_checksum_tcpudp ?n 0 17 (in6_bytes src) (in6_bytes dst) (take plen ?pl') =
      net_checksum_tcpudp ?n 0 17 (in6_bytes src) (in6_bytes dst) ?pl'"
    using n by (simp add: net_checksum_tcpudp_sum segment_sum_def min_absorb1)
  moreover have "load16 4 (take plen ?pl') = ?n" using l4' n by (simp add: load16_def)
  ultimately have t: "udp_checks src dst (take plen ?pl')" using chk by (simp add: udp_checks_def)
  have "udp_fix_check src dst pl = Some ?pl'"
    using n c by (simp add: udp_fix_check_def Let_def l4 IPPROTO_UDP_def)
  moreover have "load16 2 ?pl' = load16 2 pl" by (simp add: load16_other)
  moreover have "udp_checks src dst ?pl'" using chk by (simp add: udp_checks_def l4')
  ultimately show ?thesis using like t by blast
qed

lemma udp_like_ok: "udp_like pl pl' \<Longrightarrow> udp_len_ok pl n \<Longrightarrow> udp_len_ok pl' n"
  using udp_like_len [of pl pl'] by (auto simp: udp_len_ok_def udp_like_def)



section \<open>Unicast\<close>

text \<open>The packet \<open>p\<close> for the receiver address \<open>a\<close>, made from the packet with \<open>ip\<close> and \<open>pl\<close>.\<close>

definition uni_packet_ok :: "ipv6hdr \<Rightarrow> uint8 list \<Rightarrow> nat \<Rightarrow> addr \<Rightarrow> uni_packet \<Rightarrow> bool" where
  "uni_packet_ok ip pl plen a p \<longleftrightarrow> up_dst p = sin6_addr (addr_sa a) \<and>
     up_ip p = ip\<lparr>ip_daddr := up_dst p\<rparr> \<and> udp_like (take plen pl) (up_payload p) \<and>
     (ip_nexthdr ip = IPPROTO_UDP \<longrightarrow>
       load16 2 (up_payload p) = addr_port a \<and> udp_checks (ip_saddr ip) (up_dst p) (up_payload p)) \<and>
     (ip_nexthdr ip \<noteq> IPPROTO_UDP \<longrightarrow> up_payload p = take plen pl)"

lemma udp_like_take: "udp_like pl pl' \<Longrightarrow> udp_like (take n pl) (take n pl')"
  by (auto simp: udp_like_def)

lemma load16_take: "i + 1 < n \<Longrightarrow> load16 i (take n pl) = load16 i pl"
  by (simp add: load16_def)

text \<open>One turn of the loop.\<close>

lemma uni_turn:
  assumes like: "udp_like pl0 pl" "ip_nexthdr ip \<noteq> IPPROTO_UDP \<Longrightarrow> pl = pl0"
    and ok: "if ip_nexthdr ip = IPPROTO_UDP then udp_len_ok pl0 plen else plen \<le> length pl0"
  shows "\<exists>pl'. uni_correct a (ip\<lparr>ip_daddr := sin6_addr (addr_sa a)\<rparr>) pl = Some pl' \<and> udp_like pl0 pl' \<and> plen \<le> length pl' \<and>
    (ip_nexthdr ip \<noteq> IPPROTO_UDP \<longrightarrow> pl' = pl0) \<and>
    uni_packet_ok ip pl0 plen a \<lparr>up_dst = sin6_addr (addr_sa a),
      up_ip = ip\<lparr>ip_daddr := sin6_addr (addr_sa a)\<rparr>, up_payload = take plen pl'\<rparr>"
proof (cases "ip_nexthdr ip = IPPROTO_UDP")
  case False
  then show ?thesis using like ok by (simp add: uni_packet_ok_def uni_correct_def)
next
  case True
  let ?pl = "store16 2 (addr_port a) pl"
  have like': "udp_like pl0 ?pl" using udp_like_trans [OF like(1) udp_like_store] by blast
  have ok': "udp_len_ok ?pl plen" using udp_like_ok [OF like'] ok True by simp
  obtain pl' where pl': "udp_fix_check (ip_saddr ip) (sin6_addr (addr_sa a)) ?pl = Some pl'"
      "udp_like ?pl pl'" "load16 2 pl' = load16 2 ?pl"
      "udp_checks (ip_saddr ip) (sin6_addr (addr_sa a)) (take plen pl')"
    using udp_fix_check_ok [OF ok'] by blast
  have n: "8 \<le> plen" "plen \<le> length pl" using ok' by (auto simp: udp_len_ok_def)
  then have "load16 2 (take plen pl') = addr_port a" using pl'(3) by (simp add: load16_take load16_store16)
  moreover have "udp_like pl0 pl'" using udp_like_trans [OF like' pl'(2)] .
  moreover have "plen \<le> length pl'" using pl'(2) n by (simp add: udp_like_def)
  ultimately show ?thesis
    using True pl'(1,4) n udp_like_take [of pl0 pl' plen] by (simp add: uni_packet_ok_def uni_correct_def)
qed

lemma tx_uni_loop_ok:
  assumes ok: "if ip_nexthdr ip = IPPROTO_UDP then udp_len_ok pl0 plen else plen \<le> length pl0"
  shows "i + n = nuni \<Longrightarrow> nuni \<le> length uni \<Longrightarrow> udp_like pl0 pl \<Longrightarrow>
    (ip_nexthdr ip \<noteq> IPPROTO_UDP \<Longrightarrow> pl = pl0) \<Longrightarrow> ip\<lparr>ip_daddr := d\<rparr> = ip' \<Longrightarrow>
    \<exists>ps pl'. tx_uni_loop res nuni i uni ip' pl (40 + plen) out =
        Some (snd (sends res i n), out @ ps, pl') \<and> udp_like pl0 pl' \<and>
      list_all2 (uni_packet_ok ip pl0 plen) (take (fst (sends res i n)) (drop i uni)) ps"
proof (induction n arbitrary: i pl out d ip')
  case 0
  then show ?case by (subst tx_uni_loop.simps) auto
next
  case (Suc n)
  have i: "i < nuni" "i < length uni" using Suc.prems(1,2) by simp_all
  let ?a = "uni ! i"
  let ?p = "\<lambda>pl. \<lparr>up_dst = sin6_addr (addr_sa ?a), up_ip = ip\<lparr>ip_daddr := sin6_addr (addr_sa ?a)\<rparr>,
    up_payload = take plen pl\<rparr>"
  obtain pl' where pl': "uni_correct ?a (ip\<lparr>ip_daddr := sin6_addr (addr_sa ?a)\<rparr>) pl = Some pl'" "udp_like pl0 pl'" "plen \<le> length pl'"
      "ip_nexthdr ip \<noteq> IPPROTO_UDP \<Longrightarrow> pl' = pl0" "uni_packet_ok ip pl0 plen ?a (?p pl')"
    using uni_turn [OF Suc.prems(3,4) ok, of ?a] by blast
  have ip': "ip'\<lparr>ip_daddr := x\<rparr> = ip\<lparr>ip_daddr := x\<rparr>" "ip_nexthdr ip' = ip_nexthdr ip"
    "ip_saddr ip' = ip_saddr ip" for x
    using Suc.prems(5) by auto
  have step: "tx_uni_loop res nuni i uni ip' pl (40 + plen) out =
      (if res i < 1 then Some (res i, out @ [?p pl'], pl')
       else tx_uni_loop res nuni (i + 1) uni (ip\<lparr>ip_daddr := sin6_addr (addr_sa ?a)\<rparr>) pl' (40 + plen)
         (out @ [?p pl']))"
    using i pl'(1,3) by (subst tx_uni_loop.simps) (simp add: ip' Let_def sizeof_ipv6hdr_def)
  have d: "drop i uni = ?a # drop (Suc i) uni" using i(2) by (simp add: Cons_nth_drop_Suc)
  show ?case
  proof (cases "res i < 1")
    case True
    then show ?thesis using step pl'(2,5) by (auto simp: d)
  next
    case False
    obtain ps pl'' where "tx_uni_loop res nuni (i + 1) uni (ip\<lparr>ip_daddr := sin6_addr (addr_sa ?a)\<rparr>) pl'
          (40 + plen) (out @ [?p pl']) = Some (snd (sends res (i + 1) n), (out @ [?p pl']) @ ps, pl'')"
        "udp_like pl0 pl''"
        "list_all2 (uni_packet_ok ip pl0 plen) (take (fst (sends res (i + 1) n)) (drop (i + 1) uni)) ps"
      using Suc.IH [of "i + 1" pl' "sin6_addr (addr_sa ?a)" _ "out @ [?p pl']"] Suc.prems(1,2) pl'(2,4)
      by auto
    then show ?thesis
      using False step pl'(5) by (intro exI [of _ "?p pl' # ps"] exI [of _ pl'']) (simp add: d case_prod_beta)
  qed
qed

text \<open>Every receiver of the group's array gets the packet, up to the first error.\<close>

lemma tx_uni_ok:
  assumes fd: "1 \<le> fd" and g: "txg_uni g = us" "txg_nuni g = length us"
    and ok: "if ip_nexthdr ip = IPPROTO_UDP then udp_len_ok pl plen else plen \<le> length pl"
  shows "\<exists>ps pl'. tx_uni res fd (Some g) ip pl (40 + plen) =
      Some (snd (sends res 0 (length us)), ps, pl') \<and> udp_like pl pl' \<and>
    list_all2 (uni_packet_ok ip pl plen) (take (fst (sends res 0 (length us))) us) ps"
  using tx_uni_loop_ok [OF ok, of 0 "length us" "length us" us pl "ip_daddr ip" ip res "[]"] fd g
  by (auto simp: tx_uni_def)


section \<open>MEADcast\<close>

definition mdc_packet_ok :: "in6_addr \<Rightarrow> uint8 list \<Rightarrow> nat \<Rightarrow> ip6_mdc_hdr \<Rightarrow> mdc_packet \<Rightarrow> bool" where
  "mdc_packet_ok bia pl plen d p \<longleftrightarrow> mp_hdr p = d \<and> mp_dst p = mdc_addr d ! 1 \<and>
     udp_like (take plen pl) (mp_payload p) \<and> udp_checks bia (mp_dst p) (mp_payload p)"

text \<open>A header whose count is right, with two entries at least, that fits in front of the payload.\<close>

definition mdc_sendable :: "size_t \<Rightarrow> ip6_mdc_hdr \<Rightarrow> bool" where
  "mdc_sendable room d \<longleftrightarrow> unat (hdr_dsts d) = length (mdc_addr d) \<and> 2 \<le> length (mdc_addr d) \<and>
     get_mdc_hdr_size (length (mdc_addr d)) \<le> room"

lemma tx_mdc_loop_ok:
  assumes ok: "udp_len_ok pl0 plen"
  shows "chain (cells h) i xs \<Longrightarrow>
    list_all2 (\<lambda>x d. hdrs h (snd x) = Some d \<and> mdc_sendable room d) xs ds \<Longrightarrow> udp_like pl0 pl \<Longrightarrow>
    \<exists>ps pl'. tx_mdc_loop res room bia k i pl plen h out =
        Some (snd (sends res k (length ds)), out @ ps, pl') \<and> udp_like pl0 pl' \<and>
      list_all2 (mdc_packet_ok bia pl0 plen) (take (fst (sends res k (length ds))) ds) ps"
proof (induction xs arbitrary: i k ds pl out)
  case Nil
  then show ?case by (subst tx_mdc_loop.simps) auto
next
  case (Cons x xs)
  from Cons.prems(1) obtain v ce where x: "x = (i, v)" "i \<noteq> NULL" "cells h i = Some ce" "child_v ce = v"
      "chain (cells h) (child_n ce) xs" by (auto elim: chain_ConsE)
  from Cons.prems(2) x(1) obtain d ds' where d: "ds = d # ds'" "hdrs h v = Some d" "mdc_sendable room d"
      "list_all2 (\<lambda>x d. hdrs h (snd x) = Some d \<and> mdc_sendable room d) xs ds'"
    by (cases ds) auto
  let ?dst = "mdc_addr d ! 1"
  obtain pl' where pl': "udp_fix_check bia ?dst pl = Some pl'" "udp_like pl pl'"
      "udp_checks bia ?dst (take plen pl')"
    using udp_fix_check_ok [OF udp_like_ok [OF Cons.prems(3) ok]] by blast
  let ?p = "\<lparr>mp_dst = ?dst, mp_hdr = d, mp_payload = take plen pl'\<rparr>"
  have like: "udp_like pl0 pl'" by (rule udp_like_trans [OF Cons.prems(3) pl'(2)])
  then have p: "mdc_packet_ok bia pl0 plen d ?p"
    using udp_like_take pl'(3) by (simp add: mdc_packet_ok_def)
  have len: "plen \<le> length pl'" using like ok by (simp add: udp_like_def udp_len_ok_def)
  have n: "\<not> hdr_dsts d < 2" "1 < length (mdc_addr d)" "unat (hdr_dsts d) = length (mdc_addr d)"
    "get_mdc_hdr_size (length (mdc_addr d)) \<le> room"
    using d(3) by (auto simp: mdc_sendable_def word_less_nat_alt)
  have step: "tx_mdc_loop res room bia k i pl plen h out =
      (if res k < 1 then Some (res k, out @ [?p], pl')
       else tx_mdc_loop res room bia (k + 1) (child_n ce) pl' plen h (out @ [?p]))"
    using x d(2) n pl'(1) len by (subst tx_mdc_loop.simps) (simp add: Let_def)
  show ?case
  proof (cases "res k < 1")
    case True
    then show ?thesis using step like p by (auto simp: d(1))
  next
    case False
    obtain ps pl'' where "tx_mdc_loop res room bia (k + 1) (child_n ce) pl' plen h (out @ [?p]) =
          Some (snd (sends res (k + 1) (length ds')), (out @ [?p]) @ ps, pl'')" "udp_like pl0 pl''"
        "list_all2 (mdc_packet_ok bia pl0 plen) (take (fst (sends res (k + 1) (length ds'))) ds') ps"
      using Cons.IH [OF x(5) d(4) like] by blast
    then show ?thesis
      using False step p by (intro exI [of _ "?p # ps"] exI [of _ pl'']) (simp add: d(1) case_prod_beta)
  qed
qed

text \<open>Every header of the group goes out with the payload, up to the first error; none is skipped.\<close>

lemma tx_mdc_ok:
  assumes fd: "1 \<le> fd" and ch: "chain (cells h) (txg_mdc g) xs"
    and ds: "list_all2 (\<lambda>x d. hdrs h (snd x) = Some d \<and> mdc_sendable room d) xs ds"
    and ok: "udp_len_ok pl plen"
  shows "\<exists>ps pl'. tx_mdc res room bia fd (Some g) pl plen h =
      Some (snd (sends res 0 (length ds)), ps, pl') \<and>
    list_all2 (mdc_packet_ok bia pl plen) (take (fst (sends res 0 (length ds))) ds) ps"
  using tx_mdc_loop_ok [OF ok ch ds udp_like_refl, of res bia 0 "[]"] fd by (auto simp: tx_mdc_def)

end
