(* ===== verification/DiscoverProof.thy ===== *)
theory DiscoverProof
  imports Discover TxProof
begin

text \<open>
  The discovery thread keeps the group well formed, keeps exactly one of its timers armed, and ends
  every discovery phase with a transmission group that serves every receiver once.
\<close>


section \<open>The timers take turns\<close>

definition zero_ts :: timespec where "zero_ts = \<lparr>tv_sec = 0, tv_nsec = 0\<rparr>"

definition armed :: "timers \<Rightarrow> int \<Rightarrow> bool" where
  "armed tm fd \<longleftrightarrow> (\<exists>its. tm fd = Some its \<and> it_value its \<noteq> zero_ts)"

text \<open>Two timers with valid settings, intervals that are not zero, and one of them armed.\<close>

definition conf_ok :: "dx_conf \<Rightarrow> bool" where
  "conf_ok c \<longleftrightarrow> tint_fd c \<noteq> tout_fd c \<and>
     (\<exists>a b. tint_ts c = Some a \<and> tout_ts c = Some b \<and> timespec_ok a \<and> timespec_ok b \<and> a \<noteq> zero_ts \<and> b \<noteq> zero_ts)"

definition timer_of :: "timers \<Rightarrow> int \<Rightarrow> timespec option \<Rightarrow> bool" where
  "timer_of tm fd ts \<longleftrightarrow> (\<exists>its. tm fd = Some its \<and> ts = Some (it_interval its))"

definition timers_ok :: "dx_conf \<Rightarrow> timers \<Rightarrow> bool" where
  "timers_ok c tm \<longleftrightarrow> timer_of tm (tint_fd c) (tint_ts c) \<and> timer_of tm (tout_fd c) (tout_ts c) \<and>
     armed tm (tint_fd c) \<noteq> armed tm (tout_fd c)"

lemma flip_timers_ok:
  assumes t: "timer_of tm t1 ts1" "timer_of tm t2 (Some ts)" "t1 \<noteq> t2"
    and ok: "ts1 = Some a" "timespec_ok a" "timespec_ok ts" "ts \<noteq> zero_ts"
  shows "\<exists>tm'. flip_timers t1 t2 (Some ts) tm = (0, tm') \<and> \<not> armed tm' t1 \<and> armed tm' t2 \<and>
    timer_of tm' t1 ts1 \<and> timer_of tm' t2 (Some ts) \<and> (\<forall>fd. fd \<noteq> t1 \<and> fd \<noteq> t2 \<longrightarrow> tm' fd = tm fd)"
proof -
  obtain i1 where i1: "tm t1 = Some i1" "it_interval i1 = a" using t(1) ok(1) by (auto simp: timer_of_def)
  obtain i2 where i2: "tm t2 = Some i2" "it_interval i2 = ts" using t(2) by (auto simp: timer_of_def)
  let ?i1 = "i1\<lparr>it_value := zero_ts\<rparr>" and ?i2 = "i2\<lparr>it_value := ts\<rparr>"
  let ?tm1 = "tm(t1 \<mapsto> ?i1)"
  have z: "timespec_ok zero_ts" by (simp add: timespec_ok_def zero_ts_def)
  have u1: "update_timer t1 0 0 tm = (0, ?tm1)"
    using i1 z ok(2) by (simp add: update_timer_def timerfd_settime_def flip: zero_ts_def)
  have "update_timer t2 (tv_sec ts) (tv_nsec ts) ?tm1 = (0, ?tm1(t2 \<mapsto> ?i2))"
    using i2 t(3) ok(3) by (cases ts) (simp add: update_timer_def timerfd_settime_def)
  then have "flip_timers t1 t2 (Some ts) tm = (0, ?tm1(t2 \<mapsto> ?i2))" by (simp add: flip_timers_def u1)
  then show ?thesis
    using t(3) i1 i2 ok by (intro exI [of _ "?tm1(t2 \<mapsto> ?i2)"]) (simp add: armed_def timer_of_def)
qed

lemma flip_to_tout:
  assumes "conf_ok c" "timers_ok c tm"
  shows "\<exists>tm'. flip_timers (tint_fd c) (tout_fd c) (tout_ts c) tm = (0, tm') \<and> timers_ok c tm' \<and>
    armed tm' (tout_fd c)"
proof -
  obtain a b where c: "tint_fd c \<noteq> tout_fd c" "tint_ts c = Some a" "tout_ts c = Some b"
      "timespec_ok a" "timespec_ok b" "b \<noteq> zero_ts"
    using assms(1) by (auto simp: conf_ok_def)
  then show ?thesis
    using flip_timers_ok [of tm "tint_fd c" "tint_ts c" "tout_fd c" b a] assms(2)
    by (auto simp: timers_ok_def)
qed

lemma flip_to_tint:
  assumes "conf_ok c" "timers_ok c tm"
  shows "\<exists>tm'. flip_timers (tout_fd c) (tint_fd c) (tint_ts c) tm = (0, tm') \<and> timers_ok c tm' \<and>
    armed tm' (tint_fd c)"
proof -
  obtain a b where c: "tint_fd c \<noteq> tout_fd c" "tint_ts c = Some a" "tout_ts c = Some b"
      "timespec_ok a" "timespec_ok b" "a \<noteq> zero_ts"
    using assms(1) by (auto simp: conf_ok_def)
  then show ?thesis
    using flip_timers_ok [of tm "tout_fd c" "tout_ts c" "tint_fd c" a b] assms(2)
    by (auto simp: timers_ok_def)
qed


section \<open>The transmission group\<close>

text \<open>
  The group \<open>grp\<close> in the memory \<open>h\<close> serves every receiver exactly once: those of the segments
  \<open>gs\<close> through the headers of its list, one header for each member of \<open>gs\<close>, the others, \<open>us\<close>,
  through its array.
\<close>

definition txg_serves :: "heap \<Rightarrow> nat \<Rightarrow> tx_group \<Rightarrow> seg list list \<Rightarrow> ptr list \<Rightarrow> bool" where
  "txg_serves h mx grp gs us \<longleftrightarrow>
     (\<exists>ds. chain (cells h) (txg_mdc grp) ds \<and>
       list_all2 (\<lambda>x g. \<exists>d. hdrs h (snd x) = Some d \<and> hdr_ok h mx d g \<and> \<not> is_node h (snd x)) ds gs) \<and>
     txg_nuni grp = length us \<and> txg_uni grp = rcvr_addrs h us \<and>
     distinct (seg_leafs (concat gs) @ us) \<and>
     set (seg_leafs (concat gs) @ us) = {l. leafs h l \<noteq> None}"

lemma greedy_grouping_serves:
  assumes T: "topo_ok h V root" and "no_dead V" and "2 \<le> max_addrs A"
  shows "\<exists>grp h' gs us. greedy_grouping A root reset_merging_stats h =
      Some (Some grp, reset_merging_stats, h') \<and> txg_serves h' (gg_max A) grp gs us \<and> same_tree h V h'"
proof -
  obtain grp h' ds gs us where r: "greedy_grouping A root reset_merging_stats h =
        Some (Some grp, reset_merging_stats, h')" "same_tree h V h'" "chain (cells h') (txg_mdc grp) ds"
      "list_all2 (\<lambda>x g. \<exists>d. hdrs h' (snd x) = Some d \<and> hdr_ok h (gg_max A) d g \<and> \<not> is_node h (snd x)) ds gs"
      "txg_nuni grp = length us" "txg_uni grp = rcvr_addrs h us"
      "distinct (seg_leafs (concat gs) @ us)" "set (seg_leafs (concat gs) @ us) = {l. leafs h l \<noteq> None}"
    using greedy_grouping_all [OF assms] by blast
  note same = st_rdata [OF r(2)] st_ldata [OF r(2)]
  have "hdr_ok h' m d g = hdr_ok h m d g" for m d g
  proof -
    have "raddr h' = raddr h" "laddr h' = laddr h" by (auto simp: raddr_def laddr_def same)
    then show ?thesis by (simp add: hdr_ok_def entries_def)
  qed
  moreover have "is_node h' v = is_node h v" for v
    using rdata_dom [OF same(1)] ldata_dom [OF same(2)] by (simp add: is_node_def)
  moreover have "rcvr_addrs h' us = rcvr_addrs h us" by (simp add: rcvr_addrs_def same)
  ultimately have "txg_serves h' (gg_max A) grp gs us"
    using r(3-8) ldata_dom [OF same(2)] unfolding txg_serves_def by auto
  then show ?thesis using r(1,2) by blast
qed

text \<open>The bounds that the parsing of the arguments enforces.\<close>

definition args_ok :: "arguments \<Rightarrow> bool" where
  "args_ok A \<longleftrightarrow> 2 \<le> max_addrs A \<and> 1 \<le> min_leafs A \<and> 1 \<le> min_routers A"

lemma enough_no_dead:
  "args_ok A \<Longrightarrow> \<forall>(p, x) \<in> kid_edges V. enough A V x \<Longrightarrow> no_dead V"
  unfolding no_dead_def enough_def args_ok_def by fastforce

lemma same_tree_ok: "topo_ok h V root \<Longrightarrow> same_tree h V h' \<Longrightarrow> tree_ok h' V root"
  using rdata_dom [of h' h] ldata_dom [of h' h]
  by (auto simp: topo_ok_def same_tree_def tree_ok_def)

lemma addr_of_raddrs:
  assumes "raddrs h' = raddrs h" "ldata h' = ldata h"
  shows "addr_of h' = addr_of h"
proof
  fix v
  have "map_option fst (rdata h' v) = map_option fst (rdata h v)" using assms(1) by (metis raddrs_def)
  then show "addr_of h' v = addr_of h v"
    unfolding addr_of_def assms(2) by (auto split: option.splits)
qed

lemma group_okI:
  assumes "group_ok J g h0 V0" "g_rcvr g' = g_rcvr g" "g_nrcvr g' = g_nrcvr g" "ldata h = ldata h0"
    and "topo_ok h V (g_root g')" "hops_mono h V (g_root g')" "table_ok J (g_ht g') h"
  shows "group_ok J g' h V"
proof -
  obtain ls where ls: "rchain (leafs h0) (g_rcvr g) ls" "distinct ls" "length ls = g_nrcvr g"
    "\<And>l. l \<in> set ls \<longleftrightarrow> leafs h0 l \<noteq> None" using group_okE [OF assms(1)] by metis
  have "rchain (leafs h) (g_rcvr g) ls" by (rule rchain_ldata [OF assms(4) ls(1)])
  moreover have "l \<in> set ls \<longleftrightarrow> leafs h l \<noteq> None" for l using ls(4) ldata_dom [OF assms(4)] by simp
  ultimately show ?thesis using assms(2,3,5-7) ls(2,3) unfolding group_ok_def by auto
qed

text \<open>The state of the thread between two events.\<close>

definition dx_ok :: "'t judy \<Rightarrow> dx_conf \<Rightarrow> 't dx \<Rightarrow> bool" where
  "dx_ok J c st \<longleftrightarrow> (\<exists>V. group_ok J (dx_g st) (dx_h st) V) \<and> dx_ms st = reset_merging_stats \<and>
     timers_ok c (dx_tm st)"


section \<open>The end of a discovery phase\<close>

text \<open>The grouping of the reduced tree, and the reset of a tree of which the grouping used up the counters.\<close>

lemma grouped_phase:
  assumes J: "judy_hs J" and A: "args_ok A" and G: "group_ok J g h V"
  shows "\<exists>h1 t1 V1 grp h2 gs us. reduce_tree J A (g_root g) h (g_ht g) = Some (h1, t1) \<and>
    greedy_grouping A (g_root g) reset_merging_stats h1 = Some (Some grp, reset_merging_stats, h2) \<and>
    txg_serves h2 (gg_max A) grp gs us \<and> same_tree h1 V1 h2 \<and> disc_inv True J h1 V1 (g_root g) t1 \<and>
    ldata h1 = ldata h"
proof -
  have D: "disc_inv True J h V (g_root g) (g_ht g)" using G by (auto simp: group_ok_def disc_inv_def)
  obtain h1 t1 V1 where 1: "reduce_tree J A (g_root g) h (g_ht g) = Some (h1, t1)"
      "disc_inv True J h1 V1 (g_root g) t1" "ldata h1 = ldata h" "\<forall>(p, x) \<in> kid_edges V1. enough A V1 x"
    using reduce_tree_ok [OF J D] by blast
  have T1: "topo_ok h1 V1 (g_root g)" using 1(2) by (auto simp: disc_inv_def)
  have mx: "2 \<le> max_addrs A" using A by (simp add: args_ok_def)
  show ?thesis
    using greedy_grouping_serves [OF T1 enough_no_dead [OF A 1(4)] mx] 1 by blast
qed

text \<open>All receivers are in the list of the root, and no other list has an element.\<close>

definition flat :: "heap \<Rightarrow> view \<Rightarrow> ptr \<Rightarrow> bool" where
  "flat h V root \<longleftrightarrow> snd ` set (V (Leaf, root)) = {l. leafs h l \<noteq> None} \<and>
     (\<forall>k q. (k, q) \<noteq> (Leaf, root) \<longrightarrow> V (k, q) = [])"

lemma reset_phase:
  assumes G: "group_ok J g h V" and D: "disc_inv True J h1 V1 (g_root g) t1" and l: "ldata h1 = ldata h"
    and S: "same_tree h1 V1 h2"
  shows "\<exists>h3 V3. rec_reset_tree (g_root g) (g_root g) h2 = Some h3 \<and> ldata h3 = ldata h \<and>
    (\<forall>v. group_ok J (g\<lparr>g_ht := t1, g_txg := v\<rparr>) h3 V3) \<and> flat h3 V3 (g_root g)"
proof -
  let ?root = "g_root g"
  have T1: "topo_ok h1 V1 ?root" and H1: "hops_mono h1 V1 ?root" and D1: "table_ok J t1 h1"
    using D by (auto simp: disc_inv_def)
  note same = st_rdata [OF S] st_ldata [OF S]
  have "tree_ok h2 V1 ?root" by (rule same_tree_ok [OF T1 S])
  moreover have "hops_at h2 ?root = 0" using H1 by (simp add: hops_mono_def hops_at_def same)
  ultimately obtain h3 V3 where 3: "rec_reset_tree ?root ?root h2 = Some h3" "topo_ok h3 V3 ?root"
      "hops_mono h3 V3 ?root" "ldata h3 = ldata h2" "raddrs h3 = raddrs h2"
      "snd ` set (V3 (Leaf, ?root)) = {l. leafs h2 l \<noteq> None}"
      "\<forall>k q. (k, q) \<noteq> (Leaf, ?root) \<longrightarrow> V3 (k, q) = []"
    using rec_reset_tree_ok [of h2 V1 ?root] by auto
  have "addr_of h3 = addr_of h1"
    using addr_of_raddrs [OF 3(5,4)] addr_of_cong [OF same] by simp
  then have "table_ok J t1 h3" using table_ok_cong [OF D1 refl] by blast
  moreover have "ldata h3 = ldata h" using 3(4) same(2) l by simp
  ultimately have "group_ok J (g\<lparr>g_ht := t1, g_txg := v\<rparr>) h3 V3" for v
    using group_okI [OF G, of "g\<lparr>g_ht := t1, g_txg := v\<rparr>" h3 V3] 3(2,3) by simp
  moreover have "flat h3 V3 ?root"
    using 3(6,7) ldata_dom [OF 3(4)] by (simp add: flat_def)
  ultimately show ?thesis using 3(1,4) same(2) l by metis
qed

lemma end_of_phase:
  assumes J: "judy_hs J" and A: "args_ok A" and G: "group_ok J g h V"
  shows "\<exists>h1 t1 grp h2 gs us h3 V3. reduce_tree J A (g_root g) h (g_ht g) = Some (h1, t1) \<and>
    greedy_grouping A (g_root g) reset_merging_stats h1 = Some (Some grp, reset_merging_stats, h2) \<and>
    txg_serves h2 (gg_max A) grp gs us \<and> rec_reset_tree (g_root g) (g_root g) h2 = Some h3 \<and>
    ldata h2 = ldata h \<and> ldata h3 = ldata h \<and>
    (\<forall>v. group_ok J (g\<lparr>g_ht := t1, g_txg := v\<rparr>) h3 V3) \<and> flat h3 V3 (g_root g)"
proof -
  obtain h1 t1 V1 grp h2 gs us where 1: "reduce_tree J A (g_root g) h (g_ht g) = Some (h1, t1)"
      "greedy_grouping A (g_root g) reset_merging_stats h1 = Some (Some grp, reset_merging_stats, h2)"
      "txg_serves h2 (gg_max A) grp gs us" "same_tree h1 V1 h2" "disc_inv True J h1 V1 (g_root g) t1"
      "ldata h1 = ldata h"
    using grouped_phase [OF J A G] by metis
  obtain h3 V3 where "rec_reset_tree (g_root g) (g_root g) h2 = Some h3" "ldata h3 = ldata h"
      "\<forall>v. group_ok J (g\<lparr>g_ht := t1, g_txg := v\<rparr>) h3 V3" "flat h3 V3 (g_root g)"
    using reset_phase [OF G 1(5,6,4)] by metis
  moreover have "ldata h2 = ldata h" using st_ldata [OF 1(4)] 1(6) by simp
  ultimately show ?thesis using 1 by metis
qed


text \<open>
  The end of a discovery phase: the thread has a new transmission group, which serves every
  receiver; the tree is flat again and the interval timer is armed. The group is stated over the
  memory at the moment of its publication.
\<close>

lemma tout_handler_ok:
  assumes J: "judy_hs J" and A: "args_ok A" and c: "conf_ok c" and I: "dx_ok J c st" and rd: "1 \<le> rd"
  shows "\<exists>st' grp h gs us. tout_handler J A rd c st = Some (0, st') \<and> dx_ok J c st' \<and>
    get_txg (dx_g st') = Some grp \<and> txg_serves h (gg_max A) grp gs us \<and>
    ldata h = ldata (dx_h st) \<and> ldata (dx_h st') = ldata (dx_h st) \<and>
    (\<exists>V. topo_ok (dx_h st') V (g_root (dx_g st)) \<and> flat (dx_h st') V (g_root (dx_g st))) \<and>
    g_root (dx_g st') = g_root (dx_g st) \<and> dx_n st' = 0 \<and> armed (dx_tm st') (tint_fd c)"
proof -
  let ?g = "dx_g st"
  obtain V where G: "group_ok J ?g (dx_h st) V" and ms: "dx_ms st = reset_merging_stats"
      and tm: "timers_ok c (dx_tm st)"
    using I by (auto simp: dx_ok_def)
  obtain h1 t1 grp h2 gs us h3 V3 where E: "reduce_tree J A (g_root ?g) (dx_h st) (g_ht ?g) = Some (h1, t1)"
      "greedy_grouping A (g_root ?g) reset_merging_stats h1 = Some (Some grp, reset_merging_stats, h2)"
      "txg_serves h2 (gg_max A) grp gs us" "rec_reset_tree (g_root ?g) (g_root ?g) h2 = Some h3"
      "ldata h2 = ldata (dx_h st)" "ldata h3 = ldata (dx_h st)"
      "\<And>v. group_ok J (?g\<lparr>g_ht := t1, g_txg := v\<rparr>) h3 V3" "flat h3 V3 (g_root ?g)"
    using end_of_phase [OF J A G] by blast
  have T3: "topo_ok h3 V3 (g_root ?g)" using E(7) [of None] by (simp add: group_ok_def)
  obtain tm' where tm': "flip_timers (tout_fd c) (tint_fd c) (tint_ts c) (dx_tm st) = (0, tm')"
      "timers_ok c tm'" "armed tm' (tint_fd c)"
    using flip_to_tint [OF c tm] by blast
  let ?st = "st\<lparr>dx_n := 0, dx_h := h3, dx_g := ?g\<lparr>g_ht := t1, g_txg := Some grp\<rparr>, dx_tm := tm'\<rparr>"
  have "tout_handler J A rd c st = Some (0, ?st)"
    using rd E(1,2,4) tm'(1) ms by (simp add: tout_handler_def Let_def set_txg_def)
  moreover have "dx_ok J c ?st" using E(7) tm'(2) ms unfolding dx_ok_def by auto
  ultimately show ?thesis
    using E(3,5,6,8) T3 tm'(3) by (intro exI [of _ ?st] exI [of _ grp] exI [of _ h2]) (auto simp: get_txg_def)
qed

text \<open>A failed \<open>read\<close> changes nothing but the counter.\<close>

lemma tout_handler_read_fails: "rd < 1 \<Longrightarrow> tout_handler J A rd c st = Some (- 1, st\<lparr>dx_n := 0\<rparr>)"
  by (simp add: tout_handler_def)


section \<open>The other events\<close>

lemma tint_handler_ok:
  assumes c: "conf_ok c" and I: "dx_ok J c st" and rd: "1 \<le> rd" and b: "mdc_addr txbuf \<noteq> []"
  shows "\<exists>ls tm'. distinct ls \<and> set ls = dom (leafs (dx_h st)) \<and>
    tint_handler rd res txbuf c st = Some (0,
      map (dcvr_packet_of (dx_h st) (fst (set_dcvr_hdr txbuf)) 32) (take (fst (sends res 0 (length ls))) ls),
      st\<lparr>dx_tm := tm'\<rparr>) \<and>
    dx_ok J c (st\<lparr>dx_tm := tm'\<rparr>) \<and> armed tm' (tout_fd c)"
proof -
  obtain V where G: "group_ok J (dx_g st) (dx_h st) V" and tm: "timers_ok c (dx_tm st)"
    using I by (auto simp: dx_ok_def)
  obtain tm' where tm': "flip_timers (tint_fd c) (tout_fd c) (tout_ts c) (dx_tm st) = (0, tm')"
      "timers_ok c tm'" "armed tm' (tout_fd c)"
    using flip_to_tout [OF c tm] by blast
  obtain ls where "distinct ls" "set ls = dom (leafs (dx_h st))"
    "send_dcvr res txbuf (dx_g st) (dx_h st) = Some (snd (sends res 0 (length ls)),
      map (dcvr_packet_of (dx_h st) (fst (set_dcvr_hdr txbuf)) 32) (take (fst (sends res 0 (length ls))) ls))"
    using send_dcvr_ok [OF G b] by blast
  moreover have "dx_ok J c (st\<lparr>dx_tm := tm'\<rparr>)" using I tm'(2) by (simp add: dx_ok_def)
  ultimately show ?thesis
    using rd tm' by (intro exI [of _ ls] exI [of _ tm']) (simp add: tint_handler_def)
qed

text \<open>
  A datagram the theorems speak about: a response comes from an address that is unknown, or a
  receiver's, or that of a router outside the tree or at the distance it answers with.
\<close>

definition response_ok :: "'t judy \<Rightarrow> dgram \<Rightarrow> 't dx \<Rightarrow> bool" where
  "response_ok J d st \<longleftrightarrow> - 1 \<le> dg_ret d \<and> dg_ret d < 2 ^ 63 \<and>
     (rsp_wellformed d \<longrightarrow> mdc_addr (dg_hdr d) \<noteq> [] \<and>
       (\<forall>r. jhsg J (g_ht (dx_g st)) (sin6_addr (dg_src d)) = Some r \<longrightarrow> r \<noteq> g_root (dx_g st) \<and>
         (routers (dx_h st) r \<noteq> None \<and> par (dx_h st) r \<noteq> NULL \<longrightarrow>
           hops_at (dx_h st) r = unat (ucast (hdr_hops (dg_hdr d)) :: uint8))))"

lemma update_topo_group:
  assumes J: "judy_hs J" and G: "group_ok J g h V"
    and C: "\<And>r. jhsg J (g_ht g) (sin6_addr rsa) = Some r \<Longrightarrow> r \<noteq> g_root g \<and>
      (routers h r \<noteq> None \<and> par h r \<noteq> NULL \<longrightarrow> hops_at h r = unat hops)"
  shows "\<exists>e n' h' t' V'. update_topo J rsa a hops n h (g_ht g) = Some (e, n', h', t') \<and>
    group_ok J (g\<lparr>g_ht := t'\<rparr>) h' V' \<and> ldata h' = ldata h"
proof -
  have T: "topo_ok h V (g_root g)" and H: "hops_mono h V (g_root g)" and D: "table_ok J (g_ht g) h"
    using G by (auto simp: group_ok_def)
  let ?t = "g_ht g"
  let ?bad = "jhsg J ?t a = None \<or> (\<exists>v. jhsg J ?t a = Some v \<and> leafs h v = None) \<or>
      jhsi J ?t (sin6_addr rsa) = None \<or> (\<exists>v. jhsg J ?t (sin6_addr rsa) = Some v \<and> leafs h v \<noteq> None)"
  show ?thesis
  proof (cases ?bad)
    case True
    obtain t' where "update_topo J rsa a hops n h ?t = Some (- 1, n, h, t')" "jhsg J t' = jhsg J ?t"
      using update_topo_refuses [OF J repr_node_ok [OF topo_repr [OF T]] D True] by blast
    moreover have "table_ok J t' h" using table_ok_cong [OF D calculation(2) refl] .
    ultimately show ?thesis
      using group_okI [OF G, of "g\<lparr>g_ht := t'\<rparr>" h V] T H by auto
  next
    case False
    then obtain l t1 where l: "jhsg J ?t a = Some l" "leafs h l \<noteq> None" and t1: "jhsi J ?t (sin6_addr rsa) = Some t1"
      and notleaf: "\<And>v. jhsg J ?t (sin6_addr rsa) = Some v \<Longrightarrow> leafs h v = None"
      by (cases "jhsg J ?t a"; cases "jhsi J ?t (sin6_addr rsa)") auto
    have "rsp_consistent J ?t h (g_root g) (sin6_addr rsa) (unat hops)"
    proof (cases "jhsg J ?t (sin6_addr rsa)")
      case (Some r)
      have "routers h r \<noteq> None" using table_node [OF D Some] notleaf [OF Some] by simp
      with Some C [OF Some] show ?thesis by (simp add: rsp_consistent_def)
    qed (simp add: rsp_consistent_def)
    from update_topo_learns [OF J T H D l t1 this, of n] obtain n' h' t' V' r where
      "update_topo J rsa a hops n h ?t = Some (0, n', h', t')"
      "learnt J h h' t' V' (g_root g) (sin6_addr rsa) (unat hops) r l" by blast
    then show ?thesis
      using group_okI [OF G, of "g\<lparr>g_ht := t'\<rparr>" h' V'] by (auto simp: learnt_def)
  qed
qed

lemma response_event_ok:
  assumes J: "judy_hs J" and I: "dx_ok J c st" and r: "response_ok J d st"
  shows "\<exists>st'. dx_event J A txbuf c (Response d) st = Some ([], st') \<and> dx_ok J c st' \<and>
    ldata (dx_h st') = ldata (dx_h st) \<and> g_txg (dx_g st') = g_txg (dx_g st)"
proof (cases "rsp_wellformed d")
  case False
  then obtain e where "rx_dcvr J d (dx_n st) (dx_h st) (g_ht (dx_g st)) =
      Some (e, dx_n st, dx_h st, g_ht (dx_g st))"
    using rx_dcvr_malformed r by (metis response_ok_def)
  then show ?thesis using I by (simp add: dx_event_def)
next
  case True
  then obtain a as where a: "mdc_addr (dg_hdr d) = a # as"
    using r by (cases "mdc_addr (dg_hdr d)") (auto simp: response_ok_def)
  obtain V where G: "group_ok J (dx_g st) (dx_h st) V" using I by (auto simp: dx_ok_def)
  obtain e n' h' t' V' where u: "update_topo J (dg_src d) a (ucast (hdr_hops (dg_hdr d))) (dx_n st)
        (dx_h st) (g_ht (dx_g st)) = Some (e, n', h', t')"
      "group_ok J ((dx_g st)\<lparr>g_ht := t'\<rparr>) h' V'" "ldata h' = ldata (dx_h st)"
    using update_topo_group [OF J G, of "dg_src d"] r True unfolding response_ok_def by blast
  have "rx_dcvr J d (dx_n st) (dx_h st) (g_ht (dx_g st)) = Some (0, n', h', t')"
    by (rule rx_dcvr_wellformed [OF True a u(1)])
  then show ?thesis using u(2,3) I by (auto simp: dx_event_def dx_ok_def)
qed


section \<open>The event loop\<close>

fun event_ok :: "'t judy \<Rightarrow> event \<Rightarrow> 't dx \<Rightarrow> bool" where
  "event_ok J (Response d) st = response_ok J d st"
| "event_ok J (Timeout rd) st = True"
| "event_ok J (Interval rd res) st = True"

lemma dx_event_ok:
  assumes J: "judy_hs J" and A: "args_ok A" and c: "conf_ok c" and b: "mdc_addr txbuf \<noteq> []"
    and I: "dx_ok J c st" and e: "event_ok J e st"
  shows "\<exists>out st'. dx_event J A txbuf c e st = Some (out, st') \<and> dx_ok J c st' \<and>
    ldata (dx_h st') = ldata (dx_h st)"
proof (cases e)
  case (Response d)
  then show ?thesis using response_event_ok [OF J I, of d A txbuf] e by auto
next
  case (Timeout rd)
  show ?thesis
  proof (cases "rd < 1")
    case True
    then show ?thesis using I Timeout tout_handler_read_fails [OF True, of J A c st]
      by (simp add: dx_event_def dx_ok_def)
  next
    case False
    then show ?thesis using tout_handler_ok [OF J A c I, of rd] Timeout by (auto simp: dx_event_def)
  qed
next
  case (Interval rd res)
  show ?thesis
  proof (cases "rd < 1")
    case True
    then show ?thesis using I Interval by (simp add: dx_event_def tint_handler_def)
  next
    case False
    then obtain out tm' where "tint_handler rd res txbuf c st = Some (0, out, st\<lparr>dx_tm := tm'\<rparr>)"
        "dx_ok J c (st\<lparr>dx_tm := tm'\<rparr>)"
      using tint_handler_ok [OF c I _ b, of rd res] by auto
    then show ?thesis using Interval by (simp add: dx_event_def)
  qed
qed

text \<open>The events of a run, each judged in the state it meets.\<close>

fun events_ok :: "'t judy \<Rightarrow> arguments \<Rightarrow> ip6_mdc_hdr \<Rightarrow> dx_conf \<Rightarrow> event list \<Rightarrow> 't dx \<Rightarrow> bool" where
  "events_ok J A txbuf c [] st = True"
| "events_ok J A txbuf c (e # es) st \<longleftrightarrow> event_ok J e st \<and>
     (case dx_event J A txbuf c e st of None \<Rightarrow> True | Some (_, st') \<Rightarrow> events_ok J A txbuf c es st')"

lemma dx_loop_ok:
  assumes J: "judy_hs J" and A: "args_ok A" and c: "conf_ok c" and b: "mdc_addr txbuf \<noteq> []"
  shows "dx_ok J c st \<Longrightarrow> events_ok J A txbuf c es st \<Longrightarrow>
    \<exists>out st'. dx_loop J A txbuf c es st = Some (out, st') \<and> dx_ok J c st' \<and>
      ldata (dx_h st') = ldata (dx_h st)"
proof (induction es arbitrary: st)
  case (Cons e es)
  obtain out st1 where 1: "dx_event J A txbuf c e st = Some (out, st1)" "dx_ok J c st1"
      "ldata (dx_h st1) = ldata (dx_h st)"
    using dx_event_ok [OF J A c b Cons.prems(1), of e] Cons.prems(2) by auto
  moreover have "events_ok J A txbuf c es st1" using Cons.prems(2) 1(1) by simp
  ultimately show ?case using Cons.IH by (fastforce simp: 1(1))
qed simp

end
