(* ===== verification/Delivery.thy ===== *)
theory Delivery
  imports DiscoverProof
begin

text \<open>
  The whole way of a packet: what the grouping publishes is what \<open>tx\<close> can send, and what is sent
  reaches every receiver once.
\<close>


section \<open>The headers of a group can be sent\<close>

lemma entries_two: "g \<noteq> [] \<Longrightarrow> \<forall>s \<in> set g. snd s \<noteq> [] \<Longrightarrow> 2 \<le> length (entries h g)"
  by (cases g) (auto simp: neq_Nil_conv Suc_le_eq)

lemma hdr_ok_sendable:
  assumes "hdr_ok h (gg_max A) d g"
  shows "mdc_sendable (tx_room (init_tx (max_addrs A) mtu)) d"
proof -
  have "length (entries h g) \<le> max_addrs A" using assms by (auto simp: hdr_ok_def gg_max_def split: if_splits)
  then show ?thesis
    using assms entries_two [of g h]
    by (simp add: hdr_ok_def mdc_sendable_def tx_room_def init_tx_def get_mdc_hdr_size_eq Let_def)
qed

text \<open>
  The header goes in front of the payload without touching the first 44 bytes of the buffer, where
  the discovery thread writes its request of 32 bytes.
\<close>

lemma sendable_apart:
  assumes "hdr_ok h (gg_max A) d g"
  shows "get_mdc_hdr_size 1 + 12 \<le>
    tx_room (init_tx (max_addrs A) mtu) - get_mdc_hdr_size (length (mdc_addr d))"
proof -
  have "length (mdc_addr d) \<le> max_addrs A" using assms by (auto simp: hdr_ok_def gg_max_def split: if_splits)
  then show ?thesis
    by (simp add: tx_room_def init_tx_def Let_def get_mdc_hdr_size_eq sizeof_tun_pi_def sizeof_ipv6hdr_def)
qed


section \<open>The receivers reached\<close>

text \<open>The receivers that the routers deliver a MEADcast packet to, as the header names them.\<close>

definition mdc_receivers :: "mdc_packet \<Rightarrow> in6_addr list" where
  "mdc_receivers p = concat (map snd (hdr_groups (mp_hdr p)))"

lemma hdr_ok_receivers:
  "hdr_ok h mx d g \<Longrightarrow> mx \<le> 32 \<Longrightarrow> concat (map snd (hdr_groups d)) = map (laddr h) (seg_leafs g)"
  by (simp add: hdr_groups_ok seg_leafs_def map_concat o_def split_beta)

lemma seg_leafs_concat: "seg_leafs (concat gs) = concat (map seg_leafs gs)"
  by (induction gs) auto

lemma txg_serves_hdrs:
  assumes "txg_serves h mx grp gs us"
  obtains xs ds where "chain (cells h) (txg_mdc grp) xs"
    "list_all2 (\<lambda>x d. hdrs h (snd x) = Some d) xs ds" "list_all2 (\<lambda>d g. hdr_ok h mx d g) ds gs"
proof -
  obtain xs where xs: "chain (cells h) (txg_mdc grp) xs"
    "list_all2 (\<lambda>x g. \<exists>d. hdrs h (snd x) = Some d \<and> hdr_ok h mx d g \<and> \<not> is_node h (snd x)) xs gs"
    using assms by (auto simp: txg_serves_def)
  have "\<exists>ds. list_all2 (\<lambda>x d. hdrs h (snd x) = Some d) xs ds \<and> list_all2 (\<lambda>d g. hdr_ok h mx d g) ds gs"
    using xs(2)
  proof (induction xs gs rule: list_all2_induct)
    case (Cons x xs g gs)
    then obtain d ds where "hdrs h (snd x) = Some d" "hdr_ok h mx d g"
      "list_all2 (\<lambda>x d. hdrs h (snd x) = Some d) xs ds" "list_all2 (\<lambda>d g. hdr_ok h mx d g) ds gs" by blast
    then show ?case by (intro exI [of _ "d # ds"]) simp
  qed simp
  then show thesis using xs(1) that by blast
qed

text \<open>
  If no call of \<open>sendto\<close> fails, the packets that \<open>tx\<close> sends reach the receivers \<open>seg_leafs (concat gs)\<close>
  through MEADcast and \<open>us\<close> through unicast; those are all receivers, each once.
\<close>

lemma tx_delivers_hdrs:
  assumes S: "txg_serves h (gg_max A) grp gs us" and g: "get_txg g = Some grp"
    and fd: "1 \<le> ip6_fd" "1 \<le> mdc_fd"
    and ip: "ip_nexthdr ip = IPPROTO_UDP" and pl: "udp_len_ok pl plen"
    and res: "\<And>i. 1 \<le> ures i" "\<And>i. 1 \<le> mres i"
  shows "\<exists>ups mps. tx ures mres (init_tx (max_addrs A) mtu) bia ip6_fd mdc_fd g h (44 + plen) ip pl =
      Some (ups, mps) \<and>
    list_all2 (uni_packet_ok ip pl plen) (rcvr_addrs h us) ups \<and>
    (\<forall>p \<in> set mps. udp_like (take plen pl) (mp_payload p) \<and> udp_checks bia (mp_dst p) (mp_payload p) \<and>
      (\<exists>g. hdr_ok h (gg_max A) (mp_hdr p) g)) \<and>
    concat (map mdc_receivers mps) @ map up_dst ups = map (laddr h) (seg_leafs (concat gs) @ us)"
proof -
  obtain xs ds where xs: "chain (cells h) (txg_mdc grp) xs"
    "list_all2 (\<lambda>x d. hdrs h (snd x) = Some d) xs ds" "list_all2 (\<lambda>d g. hdr_ok h (gg_max A) d g) ds gs"
    using txg_serves_hdrs [OF S] by blast
  let ?room = "tx_room (init_tx (max_addrs A) mtu)"
  have "\<forall>d \<in> set ds. mdc_sendable ?room d"
    using xs(3) hdr_ok_sendable by (fastforce simp: list_all2_conv_all_nth in_set_conv_nth)
  then have send: "list_all2 (\<lambda>x d. hdrs h (snd x) = Some d \<and> mdc_sendable ?room d) xs ds"
    using xs(2) by (auto simp: list_all2_conv_all_nth)
  let ?us = "rcvr_addrs h us"
  have uni: "txg_uni grp = ?us" "txg_nuni grp = length ?us"
    using S by (simp_all add: txg_serves_def rcvr_addrs_def)
  have all: "sends ures 0 n = (n, 0)" "sends mres 0 n = (n, 0)" for n
    using sends_all [of 0 n ures] sends_all [of 0 n mres] res by simp_all
  obtain ups pl' where u: "tx_uni ures ip6_fd (Some grp) ip pl (40 + plen) = Some (0, ups, pl')"
      "udp_like pl pl'" "list_all2 (uni_packet_ok ip pl plen) ?us ups"
    using tx_uni_ok [OF fd(1) uni, of ip pl plen ures] ip pl by (auto simp: all)
  obtain mps pl'' where m: "tx_mdc mres ?room bia mdc_fd (Some grp) pl' plen h = Some (0, mps, pl'')"
      "list_all2 (mdc_packet_ok bia pl' plen) ds mps"
    using tx_mdc_ok [OF fd(2) xs(1) send udp_like_ok [OF u(2) pl], of mres bia] by (auto simp: all)
  have run: "tx ures mres (init_tx (max_addrs A) mtu) bia ip6_fd mdc_fd g h (44 + plen) ip pl = Some (ups, mps)"
    using u(1) m(1) g by (simp add: tx_def sizeof_tun_pi_def sizeof_ipv6hdr_def)
  have "udp_like (take plen pl) (mp_payload p) \<and> udp_checks bia (mp_dst p) (mp_payload p) \<and>
      (\<exists>g. hdr_ok h (gg_max A) (mp_hdr p) g)" if p: "p \<in> set mps" for p
  proof -
    obtain d where d: "d \<in> set ds" "mdc_packet_ok bia pl' plen d p"
      using list_all2_in_right [OF m(2) p] by blast
    obtain g where "hdr_ok h (gg_max A) d g" using list_all2_in_left [OF xs(3) d(1)] by blast
    then show ?thesis
      using d(2) udp_like_trans [OF udp_like_take [OF u(2)]] by (auto simp: mdc_packet_ok_def)
  qed
  moreover have "map mp_hdr mps = ds"
    using m(2) by (auto simp: list_all2_conv_all_nth mdc_packet_ok_def intro: nth_equalityI)
  then have "concat (map mdc_receivers mps) = concat (map (\<lambda>d. concat (map snd (hdr_groups d))) ds)"
    by (auto simp: mdc_receivers_def [abs_def] comp_def)
  moreover have "map (\<lambda>d. concat (map snd (hdr_groups d))) ds = map (\<lambda>g. map (laddr h) (seg_leafs g)) gs"
    using xs(3) hdr_ok_receivers [of h "gg_max A"]
    by (intro nth_equalityI) (auto simp: list_all2_conv_all_nth gg_max_def BITMAP_LIMIT_def)
  moreover have "map up_dst ups = map (\<lambda>a. sin6_addr (addr_sa a)) ?us"
    using u(3) by (intro nth_equalityI) (auto simp: list_all2_conv_all_nth uni_packet_ok_def)
  moreover have "map (\<lambda>a. sin6_addr (addr_sa a)) ?us = map (laddr h) us"
  proof -
    have "ldata h l \<noteq> None" if "l \<in> set us" for l
      using S that ldata_None [of h l] by (auto simp: txg_serves_def)
    then show ?thesis by (force simp: rcvr_addrs_def laddr_def)
  qed
  ultimately show ?thesis
    using run u(3) by (intro exI [of _ ups] exI [of _ mps])
      (simp add: seg_leafs_concat map_concat comp_def)
qed

lemma tx_delivers:
  assumes "txg_serves h (gg_max A) grp gs us" "get_txg g = Some grp" "1 \<le> ip6_fd" "1 \<le> mdc_fd"
    and "ip_nexthdr ip = IPPROTO_UDP" "udp_len_ok pl plen" "\<And>i. 1 \<le> ures i" "\<And>i. 1 \<le> mres i"
  shows "\<exists>ups mps. tx ures mres (init_tx (max_addrs A) mtu) bia ip6_fd mdc_fd g h (44 + plen) ip pl =
      Some (ups, mps) \<and>
    list_all2 (uni_packet_ok ip pl plen) (rcvr_addrs h us) ups \<and>
    (\<forall>p \<in> set mps. udp_like (take plen pl) (mp_payload p) \<and> udp_checks bia (mp_dst p) (mp_payload p)) \<and>
    concat (map mdc_receivers mps) @ map up_dst ups = map (laddr h) (seg_leafs (concat gs) @ us)"
  using tx_delivers_hdrs [OF assms(1-6), of ures mres mtu bia] assms(7,8) by blast

end
