(* ===== verification/Frame.thy ===== *)
theory Frame
  imports Delivery
begin

text \<open>
  The frame of the discovery thread: what its operations do not touch. Adding list cells and headers
  to the memory that an operation does not own changes neither its result nor its effect, as long as
  it is defined without them, and leaves them where they are. This is proved for every operation of the
  thread, by the parametricity of its definition in the memory.
\<close>



section \<open>Memory with something added\<close>

type_synonym extra = "(ptr \<Rightarrow> child option) \<times> (ptr \<Rightarrow> ip6_mdc_hdr option)"

definition grow :: "extra \<Rightarrow> heap \<Rightarrow> heap" where
  "grow E h = h\<lparr>cells := cells h ++ fst E, hdrs := hdrs h ++ snd E\<rparr>"

definition apart :: "extra \<Rightarrow> heap \<Rightarrow> bool" where
  "apart E h \<longleftrightarrow>
     (\<forall>x. fst E x \<noteq> None \<longrightarrow> cells h x = None \<and> x < brk h) \<and>
     (\<forall>x. snd E x \<noteq> None \<longrightarrow> hdrs h x = None \<and> x < brk h)"

definition gr :: "extra \<Rightarrow> heap \<Rightarrow> heap \<Rightarrow> bool" where
  "gr E h k \<longleftrightarrow> k = grow E h \<and> apart E h"

text \<open>If the first result is defined, the second is, and they are related.\<close>

definition ext :: "('a \<Rightarrow> 'b \<Rightarrow> bool) \<Rightarrow> 'a option \<Rightarrow> 'b option \<Rightarrow> bool" where
  "ext R x y \<longleftrightarrow> (\<forall>a. x = Some a \<longrightarrow> (\<exists>b. y = Some b \<and> R a b))"

lemma extD: "x = Some a \<Longrightarrow> ext R x y \<Longrightarrow> \<exists>b. y = Some b \<and> R a b"
  by (simp add: ext_def)

lemma extI: "(\<And>a. x = Some a \<Longrightarrow> \<exists>b. y = Some b \<and> R a b) \<Longrightarrow> ext R x y"
  by (simp add: ext_def)

text \<open>
  The relation of a function with \<open>n\<close> arguments and a state, related by \<open>S\<close>, as its last argument, and
  of one with a table behind the state: equal arguments and related states give related results.
\<close>

abbreviation "keeps0 S R \<equiv> rel_fun S (ext R)"
abbreviation "keeps1 S R \<equiv> rel_fun (=) (keeps0 S R)"
abbreviation "keeps2 S R \<equiv> rel_fun (=) (keeps1 S R)"
abbreviation "keeps3 S R \<equiv> rel_fun (=) (keeps2 S R)"
abbreviation "keeps4 S R \<equiv> rel_fun (=) (keeps3 S R)"
abbreviation "keeps5 S R \<equiv> rel_fun (=) (keeps4 S R)"
abbreviation "keeps6 S R \<equiv> rel_fun (=) (keeps5 S R)"
abbreviation "keeps7 S R \<equiv> rel_fun (=) (keeps6 S R)"
abbreviation "keepst2 S R \<equiv> rel_fun (=) (rel_fun (=) (rel_fun S (rel_fun (=) (ext R))))"
abbreviation "keepst3 S R \<equiv> rel_fun (=) (keepst2 S R)"
abbreviation "keepst5 S R \<equiv> rel_fun (=) (rel_fun (=) (keepst3 S R))"

lemma ext1:
  "(\<And>x h r k. f x h = Some r \<Longrightarrow> gr E h k \<Longrightarrow> \<exists>z. g x k = Some z \<and> R r z) \<Longrightarrow>
   keeps1 (gr E) R f g"
  by (simp add: rel_fun_def ext_def)

lemma ext2:
  "(\<And>x y h r k. f x y h = Some r \<Longrightarrow> gr E h k \<Longrightarrow> \<exists>z. g x y k = Some z \<and> R r z) \<Longrightarrow>
   keeps2 (gr E) R f g"
  by (simp add: rel_fun_def ext_def)

lemma ext3:
  "(\<And>x y u h r k. f x y u h = Some r \<Longrightarrow> gr E h k \<Longrightarrow> \<exists>z. g x y u k = Some z \<and> R r z) \<Longrightarrow>
   keeps3 (gr E) R f g"
  by (simp add: rel_fun_def ext_def)

lemma ext4:
  "(\<And>x y u v h r k. f x y u v h = Some r \<Longrightarrow> gr E h k \<Longrightarrow> \<exists>z. g x y u v k = Some z \<and> R r z) \<Longrightarrow>
   keeps4 (gr E) R f g"
  by (simp add: rel_fun_def ext_def)

lemma grI:
  assumes "cells k = cells h ++ fst E" and "hdrs k = hdrs h ++ snd E" and "leafs k = leafs h"
    and "routers k = routers h" and "brk k = brk h" and "apart E h"
  shows "gr E h k"
  unfolding gr_def grow_def using assms by (intro conjI heap.equality) simp_all

lemma grD:
  assumes "gr E h k"
  shows "cells k = cells h ++ fst E" "hdrs k = hdrs h ++ snd E" "leafs k = leafs h"
    "routers k = routers h" "brk k = brk h" "apart E h"
  using assms by (simp_all add: gr_def grow_def)

lemma ext6:
  "(\<And>x1 x2 x3 x4 x5 x6 h r k. f x1 x2 x3 x4 x5 x6 h = Some r \<Longrightarrow> gr E h k \<Longrightarrow>
     \<exists>z. g x1 x2 x3 x4 x5 x6 k = Some z \<and> R r z) \<Longrightarrow>
   keeps6 (gr E) R f g"
  by (simp add: rel_fun_def ext_def)

lemma ext5m:
  "(\<And>x y u h v r k. f x y u h v = Some r \<Longrightarrow> gr E h k \<Longrightarrow> \<exists>z. g x y u k v = Some z \<and> R r z) \<Longrightarrow>
   keepst3 (gr E) R f g"
  by (simp add: rel_fun_def ext_def)

text \<open>Updates of the other parts of the memory.\<close>

lemma gr_upd:
  assumes "gr E h k"
  shows "gr E (h\<lparr>routers := m\<rparr>) (k\<lparr>routers := m\<rparr>)" "gr E (h\<lparr>leafs := l\<rparr>) (k\<lparr>leafs := l\<rparr>)"
    "gr E (h\<lparr>routers := m, brk := Suc (brk h)\<rparr>) (k\<lparr>routers := m, brk := Suc (brk h)\<rparr>)"
    "gr E (h\<lparr>leafs := l, brk := Suc (brk h)\<rparr>) (k\<lparr>leafs := l, brk := Suc (brk h)\<rparr>)"
  using assms by (auto simp: gr_def grow_def apart_def intro: less_SucI)

lemma gr_cell: "gr E h k \<Longrightarrow> cells h x = Some c \<Longrightarrow> cells k x = Some c"
  using grD(1,6) [of E h k] by (force simp: apart_def map_add_def split: option.splits)

lemma gr_hdr: "gr E h k \<Longrightarrow> hdrs h x = Some c \<Longrightarrow> hdrs k x = Some c"
  using grD(2,6) [of E h k] by (force simp: apart_def map_add_def split: option.splits)

lemma apart_fresh: "apart E h \<Longrightarrow> fst E (brk h) = None \<and> snd E (brk h) = None"
  by (force simp: apart_def)


section \<open>The primitive operations\<close>

declare option.ctr_transfer [transfer_rule del] option_bind_transfer [transfer_rule del]

lemma Some_ext [transfer_rule]: "(rel_fun R (ext R)) Some Some"
  by (simp add: rel_fun_def ext_def)

lemma None_ext [transfer_rule]: "ext R None None"
  by (simp add: ext_def)

lemma bind_ext [transfer_rule]: "(rel_fun (ext R) (rel_fun (rel_fun R (ext S)) (ext S))) Option.bind Option.bind"
  by (fastforce simp: rel_fun_def ext_def bind_eq_Some)

lemma guard_ext [transfer_rule]: "(rel_fun (=) (ext (=))) guard guard"
  by (simp add: rel_fun_def ext_def)

lemma option_ext [transfer_rule]: "(rel_fun (=) (ext (=))) (\<lambda>x. x) (\<lambda>x. x)"
  by (simp add: rel_fun_def ext_def)

lemma cells_ext [transfer_rule]: "(rel_fun (gr E) (rel_fun (=) (ext (=)))) cells cells"
  by (auto simp: rel_fun_def ext_def dest: gr_cell)

lemma hdrs_ext [transfer_rule]: "(rel_fun (gr E) (rel_fun (=) (ext (=)))) hdrs hdrs"
  by (auto simp: rel_fun_def ext_def dest: gr_hdr)

lemma routers_ext [transfer_rule]: "(rel_fun (gr E) (rel_fun (=) (ext (=)))) routers routers"
  by (auto simp: rel_fun_def ext_def grD)

lemma leafs_ext [transfer_rule]: "(rel_fun (gr E) (rel_fun (=) (ext (=)))) leafs leafs"
  by (auto simp: rel_fun_def ext_def grD)

lemma get_node_ext [transfer_rule]: "keeps1 (gr E) (=) get_node get_node"
  by (auto simp: rel_fun_def ext_def get_node_def grD(3,4) split: option.splits)

lemma upd_router_ext [transfer_rule]: "keeps2 (gr E) (gr E) upd_router upd_router"
  by (auto simp: rel_fun_def ext_def upd_router_def bind_eq_Some grD(3,4) gr_upd)

lemma upd_leaf_ext [transfer_rule]: "keeps2 (gr E) (gr E) upd_leaf upd_leaf"
  by (auto simp: rel_fun_def ext_def upd_leaf_def bind_eq_Some grD(3,4) gr_upd)

lemma set_node_parent_ext [transfer_rule]:
  "keeps2 (gr E) (gr E) set_node_parent set_node_parent"
  by (auto simp: rel_fun_def ext_def set_node_parent_def grD(3,4) gr_upd split: option.splits)

lemma map_add_upd_left: "M x = None \<Longrightarrow> (m(x := v)) ++ M = (m ++ M)(x := v)"
  by (auto simp: map_add_def fun_eq_iff split: option.splits)

lemma upd_cell_ext [transfer_rule]: "keeps2 (gr E) (gr E) upd_cell upd_cell"
proof (intro rel_funI extI, clarify)
  fix c :: ptr and f h k h'
  assume g: "gr E h k" and u: "upd_cell c f h = Some h'"
  then obtain ce where ce: "cells h c = Some ce" "h' = h\<lparr>cells := (cells h)(c \<mapsto> f ce)\<rparr>"
    by (auto simp: upd_cell_def bind_eq_Some)
  then have "fst E c = None" using grD(6) [OF g] by (auto simp: apart_def)
  then have "gr E h' (k\<lparr>cells := (cells k)(c \<mapsto> f ce)\<rparr>)"
    using grD [OF g] ce by (intro grI) (auto simp: map_add_upd_left apart_def)
  moreover have "upd_cell c f k = Some (k\<lparr>cells := (cells k)(c \<mapsto> f ce)\<rparr>)"
    using gr_cell [OF g ce(1)] by (simp add: upd_cell_def)
  ultimately show "\<exists>b. upd_cell c f k = Some b \<and> gr E h' b" by blast
qed

lemma free_cell_ext [transfer_rule]: "keeps1 (gr E) (gr E) free_cell free_cell"
proof (intro rel_funI extI, clarify)
  fix c :: ptr and h k h'
  assume g: "gr E h k" and u: "free_cell c h = Some h'"
  show "\<exists>b. free_cell c k = Some b \<and> gr E h' b"
  proof (cases "c = NULL")
    case False
    then obtain ce where ce: "cells h c = Some ce" "h' = del_cell c h"
      using u by (auto simp: free_cell_def bind_eq_Some)
    then have "fst E c = None" using grD(6) [OF g] by (auto simp: apart_def)
    then have "gr E h' (del_cell c k)"
      using grD [OF g] ce by (intro grI) (auto simp: map_add_upd_left apart_def del_cell_def)
    then show ?thesis using False gr_cell [OF g ce(1)] by (auto simp: free_cell_def)
  qed (use u g in \<open>simp add: free_cell_def\<close>)
qed

lemma free_leaf_ext [transfer_rule]: "keeps1 (gr E) (gr E) free_leaf free_leaf"
  by (auto simp: rel_fun_def ext_def free_leaf_def bind_eq_Some grD(3,4) gr_upd split: if_splits)

lemma free_router_obj_ext [transfer_rule]: "keeps1 (gr E) (gr E) free_router_obj free_router_obj"
  by (auto simp: rel_fun_def ext_def free_router_obj_def del_router_def bind_eq_Some grD(3,4) gr_upd split: if_splits)

lemma new_leaf_ext [transfer_rule]: "(rel_fun (=) (rel_fun (gr E) (rel_prod (=) (gr E)))) new_leaf new_leaf"
  by (auto simp: rel_fun_def new_leaf_def grD(3-5) gr_upd)

lemma new_router_ext [transfer_rule]: "(rel_fun (=) (rel_fun (gr E) (rel_prod (=) (gr E)))) new_router new_router"
  by (auto simp: rel_fun_def new_router_def grD(3-5) gr_upd)

lemma new_cell_ext [transfer_rule]: "(rel_fun (=) (rel_fun (gr E) (rel_prod (=) (gr E)))) new_cell new_cell"
proof (intro rel_funI, clarify)
  fix c h k
  assume g: "gr E h k"
  have f: "fst E (brk h) = None" using apart_fresh [OF grD(6) [OF g]] by blast
  show "rel_prod (=) (gr E) (new_cell c h) (new_cell c k)"
    unfolding new_cell_def
    using grD [OF g] f by (auto intro!: grI simp: map_add_upd_left apart_def less_Suc_eq)
qed

lemma new_hdr_ext [transfer_rule]: "(rel_fun (=) (rel_fun (gr E) (rel_prod (=) (gr E)))) new_hdr new_hdr"
proof (intro rel_funI, clarify)
  fix c h k
  assume g: "gr E h k"
  have f: "snd E (brk h) = None" using apart_fresh [OF grD(6) [OF g]] by blast
  show "rel_prod (=) (gr E) (new_hdr c h) (new_hdr c k)"
    unfolding new_hdr_def
    using grD [OF g] f by (auto intro!: grI simp: map_add_upd_left apart_def less_Suc_eq)
qed


section \<open>Lists\<close>

lemma set_parent_ext [transfer_rule]:
  "keeps2 (gr E) (rel_prod (=) (gr E)) set_parent set_parent"
  unfolding set_parent_def by transfer_prover

lemma add_child_ext [transfer_rule]:
  "keeps3 (gr E) (rel_prod (=) (rel_prod (=) (gr E))) add_child add_child"
  unfolding add_child_def by transfer_prover

lemma add_childs_loop_ext [transfer_rule]:
  "keeps3 (gr E) (rel_prod (=) (rel_prod (=) (gr E))) add_childs_loop add_childs_loop"
proof (rule ext3)
  fix p i m h k y
  assume "add_childs_loop p i m h = Some y" and "gr E h k"
  then show "\<exists>z. add_childs_loop p i m k = Some z \<and> rel_prod (=) (rel_prod (=) (gr E)) y z"
  proof (induction p i m h y arbitrary: k rule: add_childs_loop.raw_induct [rotated, consumes 1, case_names step])
    case (step f p i m h y)
    have [transfer_rule]: "keeps3 (gr E) (rel_prod (=) (rel_prod (=) (gr E))) f add_childs_loop" by (rule ext3, rule step(1))
    note [transfer_rule] = step(3)
    show ?case by (subst add_childs_loop.simps, rule extD [OF step(2)]) transfer_prover
  qed
qed

lemma add_childs_ext [transfer_rule]:
  "keeps3 (gr E) (rel_prod (=) (rel_prod (=) (gr E))) add_childs add_childs"
  unfolding add_childs_def by transfer_prover

lemma rm_find_ext [transfer_rule]:
  "keeps2 (gr E) (=) rm_find rm_find"
proof (rule ext2)
  fix v i h k y
  assume "rm_find v i h = Some y" and "gr E h k"
  then show "\<exists>z. rm_find v i k = Some z \<and> y = z"
  proof (induction v i h y arbitrary: k rule: rm_find.raw_induct [rotated, consumes 1, case_names step])
    case (step f v i h y)
    have [transfer_rule]: "keeps2 (gr E) (=) f rm_find" by (rule ext2, rule step(1))
    note [transfer_rule] = step(3)
    show ?case by (subst rm_find.simps, rule extD [OF step(2)]) transfer_prover
  qed
qed

lemma rm_child_ext [transfer_rule]:
  "keeps2 (gr E) (rel_prod (=) (rel_prod (=) (gr E))) rm_child rm_child"
  unfolding rm_child_def by transfer_prover

lemma nth_cell_ext [transfer_rule]: "keeps2 (gr E) (=) nth_cell nth_cell"
proof (rule ext2)
  fix i l h k y
  assume "nth_cell i l h = Some y" and "gr E h k"
  then show "\<exists>z. nth_cell i l k = Some z \<and> y = z"
    by (induction i arbitrary: l) (auto simp: bind_eq_Some dest: gr_cell split: if_splits)
qed

lemma get_free_ext [transfer_rule]:
  "keeps1 (gr E) (=) get_free get_free"
  unfolding get_free_def by transfer_prover

lemma add_router_ext [transfer_rule]:
  "keeps2 (gr E) (rel_prod (=) (gr E)) add_router add_router"
  unfolding add_router_def by transfer_prover

lemma add_leaf_ext [transfer_rule]:
  "keeps2 (gr E) (rel_prod (=) (gr E)) add_leaf add_leaf"
  unfolding add_leaf_def by transfer_prover

lemma rm_router_ext [transfer_rule]:
  "keeps2 (gr E) (rel_prod (=) (gr E)) rm_router rm_router"
  unfolding rm_router_def by transfer_prover

lemma rm_leaf_ext [transfer_rule]:
  "keeps2 (gr E) (rel_prod (=) (gr E)) rm_leaf rm_leaf"
  unfolding rm_leaf_def by transfer_prover

lemma get_free_leaf_ext [transfer_rule]:
  "keeps1 (gr E) (=) get_free_leaf get_free_leaf"
  unfolding get_free_leaf_def by transfer_prover

lemma get_free_router_ext [transfer_rule]:
  "keeps1 (gr E) (=) get_free_router get_free_router"
  unfolding get_free_router_def by transfer_prover


section \<open>The tree\<close>

lemma get_child_loop_ext [transfer_rule]:
  "keeps2 (gr E) (=) get_child_loop get_child_loop"
proof (rule ext2)
  fix n l h k y
  assume "get_child_loop n l h = Some y" and "gr E h k"
  then show "\<exists>z. get_child_loop n l k = Some z \<and> y = z"
  proof (induction n l h y arbitrary: k rule: get_child_loop.raw_induct [rotated, consumes 1, case_names step])
    case (step f n l h y)
    have [transfer_rule]: "keeps2 (gr E) (=) f get_child_loop" by (rule ext2, rule step(1))
    note [transfer_rule] = step(3)
    show ?case by (subst get_child_loop.simps, rule extD [OF step(2)]) transfer_prover
  qed
qed

lemma get_child_ext [transfer_rule]:
  "keeps2 (gr E) (=) get_child get_child"
  unfolding get_child_def by transfer_prover

lemma create_router_ext [transfer_rule]:
  "keeps2 (gr E) (rel_prod (=) (gr E)) create_router create_router"
  unfolding create_router_def by transfer_prover

lemma adopt_ext [transfer_rule]:
  "keeps2 (gr E) (rel_prod (=) (gr E)) adopt adopt"
  unfolding adopt_def by transfer_prover

lemma insert_router_ext [transfer_rule]:
  "keeps2 (gr E) (rel_prod (=) (gr E)) insert_router insert_router"
  unfolding insert_router_def by transfer_prover

lemma get_path_pos_loop_ext [transfer_rule]:
  "keeps3 (gr E) (=) get_path_pos_loop get_path_pos_loop"
proof (rule ext3)
  fix n p hops h k y
  assume "get_path_pos_loop n p hops h = Some y" and "gr E h k"
  then show "\<exists>z. get_path_pos_loop n p hops k = Some z \<and> y = z"
  proof (induction n p hops h y arbitrary: k rule: get_path_pos_loop.raw_induct [rotated, consumes 1, case_names step])
    case (step f n p hops h y)
    have [transfer_rule]: "keeps3 (gr E) (=) f get_path_pos_loop" by (rule ext3, rule step(1))
    note [transfer_rule] = step(3)
    show ?case by (subst get_path_pos_loop.simps, rule extD [OF step(2)]) transfer_prover
  qed
qed

lemma get_path_pos_ext [transfer_rule]:
  "keeps2 (gr E) (=) get_path_pos get_path_pos"
  unfolding get_path_pos_def by transfer_prover

text \<open>The lists that \<open>free_router\<close> returns are read by \<open>cut_router\<close> only if there are any.\<close>

lemma free_router_ext [transfer_rule]:
  "keepst2 (gr E) (rel_prod (ext (=)) (rel_prod (gr E) (=))) free_router free_router"
  unfolding free_router_def by transfer_prover

lemma cut_router_ext [transfer_rule]:
  "keepst2 (gr E) (rel_prod (=) (rel_prod (gr E) (=))) cut_router cut_router"
  unfolding cut_router_def by transfer_prover



section \<open>Thinning and resetting\<close>

lemma reduce_end_ext [transfer_rule]:
  "keepst3 (gr E) (rel_prod (gr E) (=)) reduce_end reduce_end"
  unfolding reduce_end_def by transfer_prover

lemma reduce_childs_ext [transfer_rule]:
  "keepst3 (gr E) (rel_prod (gr E) (=)) reduce_childs reduce_childs"
proof (rule ext5m)
  fix J A j h t k y
  assume "reduce_childs J A j h t = Some y" and "gr E h k"
  then show "\<exists>z. reduce_childs J A j k t = Some z \<and> rel_prod (gr E) (=) y z"
  proof (induction J A j h t y arbitrary: k rule: reduce_childs.raw_induct [rotated, consumes 1, case_names step])
    case (step f J A j h t y)
    have [transfer_rule]: "keepst3 (gr E) (rel_prod (gr E) (=)) f reduce_childs" by (rule ext5m, rule step(1))
    note [transfer_rule] = step(3)
    show ?case by (subst reduce_childs.simps, rule extD [OF step(2)]) transfer_prover
  qed
qed

lemma reduce_tree_ext [transfer_rule]:
  "keepst3 (gr E) (rel_prod (gr E) (=)) reduce_tree reduce_tree"
  unfolding reduce_tree_def by transfer_prover

lemma reset_leafs_ext [transfer_rule]:
  "keeps2 (gr E) (gr E) reset_leafs reset_leafs"
proof (rule ext2)
  fix s i h k y
  assume "reset_leafs s i h = Some y" and "gr E h k"
  then show "\<exists>z. reset_leafs s i k = Some z \<and> gr E y z"
  proof (induction s i h y arbitrary: k rule: reset_leafs.raw_induct [rotated, consumes 1, case_names step])
    case (step f s i h y)
    have [transfer_rule]: "keeps2 (gr E) (gr E) f reset_leafs" by (rule ext2, rule step(1))
    note [transfer_rule] = step(3)
    show ?case by (subst reset_leafs.simps, rule extD [OF step(2)]) transfer_prover
  qed
qed

lemma reset_end_ext [transfer_rule]:
  "keeps2 (gr E) (gr E) reset_end reset_end"
  unfolding reset_end_def by transfer_prover

lemma reset_childs_ext [transfer_rule]:
  "keeps2 (gr E) (gr E) reset_childs reset_childs"
proof (rule ext2)
  fix s i h k y
  assume "reset_childs s i h = Some y" and "gr E h k"
  then show "\<exists>z. reset_childs s i k = Some z \<and> gr E y z"
  proof (induction s i h y arbitrary: k rule: reset_childs.raw_induct [rotated, consumes 1, case_names step])
    case (step f s i h y)
    have [transfer_rule]: "keeps2 (gr E) (gr E) f reset_childs" by (rule ext2, rule step(1))
    note [transfer_rule] = step(3)
    show ?case by (subst reset_childs.simps, rule extD [OF step(2)]) transfer_prover
  qed
qed

lemma rec_reset_tree_ext [transfer_rule]:
  "keeps2 (gr E) (gr E) rec_reset_tree rec_reset_tree"
  unfolding rec_reset_tree_def by transfer_prover


section \<open>Responses and requests\<close>

lemma update_topo_ext [transfer_rule]:
  "keepst5 (gr E) (rel_prod (=) (rel_prod (=) (rel_prod (gr E) (=)))) update_topo update_topo"
proof (intro rel_funI, hypsubst)
  fix J and rsa and paddr and hops :: uint8 and n h k and t :: 'a
  assume [transfer_rule]: "gr E h k"
  have [transfer_rule]: "(rel_fun (=) (rel_fun (=) (rel_fun (=) (ext (=))))) jhsg jhsg" by (simp add: rel_fun_def ext_def)
  show "ext (rel_prod (=) (rel_prod (=) (rel_prod (gr E) (=))))
    (update_topo J rsa paddr hops n h t) (update_topo J rsa paddr hops n k t)"
  proof (cases "jhsg J t paddr")
    case None
    show ?thesis unfolding update_topo_def None option.case by transfer_prover
  next
    case (Some l)
    show ?thesis unfolding update_topo_def Some option.case by transfer_prover
  qed
qed

lemma rx_dcvr_ext [transfer_rule]:
  "keepst3 (gr E) (rel_prod (=) (rel_prod (=) (rel_prod (gr E) (=)))) rx_dcvr rx_dcvr"
  unfolding rx_dcvr_def by transfer_prover

lemma send_dcvr_loop_ext [transfer_rule]:
  "keeps6 (gr E) (=) send_dcvr_loop send_dcvr_loop"
proof (rule ext6)
  fix res len n hdr out i h k y
  assume "send_dcvr_loop res len n hdr out i h = Some y" and "gr E h k"
  then show "\<exists>z. send_dcvr_loop res len n hdr out i k = Some z \<and> y = z"
  proof (induction res len n hdr out i h y arbitrary: k rule: send_dcvr_loop.raw_induct [rotated, consumes 1, case_names step])
    case (step f res len n hdr out i h y)
    have [transfer_rule]: "keeps6 (gr E) (=) f send_dcvr_loop" by (rule ext6, rule step(1))
    note [transfer_rule] = step(3)
    show ?case by (subst send_dcvr_loop.simps, rule extD [OF step(2)]) transfer_prover
  qed
qed

lemma send_dcvr_ext [transfer_rule]:
  "keeps3 (gr E) (=) send_dcvr send_dcvr"
  unfolding send_dcvr_def by transfer_prover


section \<open>Grouping\<close>

lemma get_start_loop_ext [transfer_rule]:
  "keeps3 (gr E) (=) get_start_loop get_start_loop"
proof (rule ext3)
  fix r c s h k y
  assume "get_start_loop r c s h = Some y" and "gr E h k"
  then show "\<exists>z. get_start_loop r c s k = Some z \<and> y = z"
  proof (induction r c s h y arbitrary: k rule: get_start_loop.raw_induct [rotated, consumes 1, case_names step])
    case (step f r c s h y)
    have [transfer_rule]: "keeps3 (gr E) (=) f get_start_loop" by (rule ext3, rule step(1))
    note [transfer_rule] = step(3)
    show ?case by (subst get_start_loop.simps, rule extD [OF step(2)]) transfer_prover
  qed
qed

lemma get_start_ext [transfer_rule]:
  "keeps1 (gr E) (=) get_start get_start"
proof (rule ext1)
  fix r h k y
  assume "get_start r h = Some y" and "gr E h k"
  then show "\<exists>z. get_start r k = Some z \<and> y = z"
  proof (induction r h y arbitrary: k rule: get_start.raw_induct [rotated, consumes 1, case_names step])
    case (step f r h y)
    have [transfer_rule]: "keeps1 (gr E) (=) f get_start" by (rule ext1, rule step(1))
    note [transfer_rule] = step(3)
    show ?case by (subst get_start.simps, rule extD [OF step(2)]) transfer_prover
  qed
qed

lemma back_propagate_ext [transfer_rule]:
  "keeps1 (gr E) (rel_prod (=) (gr E)) back_propagate back_propagate"
  unfolding back_propagate_def by transfer_prover

lemma rec_back_propagate_ext [transfer_rule]:
  "keeps1 (gr E) (gr E) rec_back_propagate rec_back_propagate"
proof (rule ext1)
  fix r h k y
  assume "rec_back_propagate r h = Some y" and "gr E h k"
  then show "\<exists>z. rec_back_propagate r k = Some z \<and> gr E y z"
  proof (induction r h y arbitrary: k rule: rec_back_propagate.raw_induct [rotated, consumes 1, case_names step])
    case (step f r h y)
    have [transfer_rule]: "keeps1 (gr E) (gr E) f rec_back_propagate" by (rule ext1, rule step(1))
    note [transfer_rule] = step(3)
    show ?case by (subst rec_back_propagate.simps, rule extD [OF step(2)]) transfer_prover
  qed
qed

lemma is_mergeable_ext [transfer_rule]:
  "keeps3 (gr E) (=) is_mergeable is_mergeable"
  unfolding is_mergeable_def by transfer_prover

lemma txg_copy_ext [transfer_rule]:
  "keeps5 (gr E) (=) txg_copy txg_copy"
  unfolding txg_copy_def by transfer_prover

lemma txg_bitmap_ext [transfer_rule]:
  "keeps4 (gr E) (=) txg_bitmap txg_bitmap"
  unfolding txg_bitmap_def by transfer_prover

lemma set_txg_router_ext [transfer_rule]:
  "keeps6 (gr E) (=) set_txg_router set_txg_router"
  unfolding set_txg_router_def by transfer_prover

lemma add2txg_loop_ext [transfer_rule]:
  "keeps4 (gr E) (=) add2txg_loop add2txg_loop"
proof (rule ext4)
  fix m c i l h k y
  assume "add2txg_loop m c i l h = Some y" and "gr E h k"
  then show "\<exists>z. add2txg_loop m c i l k = Some z \<and> y = z"
    by (induction m arbitrary: c i l) (auto simp: bind_eq_Some grD(3) dest: gr_cell)
qed

lemma add2txg_ext [transfer_rule]:
  "keeps7 (gr E) (rel_prod (=) (rel_prod (=) (rel_prod (=) (rel_prod (=) (gr E))))) add2txg add2txg"
  unfolding add2txg_def by transfer_prover

lemma finish_txg_ext [transfer_rule]:
  "keeps4 (gr E) (rel_prod (=) (rel_prod (=) (rel_prod (=) (rel_prod (=) (gr E))))) finish_txg finish_txg"
  unfolding finish_txg_def by transfer_prover

lemma uni_loop_ext [transfer_rule]:
  "keeps4 (gr E) (rel_prod (=) (gr E)) uni_loop uni_loop"
proof (rule ext4)
  fix nuni s c acc h k y
  assume "uni_loop nuni s c acc h = Some y" and "gr E h k"
  then show "\<exists>z. uni_loop nuni s c acc k = Some z \<and> rel_prod (=) (gr E) y z"
  proof (induction nuni s c acc h y arbitrary: k rule: uni_loop.raw_induct [rotated, consumes 1, case_names step])
    case (step f nuni s c acc h y)
    have [transfer_rule]: "keeps4 (gr E) (rel_prod (=) (gr E)) f uni_loop" by (rule ext4, rule step(1))
    note [transfer_rule] = step(3)
    show ?case by (subst uni_loop.simps, rule extD [OF step(2)]) transfer_prover
  qed
qed


text \<open>The state of the main loop: equal but for the memory.\<close>

definition grr :: "extra \<Rightarrow> gg \<Rightarrow> gg \<Rightarrow> bool" where
  "grr E s t \<longleftrightarrow> gr E (gg_h s) (gg_h t) \<and> gg_addrs t = gg_addrs s \<and> gg_bm t = gg_bm s \<and>
     gg_n t = gg_n s \<and> gg_mdc t = gg_mdc s \<and> gg_r t = gg_r s \<and> gg_ms t = gg_ms s"

lemma gg_transfer [transfer_rule]:
  "(rel_fun (grr E) (gr E)) gg_h gg_h" "(rel_fun (grr E) (=)) gg_addrs gg_addrs" "(rel_fun (grr E) (=)) gg_bm gg_bm"
  "(rel_fun (grr E) (=)) gg_n gg_n" "(rel_fun (grr E) (=)) gg_mdc gg_mdc" "(rel_fun (grr E) (=)) gg_r gg_r"
  "(rel_fun (grr E) (=)) gg_ms gg_ms"
  "(rel_fun (rel_fun (=) (=)) (rel_fun (grr E) (grr E))) gg_addrs_update gg_addrs_update"
  "(rel_fun (rel_fun (=) (=)) (rel_fun (grr E) (grr E))) gg_bm_update gg_bm_update"
  "(rel_fun (rel_fun (=) (=)) (rel_fun (grr E) (grr E))) gg_n_update gg_n_update"
  "(rel_fun (rel_fun (=) (=)) (rel_fun (grr E) (grr E))) gg_mdc_update gg_mdc_update"
  "(rel_fun (rel_fun (=) (=)) (rel_fun (grr E) (grr E))) gg_r_update gg_r_update"
  "(rel_fun (rel_fun (=) (=)) (rel_fun (grr E) (grr E))) gg_ms_update gg_ms_update"
  "(rel_fun (rel_fun (gr E) (gr E)) (rel_fun (grr E) (grr E))) gg_h_update gg_h_update"
  by (auto simp: rel_fun_def grr_def)

lemma gg_ext_transfer [transfer_rule]:
  "(rel_fun (=) (rel_fun (=) (rel_fun (=) (rel_fun (=) (rel_fun (=) (rel_fun (=) (rel_fun (gr E) (rel_fun (=) (grr E))))))))) gg_ext gg_ext"
  by (simp add: rel_fun_def grr_def)

abbreviation "jump E \<equiv> rel_sum (grr E) (grr E)"

lemma gg_add_ext [transfer_rule]: "keeps2 (grr E) (grr E) gg_add gg_add"
  unfolding gg_add_def by transfer_prover

lemma gg_leafs_ext [transfer_rule]:
  "keeps3 (grr E) (jump E) gg_leafs gg_leafs"
  unfolding gg_leafs_def by transfer_prover

lemma gg_move_ext [transfer_rule]: "keeps1 (grr E) (jump E) gg_move gg_move"
  unfolding gg_move_def by transfer_prover

lemma gg_body_ext [transfer_rule]: "keeps2 (grr E) (jump E) gg_body gg_body"
  unfolding gg_body_def by transfer_prover

lemma gg_next_ext [transfer_rule]: "keeps0 (grr E) (jump E) gg_next gg_next"
  unfolding gg_next_def by transfer_prover

lemma gg_step_ext [transfer_rule]: "keeps2 (grr E) (jump E) gg_step gg_step"
  unfolding gg_step_def by transfer_prover

lemma run_ext [transfer_rule]: "(rel_fun (keeps0 (grr E) (jump E)) (rel_fun (grr E) (ext (grr E)))) run run"
proof (intro rel_funI extI)
  fix f g s t y
  assume "run f s = Some y" and "keeps0 (grr E) (jump E) f g" and "grr E s t"
  then show "\<exists>z. run g t = Some z \<and> grr E y z"
  proof (induction f s y arbitrary: t rule: run.raw_induct [rotated, consumes 1, case_names step])
    case (step r f s y)
    have "ext (jump E) (f s) (g t)" by (rule rel_funD [OF step(3,4)])
    moreover obtain x where x: "f s = Some x" "(case x of Inl s' \<Rightarrow> r f s' | Inr v \<Rightarrow> Some v) = Some y"
      using step(2) by (auto simp: bind_eq_Some)
    ultimately obtain x' where x': "g t = Some x'" "rel_sum (grr E) (grr E) x x'"
      by (auto simp: ext_def)
    from x'(2) show ?case
      by cases (use x x' step(1) [OF _ step(3)] in \<open>auto simp: run.simps [of g t]\<close>)
  qed
qed

lemma greedy_grouping_ext [transfer_rule]:
  "keeps3 (gr E) (rel_prod (=) (rel_prod (=) (gr E))) greedy_grouping greedy_grouping"
  unfolding greedy_grouping_def by transfer_prover


section \<open>The discovery thread\<close>

definition dxr :: "extra \<Rightarrow> 't dx \<Rightarrow> 't dx \<Rightarrow> bool" where
  "dxr E s t \<longleftrightarrow> gr E (dx_h s) (dx_h t) \<and> dx_g t = dx_g s \<and> dx_ms t = dx_ms s \<and> dx_tm t = dx_tm s \<and>
     dx_n t = dx_n s"

lemma dx_transfer [transfer_rule]:
  "(rel_fun (dxr E) (gr E)) dx_h dx_h" "(rel_fun (dxr E) (=)) dx_g dx_g" "(rel_fun (dxr E) (=)) dx_ms dx_ms"
  "(rel_fun (dxr E) (=)) dx_tm dx_tm" "(rel_fun (dxr E) (=)) dx_n dx_n"
  "(rel_fun (rel_fun (gr E) (gr E)) (rel_fun (dxr E) (dxr E))) dx_h_update dx_h_update"
  "(rel_fun (rel_fun (=) (=)) (rel_fun (dxr E) (dxr E))) dx_g_update dx_g_update"
  "(rel_fun (rel_fun (=) (=)) (rel_fun (dxr E) (dxr E))) dx_ms_update dx_ms_update"
  "(rel_fun (rel_fun (=) (=)) (rel_fun (dxr E) (dxr E))) dx_tm_update dx_tm_update"
  "(rel_fun (rel_fun (=) (=)) (rel_fun (dxr E) (dxr E))) dx_n_update dx_n_update"
  by (auto simp: rel_fun_def dxr_def)

lemma tint_handler_ext [transfer_rule]:
  "keeps4 (dxr E) (rel_prod (=) (rel_prod (=) (dxr E)))
    tint_handler tint_handler"
  unfolding tint_handler_def by transfer_prover

lemma tout_handler_ext [transfer_rule]:
  "keeps4 (dxr E) (rel_prod (=) (dxr E)) tout_handler tout_handler"
  unfolding tout_handler_def by transfer_prover

lemma case_event_transfer [transfer_rule]:
  "(rel_fun (rel_fun (=) R) (rel_fun (rel_fun (=) R) (rel_fun (rel_fun (=) (rel_fun (=) R)) (rel_fun (=) R)))) case_event case_event"
  by (simp add: rel_fun_def split: event.split)

lemma dx_event_ext [transfer_rule]:
  "keeps5 (dxr E) (rel_prod (=) (dxr E)) dx_event dx_event"
  unfolding dx_event_def by transfer_prover

lemma dx_loop_ext:
  assumes "dx_loop J A txbuf c es s = Some (out, s')" "dxr E s t"
  shows "\<exists>t'. dx_loop J A txbuf c es t = Some (out, t') \<and> dxr E s' t'"
  using assms
proof (induction es arbitrary: s t out)
  case (Cons e es)
  obtain o1 s1 o2 where 1: "dx_event J A txbuf c e s = Some (o1, s1)"
      "dx_loop J A txbuf c es s1 = Some (o2, s')" "out = o1 @ o2"
    using Cons.prems(1) by (auto simp: bind_eq_Some)
  note [transfer_rule] = Cons.prems(2)
  have "ext (rel_prod (=) (dxr E)) (dx_event J A txbuf c e s) (dx_event J A txbuf c e t)"
    by transfer_prover
  then obtain t1 where "dx_event J A txbuf c e t = Some (o1, t1)" "dxr E s1 t1"
    using 1(1) by (auto simp: ext_def)
  moreover obtain t' where "dx_loop J A txbuf c es t1 = Some (o2, t')" "dxr E s' t'"
    using Cons.IH [OF 1(2) calculation(2)] by blast
  ultimately show ?case using 1(3) by simp
qed simp

text \<open>What is assumed of the events does not depend on the additional objects.\<close>

lemma gr_objects: "gr E h k \<Longrightarrow> routers k = routers h \<and> leafs k = leafs h"
  by (simp add: grD)

lemma event_ok_gr:
  assumes "dxr E s t"
  shows "event_ok J e t \<longleftrightarrow> event_ok J e s"
proof -
  have "routers (dx_h t) = routers (dx_h s)" "leafs (dx_h t) = leafs (dx_h s)" "dx_g t = dx_g s"
    using assms gr_objects [of E "dx_h s" "dx_h t"] by (simp_all add: dxr_def)
  moreover have "par (dx_h t) = par (dx_h s)" "hops_at (dx_h t) = hops_at (dx_h s)"
    using obs_objects(1,3) [OF calculation(2,1)] by (simp_all add: fun_eq_iff hops_at_def)
  ultimately have "response_ok J d t = response_ok J d s" for d by (simp add: response_ok_def)
  then show ?thesis by (cases e) simp_all
qed

lemma events_ok_gr: "dxr E s t \<Longrightarrow> events_ok J A txbuf c es t \<Longrightarrow> events_ok J A txbuf c es s"
proof (induction es arbitrary: s t)
  case (Cons e es)
  note [transfer_rule] = Cons.prems(1)
  have x: "ext (rel_prod (=) (dxr E)) (dx_event J A txbuf c e s) (dx_event J A txbuf c e t)"
    by transfer_prover
  then show ?case
    using Cons event_ok_gr [OF Cons.prems(1)]
    by (fastforce simp: ext_def split: option.splits)
qed simp

end
