(* ===== verification/Published.thy ===== *)
theory Published
  imports Frame
begin

text \<open>
  The transmission group while discovery goes on. \<open>tout_handler\<close> publishes a group and puts its
  cells and headers in no list of the tree; the two threads share nothing else of it than the
  pointer. Here the memory at the end of a phase is split into the cells of the tree and the rest,
  and by the frame property of \<open>Frame\<close> the rest outlives every later event: \<open>tx\<close> sends from
  the published group what it would have sent at its publication.
\<close>


section \<open>The cells of the tree and the rest\<close>

definition tree_cells :: "view \<Rightarrow> ptr set" where
  "tree_cells V = {c. \<exists>kr v. (c, v) \<in> set (V kr)}"

definition extra_of :: "view \<Rightarrow> heap \<Rightarrow> extra" where
  "extra_of V h = (cells h |` (- tree_cells V), hdrs h)"

definition core_of :: "view \<Rightarrow> heap \<Rightarrow> heap" where
  "core_of V h = h\<lparr>cells := cells h |` tree_cells V, hdrs := Map.empty\<rparr>"

lemma core_gr:
  assumes "node_ok h"
  shows "gr (extra_of V h) (core_of V h) h"
proof -
  have "cells h |` S ++ cells h |` (- S) = cells h" for S
    by (auto simp: map_add_def restrict_map_def fun_eq_iff split: option.splits)
  then have "h = grow (extra_of V h) (core_of V h)"
    by (simp add: grow_def extra_of_def core_of_def)
  moreover have fresh: "x < brk h" if "cells h x \<noteq> None \<or> hdrs h x \<noteq> None" for x
    using assms that unfolding node_ok_def by (meson not_le)
  then have "apart (extra_of V h) (core_of V h)"
    by (auto simp: apart_def extra_of_def core_of_def restrict_map_def split: if_splits)
  ultimately show ?thesis by (simp add: gr_def)
qed

lemma core_same_tree:
  assumes S: "same_tree h0 V h"
  shows "same_tree h0 V (core_of V h)"
proof -
  note R = st_repr [OF S]
  have obs: "rdata (core_of V h) = rdata h" "ldata (core_of V h) = ldata h" "par (core_of V h) = par h"
      "rlist (core_of V h) = rlist h" "has (core_of V h) k v = has h k v" for k v
    by (rule obs_objects; simp add: core_of_def)+
  have "node_ok (core_of V h)"
    using repr_node_ok [OF R] by (simp add: node_ok_def core_of_def restrict_map_def)
  moreover have "list_ok (cells (core_of V h)) l (V kr)" if "list_ok (cells h) l (V kr)" for l kr
  proof -
    have "chain (cells (core_of V h)) (lh_l l) (V kr)"
    proof (rule chain_cong)
      show "chain (cells h) (lh_l l) (V kr)" using that by (simp add: list_ok_def)
      show "cells (core_of V h) c = cells h c" if "c \<in> fst ` set (V kr)" for c
        using that unfolding core_of_def tree_cells_def by (cases kr) (force simp: restrict_map_def)
    qed
    then show ?thesis using that by (simp add: list_ok_def)
  qed
  ultimately have "repr (core_of V h) V"
    using R unfolding repr_def obs by blast
  then show ?thesis using S by (simp add: same_tree_def obs)
qed


section \<open>The group is in the rest\<close>

text \<open>The elements of the group's list and their headers are the same in both memories.\<close>

definition intact :: "heap \<Rightarrow> heap \<Rightarrow> tx_group \<Rightarrow> bool" where
  "intact h h' grp \<longleftrightarrow> (\<exists>xs. chain (cells h) (txg_mdc grp) xs \<and>
     (\<forall>(c, d) \<in> set xs. cells h' c = cells h c \<and> hdrs h d \<noteq> None \<and> hdrs h' d = hdrs h d))"

lemma tree_cell_node:
  assumes R: "repr h V" and c: "c \<in> tree_cells V" and "cells h c = Some ce"
  shows "is_node h (child_v ce)"
proof -
  obtain k r v where v: "(c, v) \<in> set (V (k, r))" using c by (auto simp: tree_cells_def)
  then obtain l where l: "rlist h (k, r) = Some l" using R by (cases "rlist h (k, r)") (auto simp: repr_def)
  then have "chain (cells h) (lh_l l) (V (k, r))" using R by (auto simp: repr_def list_ok_def)
  then have "child_v ce = v" using chain_cell [OF _ v] assms(3) by force
  moreover have "has h k v" using R v by (auto simp: repr_def)
  ultimately show ?thesis by (cases k) (auto simp: is_node_def)
qed

lemma group_in_extra:
  assumes S: "txg_serves h mx grp gs us" and R: "repr h V" and g: "gr (extra_of V h) k h'"
  shows "intact h h' grp"
proof -
  obtain xs where xs: "chain (cells h) (txg_mdc grp) xs"
      "list_all2 (\<lambda>x g. \<exists>d. hdrs h (snd x) = Some d \<and> hdr_ok h mx d g \<and> \<not> is_node h (snd x)) xs gs"
    using S by (auto simp: txg_serves_def)
  have "cells h' c = cells h c \<and> hdrs h d \<noteq> None \<and> hdrs h' d = hdrs h d" if cd: "(c, d) \<in> set xs" for c d
  proof -
    obtain ce where ce: "cells h c = Some ce" "child_v ce = d" using chain_cell [OF xs(1) cd] by auto
    obtain m where m: "hdrs h d = Some m" "\<not> is_node h d"
      using list_all2_in_left [OF xs(2) cd] by auto
    have "c \<notin> tree_cells V" using tree_cell_node [OF R _ ce(1)] ce(2) m(2) by blast
    then show ?thesis
      using g ce(1) m(1) by (auto simp: gr_def grow_def extra_of_def map_add_def)
  qed
  then show ?thesis using xs(1) unfolding intact_def by blast
qed


section \<open>Sending from an intact group\<close>

lemma tx_mdc_loop_cong:
  "chain (cells h) i xs \<Longrightarrow> \<forall>(c, d) \<in> set xs. cells h' c = cells h c \<and> hdrs h' d = hdrs h d \<Longrightarrow>
   tx_mdc_loop res room bia k i pl plen h' out = tx_mdc_loop res room bia k i pl plen h out"
proof (induction xs arbitrary: i k pl out)
  case Nil
  then show ?case by (simp add: tx_mdc_loop.simps)
next
  case (Cons x xs)
  obtain v ce where x: "x = (i, v)" "i \<noteq> NULL" "cells h i = Some ce" "child_v ce = v"
      "chain (cells h) (child_n ce) xs"
    using Cons.prems(1) by (rule chain_ConsE)
  then have eq: "cells h' i = Some ce" "hdrs h' v = hdrs h v" using Cons.prems(2) by auto
  have IH: "tx_mdc_loop res room bia j (child_n ce) q plen h' out' =
      tx_mdc_loop res room bia j (child_n ce) q plen h out'" for j q out'
    using Cons.IH [OF x(5)] Cons.prems(2) by simp
  show ?case
    by (subst (1 2) tx_mdc_loop.simps) (simp add: x(2-4) eq IH Let_def cong: if_cong)
qed

lemma tx_intact:
  assumes "intact h h' grp" "get_txg g = Some grp"
  shows "tx ures mres b bia fd1 fd2 g h' n ip pl = tx ures mres b bia fd1 fd2 g h n ip pl"
proof -
  obtain xs where xs: "chain (cells h) (txg_mdc grp) xs"
      "\<forall>(c, d) \<in> set xs. cells h' c = cells h c \<and> hdrs h' d = hdrs h d"
    using assms(1) by (fastforce simp: intact_def)
  show ?thesis
    by (simp add: tx_def tx_mdc_def assms(2) tx_mdc_loop_cong [OF xs] Let_def cong: if_cong)
qed


section \<open>Publication and what follows\<close>

text \<open>
  The end of a phase in a memory with any additional objects: what the group is made of, the
  published memory \<open>h\<close>, and the thread's state of which the rest of the memory is split off.
\<close>

lemma group_stays:
  assumes J: "judy_hs J" and A: "args_ok A" and c: "conf_ok c" and b: "mdc_addr txbuf \<noteq> []"
    and I: "dx_ok J c st" and rd: "1 \<le> rd"
  shows "\<exists>st1 grp h gs us. tout_handler J A rd c st = Some (0, st1) \<and>
    get_txg (dx_g st1) = Some grp \<and> txg_serves h (gg_max A) grp gs us \<and> ldata h = ldata (dx_h st) \<and>
    (\<forall>es. events_ok J A txbuf c es st1 \<longrightarrow> (\<exists>out st2. dx_loop J A txbuf c es st1 = Some (out, st2) \<and>
      intact h (dx_h st2) grp))"
proof -
  let ?g = "dx_g st"
  obtain V where G: "group_ok J ?g (dx_h st) V" and ms: "dx_ms st = reset_merging_stats"
      and tm: "timers_ok c (dx_tm st)"
    using I by (auto simp: dx_ok_def)
  obtain h1 t1 V1 grp h2 gs us where E: "reduce_tree J A (g_root ?g) (dx_h st) (g_ht ?g) = Some (h1, t1)"
      "greedy_grouping A (g_root ?g) reset_merging_stats h1 = Some (Some grp, reset_merging_stats, h2)"
      "txg_serves h2 (gg_max A) grp gs us" "same_tree h1 V1 h2" "disc_inv True J h1 V1 (g_root ?g) t1"
      "ldata h1 = ldata (dx_h st)"
    using grouped_phase [OF J A G] by metis
  let ?E = "extra_of V1 h2" and ?k = "core_of V1 h2"
  note R = st_repr [OF E(4)]
  have g2: "gr ?E ?k h2" by (rule core_gr [OF repr_node_ok [OF R]])
  obtain k3 V3 where k3: "rec_reset_tree (g_root ?g) (g_root ?g) ?k = Some k3"
      "\<forall>v. group_ok J (?g\<lparr>g_ht := t1, g_txg := v\<rparr>) k3 V3"
    using reset_phase [OF G E(5,6) core_same_tree [OF E(4)]] by metis
  have "ext (gr ?E) (rec_reset_tree (g_root ?g) (g_root ?g) ?k) (rec_reset_tree (g_root ?g) (g_root ?g) h2)"
    using rec_reset_tree_ext [of ?E] g2 by (simp add: rel_fun_def)
  then obtain h3 where h3: "rec_reset_tree (g_root ?g) (g_root ?g) h2 = Some h3" "gr ?E k3 h3"
    using k3(1) by (auto simp: ext_def)
  obtain tm' where tm': "flip_timers (tout_fd c) (tint_fd c) (tint_ts c) (dx_tm st) = (0, tm')"
      "timers_ok c tm'"
    using flip_to_tint [OF c tm] by blast
  let ?s = "\<lambda>h. st\<lparr>dx_n := 0, dx_h := h, dx_g := ?g\<lparr>g_ht := t1, g_txg := Some grp\<rparr>, dx_tm := tm'\<rparr>"
  have run: "tout_handler J A rd c st = Some (0, ?s h3)"
    using rd E(1,2) h3(1) tm'(1) ms by (simp add: tout_handler_def Let_def set_txg_def)
  have ok: "dx_ok J c (?s k3)" using k3(2) tm'(2) ms unfolding dx_ok_def by auto
  have rel: "dxr ?E (?s k3) (?s h3)" using h3(2) by (simp add: dxr_def)
  have "\<exists>out st2. dx_loop J A txbuf c es (?s h3) = Some (out, st2) \<and> intact h2 (dx_h st2) grp"
    if es: "events_ok J A txbuf c es (?s h3)" for es
  proof -
    obtain out s2 where s2: "dx_loop J A txbuf c es (?s k3) = Some (out, s2)"
      using dx_loop_ok [OF J A c b ok events_ok_gr [OF rel es]] by blast
    obtain t2 where "dx_loop J A txbuf c es (?s h3) = Some (out, t2)" "dxr ?E s2 t2"
      using dx_loop_ext [OF s2 rel] by blast
    then show ?thesis using group_in_extra [OF E(3) R] by (auto simp: dxr_def)
  qed
  moreover have "ldata h2 = ldata (dx_h st)" using st_ldata [OF E(4)] E(6) by simp
  ultimately show ?thesis
    using run E(3) by (intro exI [of _ "?s h3"] exI [of _ grp] exI [of _ h2] exI [of _ gs] exI [of _ us])
      (simp add: get_txg_def)
qed

end
