(* ===== verification/Sending.thy ===== *)
theory Sending
  imports TxLoop Published
begin

text \<open>
  The sending thread against the discovery thread: whatever group the thread sees when it has read a
  packet, as long as that group was published for these receivers and its objects are intact,
  every receiver gets the packet once.
\<close>


section \<open>One packet\<close>

text \<open>The receivers are given by \<open>L\<close>, the part \<open>ldata\<close> of a memory.\<close>

definition addr_in :: "(ptr \<Rightarrow> rcvr option) \<Rightarrow> ptr \<Rightarrow> in6_addr" where
  "addr_in L l = (case L l of None \<Rightarrow> 0 | Some rc \<Rightarrow> sin6_addr (addr_sa (rcvr_addr rc)))"

text \<open>A published group of these receivers, unchanged in memory, and a network that takes every packet.\<close>

definition sees_group :: "arguments \<Rightarrow> (ptr \<Rightarrow> rcvr option) \<Rightarrow> 't tx_env \<Rightarrow> bool" where
  "sees_group A L e \<longleftrightarrow> (\<exists>h grp gs us. get_txg (te_group e) = Some grp \<and> txg_serves h (gg_max A) grp gs us \<and>
     ldata h = L \<and> intact h (te_heap e) grp)"

definition no_send_fails :: "'t tx_env \<Rightarrow> bool" where
  "no_send_fails e \<longleftrightarrow> (\<forall>i. 1 \<le> te_ures e i \<and> 1 \<le> te_mres e i)"

text \<open>A whole UDP packet: the length in its header is within what was read.\<close>

definition udp_read :: "tun_read \<Rightarrow> bool" where
  "udp_read r \<longleftrightarrow> ip_nexthdr (tr_ip r) = IPPROTO_UDP \<and> 44 \<le> tr_ret r \<and>
     udp_len_ok (tr_pl r) (nat (tr_ret r) - 44)"

text \<open>All receivers, each once, get the payload of \<open>r\<close> with the right checksum.\<close>

definition delivered :: "(ptr \<Rightarrow> rcvr option) \<Rightarrow> in6_addr \<Rightarrow> tun_read \<Rightarrow> sent \<Rightarrow> bool" where
  "delivered L bia r s \<longleftrightarrow> (case s of (ups, mps) \<Rightarrow>
     (\<exists>ls. distinct ls \<and> set ls = dom L \<and>
       concat (map mdc_receivers mps) @ map up_dst ups = map (addr_in L) ls) \<and>
     (\<forall>p \<in> set ups. udp_like (take (nat (tr_ret r) - 44) (tr_pl r)) (up_payload p) \<and>
       udp_checks (ip_saddr (tr_ip r)) (up_dst p) (up_payload p)) \<and>
     (\<forall>p \<in> set mps. udp_like (take (nat (tr_ret r) - 44) (tr_pl r)) (mp_payload p) \<and>
       udp_checks bia (mp_dst p) (mp_payload p)))"

lemma laddr_addr_in: "laddr h = addr_in (ldata h)"
  by (simp add: laddr_def addr_in_def fun_eq_iff)

lemma tx_read_delivers:
  assumes fd: "1 \<le> ta_ip6 ta" "1 \<le> ta_mdc ta" and e: "sees_group A L e" "no_send_fails e" and r: "udp_read r"
  shows "\<exists>s. tx_read (init_tx (max_addrs A) mtu) bia ta (r, e) = Some s \<and> delivered L bia r s"
proof -
  obtain h grp gs us where g: "get_txg (te_group e) = Some grp" "txg_serves h (gg_max A) grp gs us"
      "ldata h = L" "intact h (te_heap e) grp"
    using e(1) by (auto simp: sees_group_def)
  have res: "\<And>i. 1 \<le> te_ures e i" "\<And>i. 1 \<le> te_mres e i" using e(2) by (auto simp: no_send_fails_def)
  let ?n = "nat (tr_ret r) - 44"
  have n: "44 + ?n = nat (tr_ret r)" using r unfolding udp_read_def by linarith
  have pl: "udp_len_ok (tr_pl r) ?n" and ip: "ip_nexthdr (tr_ip r) = IPPROTO_UDP"
    using r by (simp_all add: udp_read_def)
  obtain ups mps where t: "tx (te_ures e) (te_mres e) (init_tx (max_addrs A) mtu) bia (ta_ip6 ta) (ta_mdc ta)
        (te_group e) h (44 + ?n) (tr_ip r) (tr_pl r) = Some (ups, mps)"
      "list_all2 (uni_packet_ok (tr_ip r) (tr_pl r) ?n) (rcvr_addrs h us) ups"
      "\<forall>p \<in> set mps. udp_like (take ?n (tr_pl r)) (mp_payload p) \<and> udp_checks bia (mp_dst p) (mp_payload p)"
      "concat (map mdc_receivers mps) @ map up_dst ups = map (laddr h) (seg_leafs (concat gs) @ us)"
    using tx_delivers [OF g(2,1) fd ip pl, of "te_ures e" "te_mres e" mtu bia] res by blast
  have u: "udp_like (take ?n (tr_pl r)) (up_payload p) \<and> udp_checks (ip_saddr (tr_ip r)) (up_dst p) (up_payload p)"
    if "p \<in> set ups" for p
    using list_all2_in_right [OF t(2) that] ip by (auto simp: uni_packet_ok_def)
  have "distinct (seg_leafs (concat gs) @ us)" "set (seg_leafs (concat gs) @ us) = dom L"
    using g(2,3) ldata_None [of h] by (simp_all add: txg_serves_def dom_def)
  then have "delivered L bia r (ups, mps)"
    using t(3,4) u unfolding delivered_def laddr_addr_in g(3) by blast
  moreover have "tx_read (init_tx (max_addrs A) mtu) bia ta (r, e) = Some (ups, mps)"
    using t(1) unfolding n by (simp add: tx_read_def tx_intact [OF g(4,1)])
  ultimately show ?thesis by blast
qed


section \<open>All packets\<close>

lemma all_reads_delivered:
  assumes fd: "1 \<le> ta_ip6 ta" "1 \<le> ta_mdc ta"
    and xs: "\<And>r e. (r, e) \<in> set (ipv6_reads xs) \<Longrightarrow> udp_read r \<and> sees_group A L e \<and> no_send_fails e"
  shows "\<exists>ps. tx_loop_forever (init_tx (max_addrs A) mtu) bia ta xs = Some (ps, \<not> (\<forall>x \<in> set xs. read_ok (fst x))) \<and>
    list_all2 (\<lambda>x s. delivered L bia (fst x) s) (ipv6_reads xs) ps"
proof -
  let ?f = "tx_read (init_tx (max_addrs A) mtu) bia ta"
  have ok: "\<exists>s. ?f x = Some s \<and> delivered L bia (fst x) s" if "x \<in> set (ipv6_reads xs)" for x
    using tx_read_delivers [OF fd, of A L "snd x" "fst x" mtu bia] xs [of "fst x" "snd x"] that by simp
  have "tx_loop_forever (init_tx (max_addrs A) mtu) bia ta xs =
      Some (map (\<lambda>x. the (?f x)) (ipv6_reads xs), \<not> (\<forall>x \<in> set xs. read_ok (fst x)))"
    by (rule tx_loop_forever_ok) (use ok in force)
  moreover have "list_all2 (\<lambda>x s. delivered L bia (fst x) s) (ipv6_reads xs) (map (\<lambda>x. the (?f x)) (ipv6_reads xs))"
    unfolding list.rel_map by (rule list.rel_refl_strong) (use ok in force)
  ultimately show ?thesis by blast
qed

end
