(* ===== verification/Example.thy ===== *)
theory Example
  imports Sending
begin

text \<open>
  A concrete state on which the properties of the components are evaluated: the sender with one
  receiver of its own, and one router, two hops away, with two receivers.
\<close>


section \<open>The state\<close>

definition ex_sa :: "in6_addr \<Rightarrow> sockaddr_in6" where
  "ex_sa a = \<lparr>sin6_family = AF_INET6, sin6_port = 0, sin6_addr = a\<rparr>"

definition ex_leaf :: "in6_addr \<Rightarrow> ptr \<Rightarrow> ptr \<Rightarrow> leaf" where
  "ex_leaf a p n = \<lparr>leaf_node = \<lparr>node_parent = p, node_type = LEAF_NODE\<rparr>,
     leaf_val = \<lparr>rcvr_addr = \<lparr>addr_sa = ex_sa a, addr_port = 9\<rparr>, rcvr_hops = 0, rcvr_next = n\<rparr>\<rparr>"

definition ex_router :: "in6_addr \<Rightarrow> ptr \<Rightarrow> size_t \<Rightarrow> ptr \<Rightarrow> size_t \<Rightarrow> ptr \<Rightarrow> size_t \<Rightarrow> router" where
  "ex_router a p hops c nc l nl = \<lparr>router_node = \<lparr>node_parent = p, node_type = ROUTER_NODE\<rparr>,
     router_sa = ex_sa a, router_hops = hops, router_child = c, router_leaf = l,
     router_nchild = nc, router_fchild = nc, router_nleaf = nl, router_fleaf = nl\<rparr>"

definition ex_heap :: heap where
  "ex_heap = \<lparr>
     cells = [10 \<mapsto> \<lparr>child_v = 3, child_n = 11\<rparr>, 11 \<mapsto> \<lparr>child_v = 4, child_n = 0\<rparr>,
       12 \<mapsto> \<lparr>child_v = 5, child_n = 0\<rparr>, 13 \<mapsto> \<lparr>child_v = 2, child_n = 0\<rparr>],
     leafs = [3 \<mapsto> ex_leaf 103 2 4, 4 \<mapsto> ex_leaf 104 2 5, 5 \<mapsto> ex_leaf 105 1 0],
     routers = [1 \<mapsto> ex_router 101 0 0 13 1 12 1, 2 \<mapsto> ex_router 102 1 2 0 0 10 2],
     hdrs = Map.empty, brk = 14\<rparr>"

definition ex_view :: view where
  "ex_view = (\<lambda>kr. if kr = (Leaf, 1) then [(12, 5)] else if kr = (Kid, 1) then [(13, 2)]
     else if kr = (Leaf, 2) then [(10, 3), (11, 4)] else [])"

definition ex_table :: "(in6_addr \<times> ptr) list" where
  "ex_table = [(101, 1), (102, 2), (103, 3), (104, 4), (105, 5)]"

definition ex_group :: "(in6_addr \<times> ptr) list group" where
  "ex_group = \<lparr>g_ht = ex_table, g_root = 1, g_rcvr = 3, g_nrcvr = 3, g_txg = None\<rparr>"


section \<open>It is well formed\<close>

lemma ex_routers: "routers ex_heap r = (if r = 1 then Some (ex_router 101 0 0 13 1 12 1)
    else if r = 2 then Some (ex_router 102 1 2 0 0 10 2) else None)"
  by (simp add: ex_heap_def)

lemma ex_leafs: "leafs ex_heap l = (if l = 3 then Some (ex_leaf 103 2 4)
    else if l = 4 then Some (ex_leaf 104 2 5) else if l = 5 then Some (ex_leaf 105 1 0) else None)"
  by (simp add: ex_heap_def)

lemma ex_cells: "cells ex_heap = [10 \<mapsto> \<lparr>child_v = 3, child_n = 11\<rparr>, 11 \<mapsto> \<lparr>child_v = 4, child_n = 0\<rparr>,
    12 \<mapsto> \<lparr>child_v = 5, child_n = 0\<rparr>, 13 \<mapsto> \<lparr>child_v = 2, child_n = 0\<rparr>]"
  by (simp add: ex_heap_def)

lemma ex_par: "par ex_heap x = (if x = 3 \<or> x = 4 then 2 else if x = 5 \<or> x = 2 then 1 else 0)"
  by (simp add: par_def get_node_def ex_leafs ex_routers ex_leaf_def ex_router_def)

lemma ex_node_ok: "node_ok ex_heap"
  unfolding node_ok_def ex_leafs ex_routers
  by (auto simp: ex_leaf_def ex_router_def ex_heap_def)

lemma ex_rlist: "rlist ex_heap (k, r) = (case k of
    Kid \<Rightarrow> if r = 1 then Some \<lparr>lh_l = 13, lh_n = 1, lh_f = 1\<rparr> else if r = 2 then Some \<lparr>lh_l = 0, lh_n = 0, lh_f = 0\<rparr> else None
  | Leaf \<Rightarrow> if r = 1 then Some \<lparr>lh_l = 12, lh_n = 1, lh_f = 1\<rparr> else if r = 2 then Some \<lparr>lh_l = 10, lh_n = 2, lh_f = 2\<rparr> else None)"
  by (cases k) (simp_all add: rlist_def ex_routers ex_router_def child_list_def leaf_list_def)

lemma ex_has: "has ex_heap k v \<longleftrightarrow> (case k of Kid \<Rightarrow> v = 1 \<or> v = 2 | Leaf \<Rightarrow> v = 3 \<or> v = 4 \<or> v = 5)"
  by (cases k) (simp_all add: ex_leafs ex_routers)

lemma ex_repr: "repr ex_heap ex_view"
  unfolding repr_def
proof (intro conjI allI impI)
  show "node_ok ex_heap" by (rule ex_node_ok)
next
  fix kr l
  assume l: "rlist ex_heap kr = Some l"
  obtain k r where kr: "kr = (k, r)" by (cases kr)
  from l show "list_ok (cells ex_heap) l (ex_view kr)"
    unfolding kr by (cases k) (auto simp: ex_rlist list_ok_def ex_view_def ex_cells split: if_splits)
next
  fix kr
  assume "rlist ex_heap kr = None"
  then show "ex_view kr = []" by (cases kr; cases "fst kr") (auto simp: ex_rlist ex_view_def split: if_splits)
next
  fix k r c v
  assume "(c, v) \<in> set (ex_view (k, r))"
  then show "has ex_heap k v" "par ex_heap v = r"
    by (auto simp: ex_view_def ex_has ex_par split: if_splits)
next
  fix k v
  assume "has ex_heap k v \<and> par ex_heap v \<noteq> NULL"
  then show "v \<in> snd ` set (ex_view (k, par ex_heap v))"
    by (cases k) (auto simp: ex_view_def ex_leafs ex_routers ex_par image_iff split: if_splits)
qed

lemma ex_edges: "kid_edges ex_view = {(1, 2)}"
  by (auto simp: kid_edges_def ex_view_def split: if_splits)

lemma ex_topo: "topo_ok ex_heap ex_view 1"
proof -
  have "all_free ex_heap ex_view"
    unfolding all_free_def
    by (auto simp: free_of_def ex_rlist ex_view_def split: kind.splits)
  moreover have "acyclic (kid_edges ex_view)" by (simp add: ex_edges acyclic_insert) (simp add: acyclic_def)
  ultimately show ?thesis
    using ex_repr unfolding topo_ok_def
    by (auto simp: ex_routers ex_leafs ex_par split: if_splits)
qed

lemma ex_hops_at: "hops_at ex_heap r = (if r = 2 then 2 else 0)"
  by (simp add: hops_at_def rdata_def ex_routers ex_router_def)

lemma ex_hops: "hops_mono ex_heap ex_view 1" "strict_hops ex_heap ex_view" "no_dead ex_view"
  by (simp_all add: hops_mono_def strict_hops_def no_dead_def ex_edges ex_hops_at)
    (simp add: ex_view_def)

lemma ex_addr: "addr_of ex_heap x = (if x = 1 then Some 101 else if x = 2 then Some 102
    else if x = 3 then Some 103 else if x = 4 then Some 104 else if x = 5 then Some 105 else None)"
  by (simp add: addr_of_def rdata_def ldata_def ex_routers ex_leafs ex_router_def ex_leaf_def ex_sa_def)

lemma ex_jhsg: "jhsg alist_judy ex_table = [101 \<mapsto> 1, 102 \<mapsto> 2, 103 \<mapsto> 3, 104 \<mapsto> 4, 105 \<mapsto> 5]"
  by (simp add: alist_judy_def ex_table_def fun_eq_iff)

lemma ex_table_ok: "table_ok alist_judy ex_table ex_heap"
  unfolding table_ok_def ex_jhsg ex_addr by auto

lemma ex_group_ok: "group_ok alist_judy ex_group ex_heap ex_view"
  unfolding group_ok_def
  using ex_topo ex_hops ex_table_ok
  by (auto simp: ex_group_def ex_leafs ex_leaf_def intro!: exI [of _ "[3, 4, 5]"])



section \<open>The discovery thread\<close>

definition ex_args :: arguments where
  "ex_args = \<lparr>tifname = Some ''tun1'', bifname = Some ''eth0'', taddr = 200, baddr = 101, bport = 9999,
     pport = 9, peers = NULL,
     dcvr_int = \<lparr>it_interval = \<lparr>tv_sec = 5, tv_nsec = 0\<rparr>, it_value = \<lparr>tv_sec = 5, tv_nsec = 0\<rparr>\<rparr>,
     dcvr_tout = \<lparr>it_interval = \<lparr>tv_sec = 2, tv_nsec = 0\<rparr>, it_value = \<lparr>tv_sec = 0, tv_nsec = 0\<rparr>\<rparr>,
     dcvr_wait = False, max_addrs = 10, ok_addrs = 8, min_leafs = 2, min_routers = 1,
     split_nodes = False, merge_range = 0, print_tree = False, print_txg = False\<rparr>"

definition ex_conf :: dx_conf where
  "ex_conf = \<lparr>tint_fd = 5, tout_fd = 6, tint_ts = Some \<lparr>tv_sec = 5, tv_nsec = 0\<rparr>,
     tout_ts = Some \<lparr>tv_sec = 2, tv_nsec = 0\<rparr>\<rparr>"

text \<open>The timers as the thread starts them with the default arguments.\<close>

definition ex_timers :: timers where
  "ex_timers = [5 \<mapsto> \<lparr>it_interval = \<lparr>tv_sec = 5, tv_nsec = 0\<rparr>, it_value = \<lparr>tv_sec = 5, tv_nsec = 0\<rparr>\<rparr>,
     6 \<mapsto> \<lparr>it_interval = \<lparr>tv_sec = 2, tv_nsec = 0\<rparr>, it_value = \<lparr>tv_sec = 0, tv_nsec = 0\<rparr>\<rparr>]"

definition ex_dx :: "(in6_addr \<times> ptr) list dx" where
  "ex_dx = \<lparr>dx_g = ex_group, dx_h = ex_heap, dx_ms = reset_merging_stats, dx_tm = ex_timers, dx_n = 1\<rparr>"

text \<open>A response of a new router, one hop away, about the receiver 105.\<close>

definition ex_dgram :: dgram where
  "ex_dgram = \<lparr>dg_ret = 32, dg_src = ex_sa 106, dg_hdr =
     \<lparr>mdc_rthdr = \<lparr>ip6r_nxt = 59, ip6r_len = 3, ip6r_type = 253, ip6r_segleft = 0\<rparr>,
      mdc_flags = 0x701, mdc_dlvm = 0, mdc_rtm = 0, mdc_addr = [105]\<rparr>\<rparr>"

lemma ex_args_ok: "args_ok ex_args" "gg_max ex_args = 10" "2 \<le> max_addrs ex_args"
  by (simp_all add: args_ok_def ex_args_def gg_max_def BITMAP_LIMIT_def)

lemma ex_conf_ok: "conf_ok ex_conf"
  by (simp add: conf_ok_def ex_conf_def timespec_ok_def zero_ts_def)

lemma ex_timers_ok: "timers_ok ex_conf ex_timers"
  by (simp add: timers_ok_def timer_of_def armed_def ex_conf_def ex_timers_def zero_ts_def)

lemma ex_dx_ok: "dx_ok alist_judy ex_conf ex_dx"
  using ex_group_ok ex_timers_ok by (auto simp: dx_ok_def ex_dx_def)

lemma ex_response_ok: "response_ok alist_judy ex_dgram ex_dx"
  by (simp add: response_ok_def ex_dgram_def ex_dx_def ex_group_def ex_sa_def ex_jhsg)

lemma ex_wellformed: "rsp_wellformed ex_dgram"
  by (simp add: rsp_wellformed_def ex_dgram_def get_mdc_hdr_size_eq IPV6_MEADCAST_def IPPROTO_NONE_def
      hdr_dcv_def hdr_rsp_def hdr_hops_def hdr_dsts_def)

text \<open>A UDP segment of 10 bytes: the ports 9 and 9, the length and two bytes of data.\<close>

definition ex_payload :: "uint8 list" where
  "ex_payload = [0, 9, 0, 9, 0, 10, 0, 0, 1, 2]"

definition ex_ip :: ipv6hdr where
  "ex_ip = \<lparr>ip_vtcfl = 0x60000000, ip_payload_len = 10, ip_nexthdr = 17, ip_hop_limit = 64,
     ip_saddr = 101, ip_daddr = 200\<rparr>"

lemma ex_payload_ok: "udp_len_ok ex_payload 10"
  by (simp add: udp_len_ok_def ex_payload_def load16_def)



section \<open>The sending thread\<close>

text \<open>The packet as it is read, and the group that sends to the three receivers by unicast.\<close>

definition ex_read :: tun_read where
  "ex_read = \<lparr>tr_ret = 54, tr_proto = 0x86DD, tr_ip = ex_ip, tr_pl = ex_payload\<rparr>"

definition ex_txg :: tx_group where
  "ex_txg = \<lparr>txg_mdc = NULL, txg_nuni = 3, txg_uni = rcvr_addrs ex_heap [3, 4, 5]\<rparr>"

definition ex_env :: "(in6_addr \<times> ptr) list tx_env" where
  "ex_env = \<lparr>te_group = ex_group\<lparr>g_txg := Some ex_txg\<rparr>, te_heap = ex_heap, te_ures = \<lambda>_. 1, te_mres = \<lambda>_. 1\<rparr>"

lemma ex_read_ok: "udp_read ex_read" "is_ipv6 ex_read" "read_ok ex_read" "first_input ex_args ex_read"
  using ex_payload_ok
  by (simp_all add: udp_read_def is_ipv6_def read_ok_def first_input_def ex_read_def ex_ip_def IPPROTO_UDP_def ETH_P_IPV6_def
      ex_args_def)

lemma ex_txg_serves: "txg_serves ex_heap (gg_max ex_args) ex_txg [] [3, 4, 5]"
  by (auto simp: txg_serves_def ex_txg_def ex_leafs)

lemma ex_env_ok: "sees_group ex_args (ldata ex_heap) ex_env" "no_send_fails ex_env"
proof -
  have "get_txg (te_group ex_env) = Some ex_txg" "intact ex_heap (te_heap ex_env) ex_txg"
    by (simp_all add: ex_env_def get_txg_def intact_def ex_txg_def)
  then show "sees_group ex_args (ldata ex_heap) ex_env"
    using ex_txg_serves unfolding sees_group_def by (auto simp: ex_env_def)
qed (simp add: no_send_fails_def ex_env_def)

end
