(* ===== verification/System.thy ===== *)
theory System
  imports Memory Args
begin

text \<open>
  The set-up of the network, \<open>tun.c\<close> and the socket part of \<open>core.c\<close>, and the system calls it makes.

  The operating system is a parameter: \<open>os_ret n\<close> is the return value of the call number \<open>n\<close>, and
  \<open>os_name n\<close> and \<open>os_val n\<close> are the interface name and the number that it stores for the caller,
  when it stores one. The state holds the calls made so far, the last one first, and the
  descriptors that are open. Calls that only print are left out.
\<close>


section \<open>System calls\<close>

datatype syscall =
    Open string
  | Socket int int int
  | Tunsetiff int string
  | Sifflags int string
  | Gifmtu int string
  | Sifmtu int string int
  | Gifindex int string
  | Addrt int in6_addr nat int
  | Bindtodevice int string
  | Bind int sockaddr_in6
  | Epoll_create nat
  | Epoll_add int int
  | Timerfd_create
  | Close int

record os =
  os_ret :: "nat \<Rightarrow> int"
  os_name :: "nat \<Rightarrow> string"
  os_val :: "nat \<Rightarrow> int"

record sys =
  sys_log :: "syscall list"
  sys_open :: "int list"

definition sys_next :: "sys \<Rightarrow> nat" where
  "sys_next s = length (sys_log s)"

definition sys_call :: "os \<Rightarrow> syscall \<Rightarrow> sys \<Rightarrow> int \<times> sys" where
  "sys_call os c s = (os_ret os (sys_next s), s\<lparr>sys_log := c # sys_log s\<rparr>)"

text \<open>A call that returns a new descriptor, or a negative number.\<close>

definition sys_fd :: "os \<Rightarrow> syscall \<Rightarrow> sys \<Rightarrow> int \<times> sys" where
  "sys_fd os c s =
     (let (fd, s) = sys_call os c s
      in (fd, if fd < 0 then s else s\<lparr>sys_open := fd # sys_open s\<rparr>))"

definition sys_close :: "int \<Rightarrow> sys \<Rightarrow> sys" where
  "sys_close fd s = s\<lparr>sys_log := Close fd # sys_log s, sys_open := remove1 fd (sys_open s)\<rparr>"

definition AF_INET6_dom :: int where "AF_INET6_dom = 10"
definition SOCK_DGRAM :: int where "SOCK_DGRAM = 2"
definition SOCK_RAW :: int where "SOCK_RAW = 3"
definition IPPROTO_ROUTING :: int where "IPPROTO_ROUTING = 43"
definition IPPROTO_RAW :: int where "IPPROTO_RAW = 255"
definition MIN_IPV6_MTU :: int where "MIN_IPV6_MTU = 1280"

text \<open>What \<open>strncpy\<close> stores of a string in the \<open>IFNAMSIZ\<close> bytes of a name.\<close>

definition ifr_name :: "string \<Rightarrow> string" where
  "ifr_name dev = take 16 dev"


section \<open>The TUN device\<close>

text \<open>\<open>dev\<close> is overwritten with the name of the new device; the second result is what it holds then.\<close>

definition tun_alloc :: "os \<Rightarrow> string \<Rightarrow> sys \<Rightarrow> int \<times> string \<times> sys" where
  "tun_alloc os dev s =
     (let (fd, s) = sys_fd os (Open ''/dev/net/tun'') s
      in if fd < 0 then (fd, dev, s)
         else
           let n = sys_next s;
               (ret, s) = sys_call os (Tunsetiff fd (if dev \<noteq> [] then ifr_name dev else [])) s
           in if ret < 0 then (ret, dev, sys_close fd s)
              else (fd, ifr_name (os_name os n), s))"

definition tun_up :: "os \<Rightarrow> string \<Rightarrow> int \<Rightarrow> sys \<Rightarrow> int \<times> sys" where
  "tun_up os dev mtu s =
     (let (fd, s) = sys_fd os (Socket AF_INET6_dom SOCK_DGRAM 0) s
      in if fd < 0 then (fd, s)
         else
           let (_, s) = sys_call os (Sifflags fd (ifr_name dev)) s;
               ifr_mtu = (if mtu < MIN_IPV6_MTU then MIN_IPV6_MTU else mtu);
               (ret, s) = sys_call os (Sifmtu fd (ifr_name dev) ifr_mtu) s;
               ret = (if ret < 0 then ret else ifr_mtu)
           in (ret, sys_close fd s))"

definition tun_setroute :: "os \<Rightarrow> string \<Rightarrow> in6_addr \<Rightarrow> sys \<Rightarrow> int \<times> sys" where
  "tun_setroute os dev ia s =
     (let (fd, s) = sys_fd os (Socket AF_INET6_dom SOCK_DGRAM 0) s
      in if fd < 0 then (fd, s)
         else
           let n = sys_next s;
               (ret, s) = sys_call os (Gifindex fd (ifr_name dev)) s
           in if ret < 0 then (ret, sys_close fd s)
              else
                let (ret, s) = sys_call os (Addrt fd ia 128 (os_val os n)) s
                in (ret, sys_close fd s))"

definition init_tun :: "os \<Rightarrow> string \<Rightarrow> in6_addr \<Rightarrow> int \<Rightarrow> sys \<Rightarrow> int \<times> string \<times> sys" where
  "init_tun os dev ia mtu s =
     (let (fd, dev, s) = tun_alloc os dev s
      in if fd < 0 then (fd, dev, s)
         else
           let (ret, s) = tun_up os dev mtu s
           in if ret < 0 then (ret, dev, sys_close fd s)
              else
                let (ret, s) = tun_setroute os dev ia s
                in if ret < 0 then (ret, dev, sys_close fd s) else (fd, dev, s))"


section \<open>The sockets\<close>

text \<open>The socket is closed on no path.\<close>

definition get_mtu :: "os \<Rightarrow> string \<Rightarrow> sys \<Rightarrow> int \<times> sys" where
  "get_mtu os dev s =
     (let (fd, s) = sys_fd os (Socket AF_INET6_dom SOCK_DGRAM 0) s
      in if fd < 0 then (fd, s)
         else
           let n = sys_next s;
               (ret, s) = sys_call os (Gifmtu fd (ifr_name dev)) s
           in if ret < 0 then (ret, s) else (os_val os n, s))"

record fds =
  fd_tun :: int
  fd_mdc :: int
  fd_ip6 :: int

text \<open>
  The part of \<open>init_fds\<close> behind the creation of the sockets: the calls whose failure jumps to
  \<open>close_ip6\<close>.
\<close>

definition bind_fds :: "os \<Rightarrow> fds \<Rightarrow> string \<Rightarrow> sockaddr_in6 \<Rightarrow> sys \<Rightarrow> int \<times> sys" where
  "bind_fds os f bif sa s =
     (let (ret, s) = sys_call os (Bindtodevice (fd_ip6 f) (ifr_name bif)) s
      in if ret < 0 then (ret, s)
         else let (ret, s) = sys_call os (Bindtodevice (fd_mdc f) (ifr_name bif)) s
         in if ret < 0 then (ret, s)
         else let (ret, s) = sys_call os (Bind (fd_mdc f) sa) s
         in if ret < 0 then (ret, s)
         else let (ret, s) = sys_call os (Bind (fd_ip6 f) sa) s
         in if ret < 0 then (ret, s)
         else (0, s))"

text \<open>
  \<open>init_fds\<close> returns its result, the MTU, the name of the TUN device and the descriptors; those are
  \<open>None\<close> where they have not all been written.
\<close>

definition init_fds ::
    "os \<Rightarrow> size_t \<Rightarrow> string \<Rightarrow> string \<Rightarrow> in6_addr \<Rightarrow> addr \<Rightarrow> sys \<Rightarrow>
     int \<times> size_t \<times> string \<times> fds option \<times> sys" where
  "init_fds os mx tif bif ta ba s =
     (let (ret, s) = get_mtu os bif s
      in if ret < 0 then (ret, 0, tif, None, s)
         else let mtu = nat ret;
                  tif_mtu = size_sub mtu (get_mdc_hdr_size mx);
                  (tun, tif, s) = init_tun os tif ta (int_of_size tif_mtu) s
         in if tun < 1 then (tun, mtu, tif, None, s)
         else let (mdc, s) = sys_fd os (Socket AF_INET6_dom SOCK_RAW IPPROTO_ROUTING) s
         in if mdc < 0 then (mdc, mtu, tif, None, sys_close tun s)
         else let (ip6, s) = sys_fd os (Socket AF_INET6_dom SOCK_RAW IPPROTO_RAW) s
         in if ip6 < 0 then (ip6, mtu, tif, None, sys_close tun (sys_close mdc s))
         else let f = \<lparr>fd_tun = tun, fd_mdc = mdc, fd_ip6 = ip6\<rparr>;
                  (ret, s) = bind_fds os f bif (addr_sa ba) s
         in if ret < 0 then (ret, mtu, tif, Some f, sys_close tun (sys_close mdc (sys_close ip6 s)))
         else (0, mtu, tif, Some f, s))"


section \<open>Descriptors\<close>

text \<open>A function that fails leaves the descriptors open that it found open.\<close>

lemma sys_close_open [simp]:
  "sys_open (sys_close fd s) = remove1 fd (sys_open s)" "sys_log (sys_close fd s) = Close fd # sys_log s"
  by (simp_all add: sys_close_def)

lemma sys_call_cases: "\<exists>s'. sys_call os c s = (os_ret os (sys_next s), s') \<and> sys_open s' = sys_open s \<and> sys_log s' = c # sys_log s"
  by (simp add: sys_call_def)

lemma tun_alloc_fds:
  assumes "tun_alloc os dev s = (fd, dev', s')"
  shows "sys_open s' = (if fd < 0 then sys_open s else fd # sys_open s)"
  using assms by (auto simp: tun_alloc_def sys_fd_def sys_call_def split: if_splits prod.splits)

lemma tun_up_fds: "tun_up os dev mtu s = (ret, s') \<Longrightarrow> sys_open s' = sys_open s"
  by (auto simp: tun_up_def sys_fd_def sys_call_def split: if_splits prod.splits)

lemma tun_setroute_fds: "tun_setroute os dev ia s = (ret, s') \<Longrightarrow> sys_open s' = sys_open s"
  by (auto simp: tun_setroute_def sys_fd_def sys_call_def split: if_splits prod.splits)

lemma init_tun_fds:
  assumes "init_tun os dev ia mtu s = (fd, dev', s')"
  shows "sys_open s' = (if fd < 0 then sys_open s else fd # sys_open s)"
proof -
  obtain fd1 dev1 s1 where 1: "tun_alloc os dev s = (fd1, dev1, s1)" by (cases "tun_alloc os dev s") auto
  obtain r2 s2 where 2: "tun_up os dev1 mtu s1 = (r2, s2)" by (cases "tun_up os dev1 mtu s1")
  obtain r3 s3 where 3: "tun_setroute os dev1 ia s2 = (r3, s3)" by (cases "tun_setroute os dev1 ia s2")
  show ?thesis
    using assms tun_alloc_fds [OF 1] tun_up_fds [OF 2] tun_setroute_fds [OF 3]
    by (auto simp: init_tun_def 1 2 3 split: if_splits)
qed

lemma get_mtu_fds:
  assumes "get_mtu os dev s = (ret, s')"
  shows "\<exists>leak. sys_open s' = leak @ sys_open s \<and> length leak \<le> 1 \<and> (0 \<le> ret \<longrightarrow> length leak = 1)"
  using assms by (auto simp: get_mtu_def sys_fd_def sys_call_def split: if_splits prod.splits)

lemma bind_fds_fds: "bind_fds os f bif sa s = (ret, s') \<Longrightarrow> sys_open s' = sys_open s"
  by (auto simp: bind_fds_def sys_call_def split: if_splits prod.splits)


lemma init_fds_fds:
  assumes "init_fds os mx tif bif ta ba s = (ret, mtu, tif', f, s')"
  shows "\<exists>leak. length leak \<le> 1 \<and> sys_open s' =
    (case f of
       None \<Rightarrow> if ret = 0 then 0 # leak @ sys_open s else leak @ sys_open s
     | Some f \<Rightarrow> if ret = 0 then fd_ip6 f # fd_mdc f # fd_tun f # leak @ sys_open s else leak @ sys_open s)"
proof -
  obtain r1 s1 where 1: "get_mtu os bif s = (r1, s1)" by (cases "get_mtu os bif s")
  obtain leak where l: "sys_open s1 = leak @ sys_open s" "length leak \<le> 1"
    using get_mtu_fds [OF 1] by blast
  let ?m = "int_of_size (size_sub (nat r1) (get_mdc_hdr_size mx))"
  obtain tun tif2 s2 where 2: "init_tun os tif ta ?m s1 = (tun, tif2, s2)" by (cases "init_tun os tif ta ?m s1") auto
  obtain mdc s3 where 3: "sys_fd os (Socket AF_INET6_dom SOCK_RAW IPPROTO_ROUTING) s2 = (mdc, s3)"
    by (cases "sys_fd os (Socket AF_INET6_dom SOCK_RAW IPPROTO_ROUTING) s2")
  obtain ip6 s4 where 4: "sys_fd os (Socket AF_INET6_dom SOCK_RAW IPPROTO_RAW) s3 = (ip6, s4)"
    by (cases "sys_fd os (Socket AF_INET6_dom SOCK_RAW IPPROTO_RAW) s3")
  let ?f = "\<lparr>fd_tun = tun, fd_mdc = mdc, fd_ip6 = ip6\<rparr>"
  obtain r5 s5 where 5: "bind_fds os ?f bif (addr_sa ba) s4 = (r5, s5)"
    by (cases "bind_fds os ?f bif (addr_sa ba) s4")
  have "sys_open s3 = (if mdc < 0 then sys_open s2 else mdc # sys_open s2)"
    "sys_open s4 = (if ip6 < 0 then sys_open s3 else ip6 # sys_open s3)"
    using 3 4 by (auto simp: sys_fd_def sys_call_def Let_def)
  then show ?thesis
    using assms l init_tun_fds [OF 2] bind_fds_fds [OF 5]
    by (intro exI [of _ leak]) (auto simp: init_fds_def 1 2 3 4 5 Let_def split: if_splits)
qed


section \<open>The calls of a successful set-up\<close>

lemma sys_call_log: "sys_call os c s = (r, s') \<Longrightarrow> sys_log s' = c # sys_log s"
  by (auto simp: sys_call_def)

lemma sys_fd_log: "sys_fd os c s = (r, s') \<Longrightarrow> sys_log s' = c # sys_log s"
  by (auto simp: sys_fd_def sys_call_def Let_def)

lemma tun_up_log:
  assumes "tun_up os dev mtu s = (ret, s')" and "0 \<le> ret"
  shows "ret = max MIN_IPV6_MTU mtu \<and> (\<exists>fd. Sifmtu fd (ifr_name dev) ret \<in> set (sys_log s')) \<and>
    set (sys_log s) \<subseteq> set (sys_log s')"
  using assms by (auto simp: tun_up_def sys_fd_def sys_call_def max_def split: if_splits prod.splits)

lemma tun_setroute_log:
  assumes "tun_setroute os dev ia s = (ret, s')" and "0 \<le> ret"
  shows "(\<exists>fd i. Addrt fd ia 128 i \<in> set (sys_log s')) \<and> set (sys_log s) \<subseteq> set (sys_log s')"
  using assms by (auto simp: tun_setroute_def sys_fd_def sys_call_def split: if_splits prod.splits) blast

lemma bind_fds_log:
  assumes "bind_fds os f bif sa s = (ret, s')" and "0 \<le> ret"
  shows "ret = 0 \<and> {Bindtodevice (fd_ip6 f) (ifr_name bif), Bindtodevice (fd_mdc f) (ifr_name bif),
      Bind (fd_mdc f) sa, Bind (fd_ip6 f) sa} \<union> set (sys_log s) \<subseteq> set (sys_log s')"
  using assms by (auto simp: bind_fds_def sys_call_def split: if_splits prod.splits)

lemma init_tun_log:
  assumes "init_tun os dev ia mtu s = (fd, dev', s')" and "0 \<le> fd"
  shows "(\<exists>sk. Sifmtu sk (ifr_name dev') (max MIN_IPV6_MTU mtu) \<in> set (sys_log s')) \<and>
    (\<exists>sk i. Addrt sk ia 128 i \<in> set (sys_log s'))"
proof -
  obtain fd1 dev1 s1 where 1: "tun_alloc os dev s = (fd1, dev1, s1)" by (cases "tun_alloc os dev s") auto
  obtain r2 s2 where 2: "tun_up os dev1 mtu s1 = (r2, s2)" by (cases "tun_up os dev1 mtu s1")
  obtain r3 s3 where 3: "tun_setroute os dev1 ia s2 = (r3, s3)" by (cases "tun_setroute os dev1 ia s2")
  have r: "0 \<le> r2" "0 \<le> r3" "dev' = dev1" "s' = s3"
    using assms by (auto simp: init_tun_def 1 2 3 split: if_splits)
  show ?thesis
    using tun_up_log [OF 2 r(1)] tun_setroute_log [OF 3 r(2)] unfolding r(3,4) by blast
qed

lemma init_fds_log:
  assumes "init_fds os mx tif bif ta ba s = (0, mtu, tif', Some f, s')"
  shows "{Bindtodevice (fd_ip6 f) (ifr_name bif), Bindtodevice (fd_mdc f) (ifr_name bif),
      Bind (fd_mdc f) (addr_sa ba), Bind (fd_ip6 f) (addr_sa ba)} \<subseteq> set (sys_log s') \<and>
    (\<exists>sk. Sifmtu sk (ifr_name tif') (max MIN_IPV6_MTU (int_of_size (size_sub mtu (get_mdc_hdr_size mx)))) \<in>
      set (sys_log s')) \<and>
    (\<exists>sk i. Addrt sk ta 128 i \<in> set (sys_log s')) \<and> 1 \<le> fd_tun f \<and> 0 \<le> fd_mdc f \<and> 0 \<le> fd_ip6 f"
proof -
  obtain r1 s1 where 1: "get_mtu os bif s = (r1, s1)" by (cases "get_mtu os bif s")
  let ?m = "int_of_size (size_sub (nat r1) (get_mdc_hdr_size mx))"
  obtain tun tif2 s2 where 2: "init_tun os tif ta ?m s1 = (tun, tif2, s2)" by (cases "init_tun os tif ta ?m s1") auto
  obtain mdc s3 where 3: "sys_fd os (Socket AF_INET6_dom SOCK_RAW IPPROTO_ROUTING) s2 = (mdc, s3)"
    by (cases "sys_fd os (Socket AF_INET6_dom SOCK_RAW IPPROTO_ROUTING) s2")
  obtain ip6 s4 where 4: "sys_fd os (Socket AF_INET6_dom SOCK_RAW IPPROTO_RAW) s3 = (ip6, s4)"
    by (cases "sys_fd os (Socket AF_INET6_dom SOCK_RAW IPPROTO_RAW) s3")
  let ?f = "\<lparr>fd_tun = tun, fd_mdc = mdc, fd_ip6 = ip6\<rparr>"
  obtain r5 s5 where 5: "bind_fds os ?f bif (addr_sa ba) s4 = (r5, s5)"
    by (cases "bind_fds os ?f bif (addr_sa ba) s4")
  have r: "0 \<le> r1" "1 \<le> tun" "0 \<le> mdc" "0 \<le> ip6" "0 \<le> r5" "f = ?f" "mtu = nat r1" "tif' = tif2" "s' = s5"
    using assms by (auto simp: init_fds_def 1 2 3 4 5 Let_def split: if_splits)
  have "set (sys_log s2) \<subseteq> set (sys_log s4)" using sys_fd_log [OF 3] sys_fd_log [OF 4] by auto
  then show ?thesis
    using init_tun_log [OF 2] bind_fds_log [OF 5 r(5)] r(2-4) unfolding r(6-9) by auto
qed

end
