(* ===== verification/Parse.thy ===== *)
theory Parse
  imports Args
begin

text \<open>
  The parser of the command line, \<open>argp.c\<close>: \<open>parse_opt\<close>, which glibc's \<open>argp_parse\<close> calls once per
  option and positional argument and once more at the end, the functions it uses, and the defaults.

  A result is \<open>None\<close> where the behaviour is undefined, \<open>Inl\<close> with a status where the process exits,
  and \<open>Inr\<close> otherwise. All exits are those of \<open>argp_failure\<close>, whose status is 1. Two things are
  parameters: \<open>pton\<close>, the function \<open>inet_pton\<close> of the C library for IPv6 addresses (\<open>None\<close> is the
  result 0), and \<open>junk\<close>, what is in the member \<open>n\<close> of a \<open>struct paddr\<close> that \<open>malloc\<close> returned.
\<close>


section \<open>Exits and numbers\<close>

definition attempt :: "('e + 'a) option \<Rightarrow> ('a \<Rightarrow> ('e + 'b) option) \<Rightarrow> ('e + 'b) option" where
  "attempt m f = (case m of
     None \<Rightarrow> None
   | Some (Inl e) \<Rightarrow> Some (Inl e)
   | Some (Inr x) \<Rightarrow> f x)"

lemma attempt_simps [simp]:
  "attempt None f = None"
  "attempt (Some (Inl e)) f = Some (Inl e)"
  "attempt (Some (Inr x)) f = f x"
  by (simp_all add: attempt_def)

text \<open>\<open>atoi\<close> of the C library; it is undefined on numbers that are no \<open>int\<close>.\<close>

definition is_space :: "char \<Rightarrow> bool" where
  "is_space c = (let n = of_char c :: nat in n = 32 \<or> 9 \<le> n \<and> n \<le> 13)"

definition digit_of :: "char \<Rightarrow> int option" where
  "digit_of c = (let n = of_char c :: nat in if 48 \<le> n \<and> n \<le> 57 then Some (int n - 48) else None)"

fun digits :: "int \<Rightarrow> string \<Rightarrow> int" where
  "digits v [] = v"
| "digits v (c # cs) = (case digit_of c of None \<Rightarrow> v | Some d \<Rightarrow> digits (10 * v + d) cs)"

definition atoi :: "string \<Rightarrow> int option" where
  "atoi s =
     (let s = dropWhile is_space s;
          v = (case s of
             [] \<Rightarrow> 0
           | c # cs \<Rightarrow>
               if c = CHR ''-'' then - digits 0 cs
               else if c = CHR ''+'' then digits 0 cs
               else digits 0 s)
      in if - (2 ^ 31) \<le> v \<and> v < 2 ^ 31 then Some v else None)"


section \<open>Operations\<close>

definition IFNAMSIZ :: nat where "IFNAMSIZ = 16"
definition ARGP_ERR_UNKNOWN :: int where "ARGP_ERR_UNKNOWN = 7"

record argp_state =
  as_argc :: int
  as_next :: int

record peer_mem =
  pm :: "ptr \<Rightarrow> paddr option"
  pm_brk :: ptr

definition parse_if :: "string \<Rightarrow> (int + string option) option" where
  "parse_if arg = (if length arg > IFNAMSIZ then Some (Inl 1) else Some (Inr (Some arg)))"

definition parse_addr :: "(string \<Rightarrow> in6_addr option) \<Rightarrow> string \<Rightarrow> (int + in6_addr) option" where
  "parse_addr pton arg = (case pton arg of None \<Rightarrow> Some (Inl 1) | Some a \<Rightarrow> Some (Inr a))"

text \<open>The assignment to \<open>*port\<close> keeps the low 16 bits.\<close>

definition parse_port :: "string \<Rightarrow> (int + uint16) option" where
  "parse_port arg = do {
     v \<leftarrow> atoi arg;
     let port = (word_of_int v :: uint16);
     Some (if port > 0 then Inr port else Inl 1)
   }"

text \<open>
  The pointer \<open>v\<close> is a \<open>size_t\<close>'s address cast to \<open>int *\<close>: the low four bytes of \<open>old\<close> are
  written, on the little-endian targets of the program.
\<close>

definition put_int :: "int \<Rightarrow> size_t \<Rightarrow> size_t" where
  "put_int v old = old div 2 ^ 32 * 2 ^ 32 + nat (v mod 2 ^ 32)"

definition parse_int :: "size_t \<Rightarrow> string \<Rightarrow> int \<Rightarrow> (int + size_t) option" where
  "parse_int old arg mn = do {
     v \<leftarrow> atoi arg;
     Some (if v \<ge> mn then Inr (put_int v old) else Inl 1)
   }"

partial_function (option) last_peer :: "ptr \<Rightarrow> (ptr \<Rightarrow> paddr option) \<Rightarrow> ptr option" where
  "last_peer i m = do {
     p \<leftarrow> m i;
     if pa_n p \<noteq> NULL then last_peer (pa_n p) m else Some i
   }"

declare last_peer.simps [code]

definition parse_peer ::
    "(string \<Rightarrow> in6_addr option) \<Rightarrow> (ptr \<Rightarrow> ptr) \<Rightarrow> ptr \<Rightarrow> string \<Rightarrow> peer_mem \<Rightarrow>
     (int + ptr \<times> peer_mem) option" where
  "parse_peer pton junk head arg ps =
     (let new = pm_brk ps;
          ps = ps\<lparr>pm := (pm ps)(new \<mapsto> \<lparr>pa_v = 0, pa_n = junk new\<rparr>), pm_brk := Suc new\<rparr>
      in case pton arg of
        None \<Rightarrow> Some (Inl 1)
      | Some a \<Rightarrow>
          if head = NULL then
            Some (Inr (new, ps\<lparr>pm := (pm ps)(new \<mapsto> \<lparr>pa_v = a, pa_n = NULL\<rparr>)\<rparr>))
          else do {
            let ps = ps\<lparr>pm := (pm ps)(new \<mapsto> \<lparr>pa_v = a, pa_n = junk new\<rparr>)\<rparr>;
            i \<leftarrow> last_peer head (pm ps);
            p \<leftarrow> pm ps i;
            Some (Inr (head, ps\<lparr>pm := (pm ps)(i \<mapsto> p\<lparr>pa_n := new\<rparr>)\<rparr>))
          })"

definition null_check :: "ptr \<Rightarrow> (int + unit) option" where
  "null_check arg = Some (if arg \<noteq> NULL then Inr () else Inl 1)"

definition empty_check :: "string option \<Rightarrow> (int + unit) option" where
  "empty_check arg = (case arg of
     None \<Rightarrow> Some (Inl 1)
   | Some s \<Rightarrow> Some (if length s \<le> IFNAMSIZ then Inr () else Inl 1))"

datatype opt_key =
    OPT_TIFNAME | OPT_BIFNAME | OPT_TADDR | OPT_BADDR | OPT_BPORT
  | OPT_DCVR_INT | OPT_DCVR_TOUT | OPT_DCVR_DELAY | OPT_DCVR_WAIT
  | OPT_MAX_ADDRS | OPT_OK_ADDRS | OPT_MIN_LEAFS | OPT_MIN_ROUTERS | OPT_SPLIT_NODES
  | OPT_MERGE_RANGE | OPT_PRINT_TREE | OPT_PRINT_TXG
  | ARGP_KEY_ARG | ARGP_KEY_END | Other_key int

definition set_interval :: "int \<Rightarrow> itimerspec \<Rightarrow> itimerspec" where
  "set_interval v its = its\<lparr>it_interval := (it_interval its)\<lparr>tv_sec := v\<rparr>\<rparr>"

definition set_value :: "int \<Rightarrow> itimerspec \<Rightarrow> itimerspec" where
  "set_value v its = its\<lparr>it_value := (it_value its)\<lparr>tv_sec := v\<rparr>\<rparr>"

text \<open>
  The value \<open>.8 * max_addrs\<close>, computed in \<open>double\<close> and cut to an integer: the factor is above 0.8 by
  less than \<open>5 * 10\<^sup>-\<^sup>1\<^sup>7\<close>, too little to reach the next integer for the numbers that \<open>parse_int\<close> lets in.
\<close>

definition default_ok :: "size_t \<Rightarrow> size_t" where
  "default_ok mx = 4 * mx div 5"

definition parse_end :: "arguments \<Rightarrow> (int + arguments) option" where
  "parse_end A =
     attempt (empty_check (tifname A)) (\<lambda>_.
     attempt (empty_check (bifname A)) (\<lambda>_.
     attempt (null_check (peers A)) (\<lambda>_.
       Some (Inr (if ok_addrs A = 0 then A\<lparr>ok_addrs := default_ok (max_addrs A)\<rparr> else A)))))"

definition parse_pos ::
    "(string \<Rightarrow> in6_addr option) \<Rightarrow> (ptr \<Rightarrow> ptr) \<Rightarrow> string \<Rightarrow> argp_state \<Rightarrow> arguments \<Rightarrow> peer_mem \<Rightarrow>
     (int + arguments \<times> peer_mem) option" where
  "parse_pos pton junk arg state A ps =
     (if as_argc state \<noteq> as_next state then
        attempt (parse_peer pton junk (peers A) arg ps) (\<lambda>(head, ps). Some (Inr (A\<lparr>peers := head\<rparr>, ps)))
      else attempt (parse_port arg) (\<lambda>port. Some (Inr (A\<lparr>pport := port\<rparr>, ps))))"

definition parse_opt ::
    "(string \<Rightarrow> in6_addr option) \<Rightarrow> (ptr \<Rightarrow> ptr) \<Rightarrow> opt_key \<Rightarrow> string \<Rightarrow> argp_state \<Rightarrow>
     arguments \<Rightarrow> peer_mem \<Rightarrow> (int + int \<times> arguments \<times> peer_mem) option" where
  "parse_opt pton junk key arg state A ps =
     (let done_with = (\<lambda>A. Some (Inr (0, A, ps)));
          num = (\<lambda>f. do { v \<leftarrow> atoi arg; done_with (f v) })
      in case key of
        OPT_TIFNAME \<Rightarrow> attempt (parse_if arg) (\<lambda>x. done_with (A\<lparr>tifname := x\<rparr>))
      | OPT_BIFNAME \<Rightarrow> attempt (parse_if arg) (\<lambda>x. done_with (A\<lparr>bifname := x\<rparr>))
      | OPT_TADDR \<Rightarrow> attempt (parse_addr pton arg) (\<lambda>x. done_with (A\<lparr>taddr := x\<rparr>))
      | OPT_BADDR \<Rightarrow> attempt (parse_addr pton arg) (\<lambda>x. done_with (A\<lparr>baddr := x\<rparr>))
      | OPT_BPORT \<Rightarrow> attempt (parse_port arg) (\<lambda>x. done_with (A\<lparr>bport := x\<rparr>))
      | OPT_DCVR_INT \<Rightarrow> num (\<lambda>v. A\<lparr>dcvr_int := set_interval v (dcvr_int A)\<rparr>)
      | OPT_DCVR_TOUT \<Rightarrow> num (\<lambda>v. A\<lparr>dcvr_tout := set_interval v (dcvr_tout A)\<rparr>)
      | OPT_DCVR_DELAY \<Rightarrow> num (\<lambda>v. A\<lparr>dcvr_int := set_value v (dcvr_int A)\<rparr>)
      | OPT_DCVR_WAIT \<Rightarrow> done_with (A\<lparr>dcvr_int :=
          (dcvr_int A)\<lparr>it_value := \<lparr>tv_sec = 0, tv_nsec = 1\<rparr>\<rparr>, dcvr_wait := True\<rparr>)
      | OPT_MAX_ADDRS \<Rightarrow> attempt (parse_int (max_addrs A) arg 2) (\<lambda>x. done_with (A\<lparr>max_addrs := x\<rparr>))
      | OPT_OK_ADDRS \<Rightarrow> attempt (parse_int (ok_addrs A) arg 2) (\<lambda>x. done_with (A\<lparr>ok_addrs := x\<rparr>))
      | OPT_MIN_LEAFS \<Rightarrow> attempt (parse_int (min_leafs A) arg 1) (\<lambda>x. done_with (A\<lparr>min_leafs := x\<rparr>))
      | OPT_MIN_ROUTERS \<Rightarrow> attempt (parse_int (min_routers A) arg 1) (\<lambda>x. done_with (A\<lparr>min_routers := x\<rparr>))
      | OPT_SPLIT_NODES \<Rightarrow> done_with (A\<lparr>split_nodes := True\<rparr>)
      | OPT_MERGE_RANGE \<Rightarrow> attempt (parse_int (merge_range A) arg 0) (\<lambda>x. done_with (A\<lparr>merge_range := x\<rparr>))
      | OPT_PRINT_TREE \<Rightarrow> done_with (A\<lparr>print_tree := True\<rparr>)
      | OPT_PRINT_TXG \<Rightarrow> done_with (A\<lparr>print_txg := True\<rparr>)
      | ARGP_KEY_ARG \<Rightarrow> attempt (parse_pos pton junk arg state A ps) (\<lambda>(A, ps). Some (Inr (0, A, ps)))
      | ARGP_KEY_END \<Rightarrow> attempt (parse_end A) done_with
      | Other_key _ \<Rightarrow> Some (Inr (ARGP_ERR_UNKNOWN, A, ps)))"

definition set_default_args :: "(string \<Rightarrow> in6_addr option) \<Rightarrow> arguments" where
  "set_default_args pton =
     \<lparr>tifname = Some ''tun1'', bifname = None,
      taddr = (case pton ''fd15::1'' of Some a \<Rightarrow> a | None \<Rightarrow> 0),
      baddr = (case pton ''::'' of Some a \<Rightarrow> a | None \<Rightarrow> 0),
      bport = 9999, pport = 0, peers = NULL,
      dcvr_int = \<lparr>it_interval = \<lparr>tv_sec = 5, tv_nsec = 0\<rparr>, it_value = \<lparr>tv_sec = 5, tv_nsec = 0\<rparr>\<rparr>,
      dcvr_tout = \<lparr>it_interval = \<lparr>tv_sec = 2, tv_nsec = 0\<rparr>, it_value = \<lparr>tv_sec = 0, tv_nsec = 0\<rparr>\<rparr>,
      dcvr_wait = False, max_addrs = 10, ok_addrs = 0, min_leafs = 2, min_routers = 1,
      split_nodes = False, merge_range = 0, print_tree = False, print_txg = False\<rparr>"

text \<open>
  The calls that \<open>argp_parse\<close> makes, each with the key, the argument and the state of the parser; the
  error \<open>ARGP_ERR_UNKNOWN\<close>, which \<open>parse_opt\<close> returns for the keys it does not handle, is ignored.
\<close>

type_synonym call = "opt_key \<times> string \<times> argp_state"

fun parse_calls ::
    "(string \<Rightarrow> in6_addr option) \<Rightarrow> (ptr \<Rightarrow> ptr) \<Rightarrow> call list \<Rightarrow> arguments \<Rightarrow> peer_mem \<Rightarrow>
     (int + arguments \<times> peer_mem) option" where
  "parse_calls pton junk [] A ps = Some (Inr (A, ps))"
| "parse_calls pton junk ((key, arg, state) # cs) A ps =
     attempt (parse_opt pton junk key arg state A ps) (\<lambda>(_, A, ps). parse_calls pton junk cs A ps)"

definition no_peers :: peer_mem where
  "no_peers = \<lparr>pm = Map.empty, pm_brk = 1\<rparr>"

definition init_args ::
    "(string \<Rightarrow> in6_addr option) \<Rightarrow> (ptr \<Rightarrow> ptr) \<Rightarrow> call list \<Rightarrow> (int + arguments \<times> peer_mem) option" where
  "init_args pton junk calls =
     parse_calls pton junk calls (set_default_args pton) no_peers"

end
