(* ===== verification/ParseProof.thy ===== *)
theory ParseProof
  imports Parse
begin

text \<open>
  What the parser of the command line accepts, and what it then guarantees: the bounds of the
  numbers, the lengths of the names, and the list of the peers in the order of the command line.
\<close>


section \<open>The list of peers\<close>

fun pchain :: "(ptr \<Rightarrow> paddr option) \<Rightarrow> ptr \<Rightarrow> (ptr \<times> in6_addr) list \<Rightarrow> bool" where
  "pchain m p [] \<longleftrightarrow> p = NULL"
| "pchain m p ((q, a) # xs) \<longleftrightarrow> p = q \<and> q \<noteq> NULL \<and>
     (case m q of None \<Rightarrow> False | Some x \<Rightarrow> pa_v x = a \<and> pchain m (pa_n x) xs)"

lemma pchain_NULL [simp]: "pchain m 0 xs \<longleftrightarrow> xs = []"
  by (cases xs) auto

lemma pchain_cong:
  "pchain m p xs \<Longrightarrow> (\<And>q. q \<in> fst ` set xs \<Longrightarrow> m' q = m q) \<Longrightarrow> pchain m' p xs"
proof (induction xs arbitrary: p)
  case (Cons x xs)
  obtain q a where x: "x = (q, a)" by (cases x)
  from Cons.prems(1) obtain y where y: "p = q" "q \<noteq> NULL" "m q = Some y" "pa_v y = a" "pchain m (pa_n y) xs"
    unfolding x by (auto split: option.splits)
  have "pchain m' (pa_n y) xs" using Cons.IH [OF y(5)] Cons.prems(2) by simp
  moreover have "m' q = Some y" using Cons.prems(2) [of q] y(3) by (simp add: x)
  ultimately show ?case using y unfolding x by simp
qed simp

text \<open>The last element of a list that is not empty, and the list with one more element behind it.\<close>

lemma pchain_last:
  assumes "pchain m p xs" and "xs \<noteq> []" and "distinct (map fst xs)"
    and "n \<notin> fst ` set xs" and "n \<noteq> NULL" and "m n = Some \<lparr>pa_v = a, pa_n = NULL\<rparr>"
  shows "\<exists>i x. last_peer p m = Some i \<and> m i = Some x \<and> i \<in> fst ` set xs \<and>
    pchain (m(i \<mapsto> x\<lparr>pa_n := n\<rparr>)) p (xs @ [(n, a)])"
  using assms
proof (induction xs arbitrary: p)
  case (Cons y ys)
  obtain q b where y: "y = (q, b)" by (cases y)
  from Cons.prems(1) obtain x where x: "p = q" "q \<noteq> NULL" "m q = Some x" "pa_v x = b" "pchain m (pa_n x) ys"
    unfolding y by (auto split: option.splits)
  show ?case
  proof (cases "ys = []")
    case True
    then have "pa_n x = NULL" using x(5) by simp
    then show ?thesis
      using x Cons.prems(4-6) unfolding y True
      by (intro exI [of _ q] exI [of _ x]) (auto simp: last_peer.simps)
  next
    case False
    then have nz: "pa_n x \<noteq> NULL" using x(5) by (cases ys) auto
    obtain i z where i: "last_peer (pa_n x) m = Some i" "m i = Some z" "i \<in> fst ` set ys"
        "pchain (m(i \<mapsto> z\<lparr>pa_n := n\<rparr>)) (pa_n x) (ys @ [(n, a)])"
      using Cons.IH [OF x(5) False _ _ Cons.prems(5,6)] Cons.prems(3,4)
      by (simp del: fun_upd_apply pchain.simps) blast
    have "i \<noteq> q" using i(3) Cons.prems(3) by (auto simp: y)
    then have "(m(i \<mapsto> z\<lparr>pa_n := n\<rparr>)) q = Some x" using x(3) by simp
    moreover have "last_peer p m = Some i" using i(1) x(1,3) nz by (simp add: last_peer.simps [of q])
    ultimately show ?thesis
      using i x unfolding y
      by (intro exI [of _ i] exI [of _ z]) (simp del: fun_upd_apply)
  qed
qed simp

definition peers_ok :: "arguments \<Rightarrow> peer_mem \<Rightarrow> in6_addr list \<Rightarrow> bool" where
  "peers_ok A ps as \<longleftrightarrow> 0 < pm_brk ps \<and> (\<exists>xs. pchain (pm ps) (peers A) xs \<and> map snd xs = as \<and>
     distinct (map fst xs) \<and> (\<forall>q \<in> fst ` set xs. q < pm_brk ps))"

lemma parse_peer_ok:
  assumes P: "peers_ok A ps as" and a: "pton s = Some a"
  shows "\<exists>head ps'. parse_peer pton (\<lambda>_. NULL) (peers A) s ps = Some (Inr (head, ps')) \<and>
    peers_ok (A\<lparr>peers := head\<rparr>) ps' (as @ [a])"
proof -
  define new where "new = pm_brk ps"
  obtain xs where xs: "pchain (pm ps) (peers A) xs" "map snd xs = as" "distinct (map fst xs)"
      "\<forall>q \<in> fst ` set xs. q < new" and new: "new \<noteq> NULL"
    using P by (auto simp: peers_ok_def new_def)
  show ?thesis
  proof (cases "peers A = NULL")
    case True
    then have "as = []" using xs(1,2) by simp
    then show ?thesis
      using a new True
      by (auto simp: parse_peer_def peers_ok_def Let_def new_def intro!: exI [of _ "[(pm_brk ps, a)]"])
  next
    case False
    then have ne: "xs \<noteq> []" using xs(1) by auto
    have fresh: "new \<notin> fst ` set xs" using xs(4) by auto
    define m where "m = (pm ps)(new \<mapsto> \<lparr>pa_v = a, pa_n = NULL\<rparr>)"
    have ch: "pchain m (peers A) xs"
      by (rule pchain_cong [OF xs(1)]) (use fresh in \<open>auto simp: m_def\<close>)
    have mn: "m new = Some \<lparr>pa_v = a, pa_n = NULL\<rparr>" by (simp add: m_def)
    obtain i x where
      i: "last_peer (peers A) m = Some i" "m i = Some x" "i \<in> fst ` set xs" "pchain (m(i \<mapsto> x\<lparr>pa_n := new\<rparr>)) (peers A) (xs @ [(new, a)])"
      using pchain_last [OF ch ne xs(3) fresh new mn] by blast
    have "i \<noteq> new" using i(3) fresh by blast
    then have "parse_peer pton (\<lambda>_. NULL) (peers A) s ps =
        Some (Inr (peers A, ps\<lparr>pm := m(i \<mapsto> x\<lparr>pa_n := new\<rparr>), pm_brk := Suc new\<rparr>))"
      using i(1,2) a False by (simp add: parse_peer_def Let_def m_def new_def)
    moreover have "\<forall>q \<in> fst ` set (xs @ [(new, a)]). q < Suc new" "distinct (map fst (xs @ [(new, a)]))"
      using xs(3,4) fresh by auto
    ultimately show ?thesis
      using i(4) xs(2) by (auto simp: peers_ok_def intro!: exI [of _ "xs @ [(new, a)]"])
  qed
qed


section \<open>What is accepted\<close>

definition number_of :: "string \<Rightarrow> int" where
  "number_of s = (case atoi s of Some v \<Rightarrow> v | None \<Rightarrow> 0)"

definition last_arg :: "argp_state \<Rightarrow> bool" where
  "last_arg st \<longleftrightarrow> as_argc st = as_next st"

text \<open>The argument of a call that reads a number is one that \<open>atoi\<close> can represent.\<close>

fun call_defined :: "call \<Rightarrow> bool" where
  "call_defined (key, s, st) \<longleftrightarrow>
     (key \<in> {OPT_BPORT, OPT_DCVR_INT, OPT_DCVR_TOUT, OPT_DCVR_DELAY, OPT_MAX_ADDRS, OPT_OK_ADDRS,
        OPT_MIN_LEAFS, OPT_MIN_ROUTERS, OPT_MERGE_RANGE} \<or> key = ARGP_KEY_ARG \<and> last_arg st
      \<longrightarrow> atoi s \<noteq> None)"

definition port_ok :: "string \<Rightarrow> bool" where
  "port_ok s \<longleftrightarrow> number_of s mod 2 ^ 16 \<noteq> 0"

fun call_ok :: "(string \<Rightarrow> in6_addr option) \<Rightarrow> call \<Rightarrow> bool" where
  "call_ok pton (key, s, st) = (case key of
       OPT_TIFNAME \<Rightarrow> length s \<le> IFNAMSIZ
     | OPT_BIFNAME \<Rightarrow> length s \<le> IFNAMSIZ
     | OPT_TADDR \<Rightarrow> pton s \<noteq> None
     | OPT_BADDR \<Rightarrow> pton s \<noteq> None
     | OPT_BPORT \<Rightarrow> port_ok s
     | OPT_MAX_ADDRS \<Rightarrow> 2 \<le> number_of s
     | OPT_OK_ADDRS \<Rightarrow> 2 \<le> number_of s
     | OPT_MIN_LEAFS \<Rightarrow> 1 \<le> number_of s
     | OPT_MIN_ROUTERS \<Rightarrow> 1 \<le> number_of s
     | OPT_MERGE_RANGE \<Rightarrow> 0 \<le> number_of s
     | ARGP_KEY_ARG \<Rightarrow> if last_arg st then port_ok s else pton s \<noteq> None
     | _ \<Rightarrow> True)"

fun peers_of :: "(string \<Rightarrow> in6_addr option) \<Rightarrow> call list \<Rightarrow> in6_addr list" where
  "peers_of pton [] = []"
| "peers_of pton ((key, s, st) # cs) =
     (case pton s of
        Some a \<Rightarrow> if key = ARGP_KEY_ARG \<and> \<not> last_arg st then [a] else []
      | None \<Rightarrow> []) @ peers_of pton cs"

text \<open>The bounds of the arguments, before and after the end of the command line.\<close>

definition name_ok :: "string option \<Rightarrow> bool" where
  "name_ok s \<longleftrightarrow> (\<forall>x. s = Some x \<longrightarrow> length x \<le> IFNAMSIZ)"

definition parse_inv :: "arguments \<Rightarrow> bool" where
  "parse_inv A \<longleftrightarrow> 2 \<le> max_addrs A \<and> max_addrs A < 2 ^ 31 \<and>
     (ok_addrs A = 0 \<or> 2 \<le> ok_addrs A) \<and> ok_addrs A < 2 ^ 31 \<and>
     1 \<le> min_leafs A \<and> min_leafs A < 2 ^ 31 \<and> 1 \<le> min_routers A \<and> min_routers A < 2 ^ 31 \<and>
     merge_range A < 2 ^ 31 \<and> tifname A \<noteq> None \<and> name_ok (tifname A) \<and> name_ok (bifname A)"

definition args_bounded :: "arguments \<Rightarrow> bool" where
  "args_bounded A \<longleftrightarrow> 2 \<le> max_addrs A \<and> max_addrs A < 2 ^ 31 \<and>
     1 \<le> ok_addrs A \<and> ok_addrs A < 2 ^ 31 \<and>
     1 \<le> min_leafs A \<and> min_leafs A < 2 ^ 31 \<and> 1 \<le> min_routers A \<and> min_routers A < 2 ^ 31 \<and>
     merge_range A < 2 ^ 31 \<and>
     (\<exists>t b. tifname A = Some t \<and> bifname A = Some b \<and> length t \<le> IFNAMSIZ \<and> length b \<le> IFNAMSIZ)"


section \<open>The functions of the parser\<close>

lemma atoi_bound: "atoi s = Some v \<Longrightarrow> - (2 ^ 31) \<le> v \<and> v < 2 ^ 31"
  by (auto simp: atoi_def Let_def split: if_splits)

lemma number_of_bound: "number_of s < 2147483648"
  using atoi_bound [of s] by (auto simp: number_of_def split: option.splits)

lemma parse_port_ok:
  assumes "atoi s \<noteq> None"
  shows "parse_port s = Some (if port_ok s then Inr (word_of_int (number_of s)) else Inl 1)"
proof -
  obtain v where v: "atoi s = Some v" using assms by blast
  have "(0 :: uint16) < word_of_int v \<longleftrightarrow> word_of_int v \<noteq> (0 :: uint16)" by (simp only: word_neq_0_conv)
  also have "\<dots> \<longleftrightarrow> v mod 2 ^ 16 \<noteq> 0"
    by (simp add: word_of_int_eq_0_iff dvd_eq_mod_eq_0)
  finally show ?thesis
    by (simp add: parse_port_def v Let_def port_ok_def number_of_def)
qed

lemma parse_int_ok:
  assumes "atoi s \<noteq> None" and "old < 2 ^ 31" and "0 \<le> mn"
  shows "parse_int old s mn = Some (if mn \<le> number_of s then Inr (nat (number_of s)) else Inl 1)"
    "nat (number_of s) < 2 ^ 31"
proof -
  obtain v where v: "atoi s = Some v" using assms by blast
  have b: "v < 2 ^ 31" using atoi_bound [OF v] by simp
  have "put_int v old = nat v" if "mn \<le> v"
  proof -
    have "v mod 2 ^ 32 = v" using that b assms(3) by simp
    moreover have "old div 2 ^ 32 = 0" using assms(2) by simp
    ultimately show ?thesis unfolding put_int_def by simp
  qed
  then show "parse_int old s mn = Some (if mn \<le> number_of s then Inr (nat (number_of s)) else Inl 1)"
    by (simp add: parse_int_def v number_of_def)
  show "nat (number_of s) < 2 ^ 31" using b by (simp add: number_of_def v)
qed

lemma parse_end_ok:
  assumes "parse_inv A"
  shows "parse_end A = Some (if bifname A \<noteq> None \<and> peers A \<noteq> NULL
    then Inr (if ok_addrs A = 0 then A\<lparr>ok_addrs := default_ok (max_addrs A)\<rparr> else A) else Inl 1)"
  using assms by (auto simp: parse_end_def parse_inv_def empty_check_def null_check_def name_ok_def
      split: option.splits)

lemma default_ok_bound: "2 \<le> mx \<Longrightarrow> 1 \<le> default_ok mx \<and> default_ok mx \<le> mx"
  unfolding default_ok_def by linarith



section \<open>A call of the parser\<close>

lemmas parse_cases = attempt_def Let_def call_ok.simps call_defined.simps parse_inv_def name_ok_def

lemma parse_if_ok: "parse_if s = Some (if length s \<le> IFNAMSIZ then Inr (Some s) else Inl 1)"
  by (simp add: parse_if_def)

lemma parse_addr_ok: "parse_addr pton s = Some (case pton s of None \<Rightarrow> Inl 1 | Some a \<Rightarrow> Inr a)"
  by (simp add: parse_addr_def split: option.splits)

lemma parse_pos_accept:
  assumes P: "peers_ok A ps as" and D: "call_defined (ARGP_KEY_ARG, s, st)"
    and ok: "call_ok pton (ARGP_KEY_ARG, s, st)"
  shows "\<exists>head port ps'. parse_pos pton (\<lambda>_. NULL) s st A ps =
      Some (Inr (A\<lparr>peers := head, pport := port\<rparr>, ps')) \<and>
    peers_ok (A\<lparr>peers := head, pport := port\<rparr>) ps' (as @ peers_of pton [(ARGP_KEY_ARG, s, st)])"
proof (cases "last_arg st")
  case True
  then have "parse_pos pton (\<lambda>_. NULL) s st A ps =
      Some (Inr (A\<lparr>peers := peers A, pport := word_of_int (number_of s)\<rparr>, ps))"
    using D ok parse_port_ok [of s] by (simp add: parse_pos_def last_arg_def)
  moreover have "peers_ok (A\<lparr>peers := peers A, pport := word_of_int (number_of s)\<rparr>) ps
      (as @ peers_of pton [(ARGP_KEY_ARG, s, st)])"
    using P True by (simp add: peers_ok_def split: option.splits)
  ultimately show ?thesis by blast
next
  case False
  then obtain a where a: "pton s = Some a" using ok by auto
  obtain head ps' where h: "parse_peer pton (\<lambda>_. NULL) (peers A) s ps = Some (Inr (head, ps'))"
      "peers_ok (A\<lparr>peers := head\<rparr>) ps' (as @ [a])"
    using parse_peer_ok [where pton = pton, OF P a] by blast
  have "parse_pos pton (\<lambda>_. NULL) s st A ps = Some (Inr (A\<lparr>peers := head, pport := pport A\<rparr>, ps'))"
    using h(1) False by (simp add: parse_pos_def last_arg_def)
  moreover have "peers_ok (A\<lparr>peers := head, pport := pport A\<rparr>) ps'
      (as @ peers_of pton [(ARGP_KEY_ARG, s, st)])"
    using h(2) False a by (simp add: peers_ok_def)
  ultimately show ?thesis by blast
qed

lemma parse_pos_refuse:
  assumes "call_defined (ARGP_KEY_ARG, s, st)" and "\<not> call_ok pton (ARGP_KEY_ARG, s, st)"
  shows "parse_pos pton junk s st A ps = Some (Inl 1)"
  using assms parse_port_ok [of s]
  by (auto simp: parse_pos_def last_arg_def parse_peer_def Let_def split: if_splits)

lemma parse_opt_ok:
  assumes I: "parse_inv A" and P: "peers_ok A ps as" and D: "call_defined (key, s, st)"
    and ne: "key \<noteq> ARGP_KEY_END"
  shows "if call_ok pton (key, s, st)
    then \<exists>e A' ps'. parse_opt pton (\<lambda>_. NULL) key s st A ps = Some (Inr (e, A', ps')) \<and> parse_inv A' \<and>
      peers_ok A' ps' (as @ peers_of pton [(key, s, st)]) \<and>
      (bifname A' \<noteq> None \<longleftrightarrow> bifname A \<noteq> None \<or> key = OPT_BIFNAME)
    else parse_opt pton (\<lambda>_. NULL) key s st A ps = Some (Inl 1)"
proof -
  have other: "peers_of pton [(key, s, st)] = []" if "key \<noteq> ARGP_KEY_ARG"
    using that by (simp split: option.splits)
  have same: "peers_ok A' ps as" if "peers A' = peers A" for A' using P that by (simp add: peers_ok_def)
  have num: "atoi s = Some (number_of s)" if "key \<in> {OPT_DCVR_INT, OPT_DCVR_TOUT, OPT_DCVR_DELAY}"
  proof -
    have "atoi s \<noteq> None" using D that by (elim insertE emptyE) simp_all
    then show ?thesis by (auto simp: number_of_def)
  qed
  show ?thesis
  proof (cases "key = ARGP_KEY_ARG")
    case True
    note P = parse_pos_accept [where pton = pton, OF P D [unfolded True]]
    note R = parse_pos_refuse [where pton = pton and junk = "\<lambda>_. NULL", OF D [unfolded True]]
    show ?thesis
    proof (cases "call_ok pton (ARGP_KEY_ARG, s, st)")
      case ok: True
      with P obtain head port ps' where
        r: "parse_pos pton (\<lambda>_. NULL) s st A ps = Some (Inr (A\<lparr>peers := head, pport := port\<rparr>, ps'))"
          "peers_ok (A\<lparr>peers := head, pport := port\<rparr>) ps' (as @ peers_of pton [(ARGP_KEY_ARG, s, st)])"
        by blast
      have "parse_inv (A\<lparr>peers := head, pport := port\<rparr>)" using I by (simp add: parse_inv_def)
      with r ok True show ?thesis
        by (simp add: parse_opt_def del: call_ok.simps peers_of.simps)
    next
      case no: False
      with R [OF no] True show ?thesis by (simp add: parse_opt_def del: call_ok.simps peers_of.simps)
    qed
  next
    case False
    show ?thesis
      unfolding other [OF False] append_Nil2
      using I D ne False num same
      by (cases key; simp add: parse_opt_def Let_def parse_if_ok parse_addr_ok parse_port_ok parse_int_ok
          parse_inv_def name_ok_def number_of_bound nat_le_eq_zle nat_less_iff le_nat_iff split: option.splits)
  qed
qed



section \<open>The command line\<close>

lemma peers_of_append: "peers_of pton (cs @ ds) = peers_of pton cs @ peers_of pton ds"
  by (induction cs) auto

lemma parse_calls_append:
  "parse_calls pton junk (cs @ ds) A ps =
     attempt (parse_calls pton junk cs A ps) (\<lambda>(A, ps). parse_calls pton junk ds A ps)"
  by (induction cs arbitrary: A ps) (auto simp: attempt_def split: option.splits sum.splits prod.splits)

lemma parse_calls_ok:
  assumes "parse_inv A" and "peers_ok A ps as"
    and "\<forall>c \<in> set cs. call_defined c \<and> fst c \<noteq> ARGP_KEY_END"
  shows "if \<forall>c \<in> set cs. call_ok pton c
    then \<exists>A' ps'. parse_calls pton (\<lambda>_. NULL) cs A ps = Some (Inr (A', ps')) \<and> parse_inv A' \<and>
      peers_ok A' ps' (as @ peers_of pton cs) \<and>
      (bifname A' \<noteq> None \<longleftrightarrow> bifname A \<noteq> None \<or> OPT_BIFNAME \<in> fst ` set cs)
    else parse_calls pton (\<lambda>_. NULL) cs A ps = Some (Inl 1)"
  using assms
proof (induction cs arbitrary: A ps as)
  case (Cons c cs)
  obtain key s st where c: "c = (key, s, st)" by (cases c)
  have pc: "call_defined (key, s, st)" "key \<noteq> ARGP_KEY_END" using Cons.prems(3) by (auto simp: c simp del: call_defined.simps)
  note one = parse_opt_ok [where pton = pton, OF Cons.prems(1,2) pc]
  show ?case
  proof (cases "call_ok pton (key, s, st)")
    case True
    then obtain e A' ps' where r: "parse_opt pton (\<lambda>_. NULL) key s st A ps = Some (Inr (e, A', ps'))"
        "parse_inv A'" "peers_ok A' ps' (as @ peers_of pton [(key, s, st)])"
        "bifname A' \<noteq> None \<longleftrightarrow> bifname A \<noteq> None \<or> key = OPT_BIFNAME"
      using one by (simp only: if_True) blast
    have p: "peers_of pton (c # cs) = peers_of pton [(key, s, st)] @ peers_of pton cs"
      using peers_of_append [of pton "[c]" cs] by (simp add: c del: peers_of.simps)
    have "\<forall>c \<in> set cs. call_defined c \<and> fst c \<noteq> ARGP_KEY_END" using Cons.prems(3) by simp
    from Cons.IH [OF r(2,3) this] r(1,4) True show ?thesis
      unfolding p by (auto simp: c simp del: call_ok.simps peers_of.simps)
  next
    case False
    then show ?thesis using one by (simp add: c del: call_ok.simps)
  qed
qed simp

text \<open>
  The whole command line: the calls for its options and arguments, and the one at the end. It is
  accepted if every call is, an interface is named and there is a peer.
\<close>

definition line_ok :: "(string \<Rightarrow> in6_addr option) \<Rightarrow> call list \<Rightarrow> bool" where
  "line_ok pton cs \<longleftrightarrow> (\<forall>c \<in> set cs. call_ok pton c) \<and> OPT_BIFNAME \<in> fst ` set cs \<and>
     peers_of pton cs \<noteq> []"

lemma init_args_ok:
  assumes D: "\<forall>c \<in> set cs. call_defined c \<and> fst c \<noteq> ARGP_KEY_END"
  shows "if line_ok pton cs
    then \<exists>A ps. init_args pton (\<lambda>_. NULL) (cs @ [(ARGP_KEY_END, s, st)]) = Some (Inr (A, ps)) \<and>
      args_bounded A \<and> peers_ok A ps (peers_of pton cs)
    else init_args pton (\<lambda>_. NULL) (cs @ [(ARGP_KEY_END, s, st)]) = Some (Inl 1)"
proof -
  let ?A = "set_default_args pton" and ?ps = no_peers
  have A: "parse_inv ?A" "peers_ok ?A ?ps []" "bifname ?A = None"
    by (simp_all add: parse_inv_def set_default_args_def name_ok_def IFNAMSIZ_def peers_ok_def
        no_peers_def)
  note C = parse_calls_ok [where pton = pton, OF A(1,2) D]
  show ?thesis
  proof (cases "\<forall>c \<in> set cs. call_ok pton c")
    case True
    then obtain A' ps' where r: "parse_calls pton (\<lambda>_. NULL) cs ?A ?ps = Some (Inr (A', ps'))" "parse_inv A'"
        "peers_ok A' ps' (peers_of pton cs)" "bifname A' \<noteq> None \<longleftrightarrow> OPT_BIFNAME \<in> fst ` set cs"
      using C [unfolded if_P [OF True] append_Nil A(3)] by blast
    have p: "peers A' \<noteq> NULL \<longleftrightarrow> peers_of pton cs \<noteq> []"
      using r(3) by (force simp: peers_ok_def elim: pchain.elims)
    let ?B = "if ok_addrs A' = 0 then A'\<lparr>ok_addrs := default_ok (max_addrs A')\<rparr> else A'"
    have B: "args_bounded ?B \<and> peers_ok ?B ps' (peers_of pton cs)" if "bifname A' \<noteq> None"
      using r(2,3) default_ok_bound [of "max_addrs A'"] that
      by (auto simp: args_bounded_def parse_inv_def peers_ok_def name_ok_def)
    have "init_args pton (\<lambda>_. NULL) (cs @ [(ARGP_KEY_END, s, st)]) =
        (if bifname A' \<noteq> None \<and> peers A' \<noteq> NULL then Some (Inr (?B, ps')) else Some (Inl 1))"
      using parse_end_ok [OF r(2)] by (simp add: init_args_def parse_calls_append r(1) parse_opt_def Let_def)
    then show ?thesis using B True r(4) p unfolding line_ok_def by auto
  next
    case False
    then have "parse_calls pton (\<lambda>_. NULL) cs ?A ?ps = Some (Inl 1)" using C [unfolded if_not_P [OF False]] by simp
    then show ?thesis
      using False by (auto simp: init_args_def parse_calls_append line_ok_def)
  qed
qed


section \<open>What malloc leaves behind\<close>

text \<open>
  The member \<open>n\<close> of the first peer is set to null; that of any other one is what \<open>malloc\<close> left in
  it. So with a single peer, what that is does not matter.
\<close>

lemma parse_opt_junk:
  assumes "peers A = NULL \<or> peers_of pton [(key, s, st)] = []"
  shows "parse_opt pton junk key s st A ps = parse_opt pton junk' key s st A ps"
proof (cases "key = ARGP_KEY_ARG \<and> \<not> last_arg st \<and> pton s \<noteq> None")
  case True
  then have "peers A = NULL" using assms by auto
  then show ?thesis using True
    by (auto simp: parse_opt_def parse_pos_def last_arg_def parse_peer_def Let_def)
next
  case False
  then have "parse_pos pton junk s st A ps = parse_pos pton junk' s st A ps" if "key = ARGP_KEY_ARG"
    using that by (auto simp: parse_pos_def last_arg_def parse_peer_def Let_def split: option.splits)
  then show ?thesis by (cases key; simp add: parse_opt_def Let_def)
qed

lemma parse_opt_peers:
  assumes "parse_opt pton junk key s st A ps = Some (Inr (e, A', ps'))" and "peers_of pton [(key, s, st)] = []"
  shows "peers A' = peers A"
  using assms
  by (cases key; force simp: parse_opt_def Let_def attempt_def parse_pos_def parse_end_def last_arg_def parse_peer_def
      bind_eq_Some split: option.splits sum.splits if_splits)

lemma parse_calls_junk:
  "peers A = NULL \<and> length (peers_of pton cs) \<le> 1 \<or> peers_of pton cs = [] \<Longrightarrow>
   parse_calls pton junk cs A ps = parse_calls pton junk' cs A ps"
proof (induction cs arbitrary: A ps)
  case (Cons c cs)
  obtain key s st where c: "c = (key, s, st)" by (cases c)
  have p: "peers_of pton (c # cs) = peers_of pton [(key, s, st)] @ peers_of pton cs"
    using peers_of_append [of pton "[c]" cs] by (simp add: c del: peers_of.simps)
  have one: "parse_opt pton junk key s st A ps = parse_opt pton junk' key s st A ps"
    using Cons.prems unfolding p by (intro parse_opt_junk) auto
  have "parse_calls pton junk cs A' ps' = parse_calls pton junk' cs A' ps'"
    if r: "parse_opt pton junk' key s st A ps = Some (Inr (e, A', ps'))" for e A' ps'
  proof (rule Cons.IH)
    show "peers A' = NULL \<and> length (peers_of pton cs) \<le> 1 \<or> peers_of pton cs = []"
      using Cons.prems parse_opt_peers [OF r] unfolding p
      by (cases "peers_of pton [(key, s, st)]") (auto simp del: peers_of.simps)
  qed
  then show ?case by (auto simp: c one attempt_def split: option.splits sum.splits)
qed simp

lemma init_args_junk:
  assumes "length (peers_of pton cs) \<le> 1 \<or> (\<forall>p. junk p = NULL)"
  shows "init_args pton junk (cs @ [(ARGP_KEY_END, s, st)]) = init_args pton (\<lambda>_. NULL) (cs @ [(ARGP_KEY_END, s, st)])"
proof (cases "\<forall>p. junk p = NULL")
  case True
  then have "junk = (\<lambda>_. NULL)" by auto
  then show ?thesis by simp
next
  case False
  have "peers_of pton (cs @ [(ARGP_KEY_END, s, st)]) = peers_of pton cs"
    by (simp add: peers_of_append split: option.split)
  then show ?thesis
    unfolding init_args_def using False assms by (intro parse_calls_junk) (auto simp: set_default_args_def)
qed

lemma init_args_accepts:
  assumes "\<forall>c \<in> set cs. call_defined c \<and> fst c \<noteq> ARGP_KEY_END"
    and "length (peers_of pton cs) \<le> 1 \<or> (\<forall>p. junk p = NULL)"
  shows "if line_ok pton cs
    then \<exists>A ps. init_args pton junk (cs @ [(ARGP_KEY_END, s, st)]) = Some (Inr (A, ps)) \<and>
      args_bounded A \<and> peers_ok A ps (peers_of pton cs)
    else init_args pton junk (cs @ [(ARGP_KEY_END, s, st)]) = Some (Inl 1)"
  unfolding init_args_junk [OF assms(2)] by (rule init_args_ok [OF assms(1)])

end
