(* ===== verification/Startup.thy ===== *)
theory Startup
  imports System ParseProof DiscoverProof
begin

text \<open>
  The start of the program: \<open>main.c\<close>, which parses the command line, creates the group and lets the
  peers join; \<open>start\<close> of \<open>core.c\<close>, which sets up the network and the two threads; and what the threads
  do before their loops, \<open>start_tx\<close> with \<open>get_sa\<close> of \<open>tx.c\<close> and \<open>start_dx\<close> with \<open>init_epoll\<close> of
  \<open>discover.c\<close>.

  The list of the interfaces' addresses that \<open>getifaddrs\<close> returns, and the results of
  \<open>pthread_create\<close>, are parameters, like the operating system.
\<close>


section \<open>The sending thread\<close>

record ifaddr =
  ifa_name :: string
  ifa_addr :: "sockaddr_in6 option"

definition in6_is_loopback :: "in6_addr \<Rightarrow> bool" where
  "in6_is_loopback a \<longleftrightarrow> a = 1"

definition in6_is_linklocal :: "in6_addr \<Rightarrow> bool" where
  "in6_is_linklocal a \<longleftrightarrow> drop_bit 118 a = 0x3FA"

definition if_matches :: "string \<Rightarrow> ifaddr \<Rightarrow> bool" where
  "if_matches bif i \<longleftrightarrow> (case ifa_addr i of
     None \<Rightarrow> False
   | Some sa \<Rightarrow> sin6_family sa = AF_INET6 \<and> take IFNAMSIZ bif = take IFNAMSIZ (ifa_name i) \<and>
       \<not> in6_is_loopback (sin6_addr sa) \<and> \<not> in6_is_linklocal (sin6_addr sa))"

text \<open>
  \<open>get_sa\<close> stores the last address that matches in \<open>bia\<close>. If \<open>getifaddrs\<close> fails, it frees a pointer
  that was never written.
\<close>

fun get_sa_loop :: "string \<Rightarrow> ifaddr list \<Rightarrow> in6_addr \<Rightarrow> in6_addr" where
  "get_sa_loop bif [] bia = bia"
| "get_sa_loop bif (i # ifs) bia =
     get_sa_loop bif ifs (if if_matches bif i then (case ifa_addr i of Some sa \<Rightarrow> sin6_addr sa | None \<Rightarrow> bia) else bia)"

definition get_sa :: "string \<Rightarrow> int \<Rightarrow> ifaddr list \<Rightarrow> in6_addr \<Rightarrow> (int \<times> in6_addr) option" where
  "get_sa bif ret ifs bia = (if ret \<noteq> 0 then None else Some (ret, get_sa_loop bif ifs bia))"

record threads =
  if_ret :: int
  if_list :: "ifaddr list"
  tx_ret :: int
  tx_tid :: nat
  dx_ret :: int

text \<open>
  The identifier of the thread, 0 on failure, the group, the buffer and the source address. The
  static variable \<open>bia\<close> starts with 0.
\<close>

definition start_tx ::
    "threads \<Rightarrow> arguments \<Rightarrow> size_t \<Rightarrow> 't group \<Rightarrow> heap \<Rightarrow> (nat \<times> 't group \<times> tx_buffer \<times> in6_addr) option" where
  "start_tx T A mtu g h = do {
     (ret, g) \<leftarrow> init_txg g h;
     let b = init_tx (max_addrs A) mtu;
     if ret \<noteq> 0 then Some (0, g, b, 0)
     else do {
       bif \<leftarrow> bifname A;
       (_, bia) \<leftarrow> get_sa bif (if_ret T) (if_list T) 0;
       Some (if tx_ret T \<noteq> 0 then 0 else tx_tid T, g, b, bia)
     }
   }"


section \<open>The discovery thread\<close>

fun epoll_add_all :: "os \<Rightarrow> int \<Rightarrow> int list \<Rightarrow> sys \<Rightarrow> int \<times> sys" where
  "epoll_add_all os fd [] s = (fd, s)"
| "epoll_add_all os fd (x # xs) s =
     (let (ret, s) = sys_call os (Epoll_add fd x) s
      in if ret < 0 then (ret, s) else epoll_add_all os fd xs s)"

definition init_epoll :: "os \<Rightarrow> int \<Rightarrow> int \<Rightarrow> int \<Rightarrow> sys \<Rightarrow> int \<times> sys" where
  "init_epoll os mdc tout tint s =
     (if mdc < 1 \<or> tout < 1 \<or> tint < 1 then (- 1, s)
      else
        let (fd, s) = sys_fd os (Epoll_create 3) s
        in if fd < 0 then (fd, s) else epoll_add_all os fd [mdc, tout, tint] s)"

text \<open>
  \<open>start_dx\<close> up to its loop: the error with which it returns, or the static variables of the file and
  the timers.
\<close>

definition start_dx ::
    "os \<Rightarrow> int \<Rightarrow> itimerspec \<Rightarrow> itimerspec \<Rightarrow> timers \<Rightarrow> sys \<Rightarrow> (int + dx_conf \<times> timers) \<times> sys" where
  "start_dx os mdc tout tint tm s =
     (let (fd, s) = sys_fd os Timerfd_create s;
          (out, ots, tm) = init_timerfd fd tout tm
      in if out < 0 then (Inl out, s)
         else
           let (fd, s) = sys_fd os Timerfd_create s;
               (itv, its, tm) = init_timerfd fd tint tm
           in if itv < 0 then (Inl itv, s)
              else
                let (ep, s) = init_epoll os mdc out itv s
                in if ep < 1 then (Inl ep, s)
                   else (Inr (\<lparr>tint_fd = itv, tout_fd = out, tint_ts = its, tout_ts = ots\<rparr>, tm), s))"


section \<open>start and main\<close>

record 't started =
  rt_args :: arguments
  rt_g :: "'t group"
  rt_h :: heap
  rt_fds :: fds
  rt_buf :: tx_buffer
  rt_bia :: in6_addr

text \<open>
  \<open>start\<close> returns an error, or waits for its threads: then the result is what they share.
\<close>

definition start ::
    "os \<Rightarrow> threads \<Rightarrow> arguments \<Rightarrow> 't group \<Rightarrow> heap \<Rightarrow> sys \<Rightarrow> ((int + 't started) \<times> sys) option" where
  "start os T A g h s = do {
     let sa = \<lparr>sin6_family = AF_INET6, sin6_port = 0, sin6_addr = baddr A\<rparr>;
     let ba = \<lparr>addr_sa = sa, addr_port = bport A\<rparr>;
     tif \<leftarrow> tifname A;
     bif \<leftarrow> bifname A;
     let (ret, mtu, tif, f, s) = init_fds os (max_addrs A) tif bif (taddr A) ba s;
     if ret \<noteq> 0 then Some (Inl (- 1), s)
     else do {
       f \<leftarrow> f;
       (txid, g, b, bia) \<leftarrow> start_tx T A mtu g h;
       if txid = 0 \<or> dx_ret T \<noteq> 0 then Some (Inl (- 1), s)
       else Some (Inr \<lparr>rt_args = A\<lparr>tifname := Some tif\<rparr>, rt_g = g, rt_h = h, rt_fds = f, rt_buf = b,
         rt_bia = bia\<rparr>, s)
     }
   }"

text \<open>The loop of \<open>main\<close> over the peers.\<close>

partial_function (option) join_loop ::
    "'t judy \<Rightarrow> uint16 \<Rightarrow> (ptr \<Rightarrow> paddr option) \<Rightarrow> ptr \<Rightarrow> 't group \<Rightarrow> heap \<Rightarrow> (int \<times> 't group \<times> heap) option" where
  "join_loop J port m i g h =
     (if i = NULL then Some (0, g, h)
      else do {
        p \<leftarrow> m i;
        (ret, g, h) \<leftarrow> join J (pa_v p) port g h;
        if ret < 0 then Some (EXIT_FAILURE, g, h) else join_loop J port m (pa_n p) g h
      })"

declare join_loop.simps [code]

definition main_group ::
    "'t judy \<Rightarrow> arguments \<Rightarrow> peer_mem \<Rightarrow> (int \<times> 't group \<times> heap) option" where
  "main_group J A ps = do {
     (ret, g, h) \<leftarrow> init_group J (baddr A) (bport A) (group_start J) empty_heap;
     if ret < 0 then Some (EXIT_FAILURE, g, h)
     else join_loop J (pport A) (pm ps) (peers A) g h
   }"

definition no_calls :: sys where
  "no_calls = \<lparr>sys_log = [], sys_open = []\<rparr>"

text \<open>\<open>main\<close> returns the exit status, or it does not return while its threads run.\<close>

definition main ::
    "'t judy \<Rightarrow> (string \<Rightarrow> in6_addr option) \<Rightarrow> (ptr \<Rightarrow> ptr) \<Rightarrow> os \<Rightarrow> threads \<Rightarrow> call list \<Rightarrow> (int + 't started) option" where
  "main J pton junk os T calls =
     attempt (init_args pton junk calls) (\<lambda>(A, ps). do {
       (ret, g, h) \<leftarrow> main_group J A ps;
       if ret \<noteq> 0 then Some (Inl ret)
       else do {
         (r, s) \<leftarrow> start os T A g h no_calls;
         Some (case r of Inl e \<Rightarrow> Inl (if e < 0 then EXIT_FAILURE else EXIT_SUCCESS) | Inr rt \<Rightarrow> Inr rt)
       }
     })"

end
