(* ===== verification/StartupProof.thy ===== *)
theory StartupProof
  imports Startup
begin

text \<open>
  The program starts: the command line's peers become the receivers of a well-formed group, and the
  discovery thread begins in a state that its loop keeps.
\<close>


section \<open>The peers join\<close>

text \<open>The receivers with their ports.\<close>

definition receivers :: "heap \<Rightarrow> (in6_addr \<times> uint16) set" where
  "receivers h = (\<lambda>rc. (sin6_addr (addr_sa (rcvr_addr rc)), addr_port (rcvr_addr rc))) ` ran (ldata h)"

lemma receivers_new:
  assumes "ldata h' = (ldata h)(l \<mapsto> new_rcvr a port q)" and "ldata h l = None"
  shows "receivers h' = insert (a, port) (receivers h)"
  using assms by (simp add: receivers_def ran_map_upd new_rcvr_def)

text \<open>The table of a group that the members \<open>as\<close> have joined holds the root and them.\<close>

definition members :: "'t judy \<Rightarrow> 't group \<Rightarrow> heap \<Rightarrow> view \<Rightarrow> in6_addr \<Rightarrow> uint16 \<Rightarrow> in6_addr list \<Rightarrow> bool" where
  "members J g h V root port as \<longleftrightarrow> group_ok J g h V \<and> dom (jhsg J (g_ht g)) = insert root (set as) \<and>
     receivers h = (\<lambda>a. (a, port)) ` set as \<and> g_nrcvr g = length as"

text \<open>
  A receiver that joins is new; one that is known already, or for which the table has no memory, is
  refused, and the program ends.
\<close>

lemma join_member:
  assumes J: "judy_hs J" and M: "members J g h V root port as"
  shows "(\<exists>g'. join J a port g h = Some (- 1, g', h)) \<or>
    a \<noteq> root \<and> a \<notin> set as \<and>
    (\<exists>g' h' V'. join J a port g h = Some (0, g', h') \<and> members J g' h' V' root port (as @ [a]))"
proof -
  have G: "group_ok J g h V" using M by (simp add: members_def)
  consider "jhsi J (g_ht g) a = None" | v where "jhsg J (g_ht g) a = Some v"
    | t1 where "jhsg J (g_ht g) a = None" "jhsi J (g_ht g) a = Some t1" by auto
  then show ?thesis
  proof cases
    case 1
    then show ?thesis using join_no_memory [OF J G] by blast
  next
    case (2 v)
    then show ?thesis using join_known [OF J G] by blast
  next
    case (3 t1)
    then have a: "a \<noteq> root" "a \<notin> set as" using M by (auto simp: members_def)
    obtain g' h' V' where r: "join J a port g h = Some (0, g', h')" "group_ok J g' h' V'"
        "g_nrcvr g' = g_nrcvr g + 1" "jhsg J (g_ht g') = (jhsg J (g_ht g))(a \<mapsto> g_rcvr g')"
        "leafs h (g_rcvr g') = None" "ldata h' = (ldata h)(g_rcvr g' \<mapsto> new_rcvr a port (g_rcvr g))"
      using join_new [OF J G 3, of port] by blast
    have "receivers h' = insert (a, port) (receivers h)"
      by (rule receivers_new [OF r(6)]) (simp add: ldata_def r(5))
    then have "members J g' h' V' root port (as @ [a])" using r M by (auto simp: members_def)
    then show ?thesis using r(1) a by blast
  qed
qed

lemma join_loop_ok:
  assumes J: "judy_hs J"
  shows "pchain m p xs \<Longrightarrow> members J g h V root port as \<Longrightarrow> distinct (root # as) \<Longrightarrow>
    \<exists>ret g' h'. join_loop J port m p g h = Some (ret, g', h') \<and>
      (ret = EXIT_FAILURE \<or> ret = 0 \<and> distinct (root # as @ map snd xs) \<and>
        (\<exists>V'. members J g' h' V' root port (as @ map snd xs)))"
proof (induction xs arbitrary: p g h V as)
  case Nil
  then show ?case by (auto simp: join_loop.simps)
next
  case (Cons x xs)
  obtain q a where x: "x = (q, a)" by (cases x)
  from Cons.prems(1) obtain y where y: "p = q" "q \<noteq> NULL" "m q = Some y" "pa_v y = a" "pchain m (pa_n y) xs"
    unfolding x by (auto split: option.splits)
  show ?case
  proof (cases "\<exists>g'. join J a port g h = Some (- 1, g', h)")
    case True
    then show ?thesis using y by (subst join_loop.simps) auto
  next
    case False
    with join_member [OF J Cons.prems(2), of a] obtain g1 h1 V1 where
      j: "a \<noteq> root" "a \<notin> set as" "join J a port g h = Some (0, g1, h1)" "members J g1 h1 V1 root port (as @ [a])"
      by blast
    have "distinct (root # as @ [a])" using Cons.prems(3) j(1,2) by auto
    from Cons.IH [OF y(5) j(4) this] y j(3) show ?thesis
      by (subst join_loop.simps) (simp add: x)
  qed
qed

lemma main_group_ok:
  assumes J: "judy_hs J" and P: "peers_ok A ps as"
  shows "\<exists>ret g h. main_group J A ps = Some (ret, g, h) \<and> (ret = EXIT_FAILURE \<or>
    ret = 0 \<and> distinct (baddr A # as) \<and> (\<exists>V. members J g h V (baddr A) (pport A) as))"
proof (cases "jhsi J (jnil J) (baddr A)")
  case None
  then have "init_group J (baddr A) (bport A) (group_start J) empty_heap = Some (- 1, group_start J, empty_heap)"
    by (simp add: init_group_def group_start_def join_key_def)
  then show ?thesis by (simp add: main_group_def)
next
  case (Some t1)
  obtain g h where g: "init_group J (baddr A) (bport A) (group_start J) empty_heap = Some (0, g, h)"
      "group_ok J g h (\<lambda>_. [])" "ldata h = Map.empty" "g_nrcvr g = 0" "jhsg J (g_ht g) = [baddr A \<mapsto> g_root g]"
    using init_group_ok [OF J Some, of "bport A"] by blast
  have M: "members J g h (\<lambda>_. []) (baddr A) (pport A) []"
    using g by (simp add: members_def receivers_def)
  obtain xs where xs: "pchain (pm ps) (peers A) xs" "map snd xs = as" using P by (auto simp: peers_ok_def)
  show ?thesis
    using join_loop_ok [OF J xs(1) M] xs(2) by (auto simp: main_group_def g(1))
qed


section \<open>The times\<close>

text \<open>
  The discovery thread works if both intervals and the initial delay are positive. The parser does not
  check that; it keeps it if the options do.
\<close>

definition times_ok :: "arguments \<Rightarrow> bool" where
  "times_ok A \<longleftrightarrow>
     0 < tv_sec (it_interval (dcvr_int A)) \<and> tv_nsec (it_interval (dcvr_int A)) = 0 \<and>
     0 < tv_sec (it_interval (dcvr_tout A)) \<and> tv_nsec (it_interval (dcvr_tout A)) = 0 \<and>
     it_value (dcvr_tout A) = zero_ts \<and>
     timespec_ok (it_value (dcvr_int A)) \<and>
     (0 < tv_sec (it_value (dcvr_int A)) \<or> 0 < tv_nsec (it_value (dcvr_int A)))"

fun positive_time :: "call \<Rightarrow> bool" where
  "positive_time (key, s, st) \<longleftrightarrow>
     (key \<in> {OPT_DCVR_INT, OPT_DCVR_TOUT, OPT_DCVR_DELAY} \<longrightarrow> 0 < number_of s)"

lemma parse_opt_times:
  assumes "times_ok A" and "positive_time (key, s, st)"
    and "parse_opt pton junk key s st A ps = Some (Inr (e, A', ps'))"
  shows "times_ok A'"
  using assms
  by (cases key; auto simp: parse_opt_def Let_def attempt_def times_ok_def bind_eq_Some number_of_def
      set_interval_def set_value_def timespec_ok_def zero_ts_def parse_pos_def parse_end_def
      split: option.splits sum.splits if_splits)

lemma parse_calls_times:
  "times_ok A \<Longrightarrow> \<forall>c \<in> set cs. positive_time c \<Longrightarrow>
   parse_calls pton junk cs A ps = Some (Inr (A', ps')) \<Longrightarrow> times_ok A'"
proof (induction cs arbitrary: A ps)
  case (Cons c cs)
  obtain key s st where c: "c = (key, s, st)" by (cases c)
  from Cons.prems(3) obtain e A1 ps1 where
    1: "parse_opt pton junk key s st A ps = Some (Inr (e, A1, ps1))" "parse_calls pton junk cs A1 ps1 = Some (Inr (A', ps'))"
    by (auto simp: c attempt_def split: option.splits sum.splits)
  have "times_ok A1" using parse_opt_times [OF Cons.prems(1) _ 1(1)] Cons.prems(2) by (simp add: c)
  from Cons.IH [OF this _ 1(2)] Cons.prems(2) show ?case by simp
qed simp

lemma init_args_times:
  assumes "\<forall>c \<in> set cs. positive_time c" and "init_args pton junk cs = Some (Inr (A, ps))"
  shows "times_ok A"
proof -
  have "times_ok (set_default_args pton)"
    by (simp add: times_ok_def set_default_args_def zero_ts_def timespec_ok_def)
  from parse_calls_times [OF this assms(1)] assms(2) show ?thesis by (simp add: init_args_def)
qed

lemma init_timerfd_ok:
  assumes "0 \<le> fd" and "timespec_ok (it_interval its)" and "timespec_ok (it_value its)"
  shows "init_timerfd fd its tm = (fd, Some (it_interval its), tm(fd \<mapsto> its))"
  using assms by (simp add: init_timerfd_def timerfd_settime_def Let_def)

text \<open>Whenever \<open>start_dx\<close> reaches its loop, with two timers of their own, the thread is set up.\<close>

lemma start_dx_ok:
  assumes T: "times_ok A"
    and r: "start_dx os mdc (dcvr_tout A) (dcvr_int A) tm s = (Inr (c, tm'), s')"
    and d: "tint_fd c \<noteq> tout_fd c"
  shows "conf_ok c \<and> timers_ok c tm' \<and> armed tm' (tint_fd c)"
proof -
  have ok: "timespec_ok (it_interval (dcvr_int A))" "timespec_ok (it_value (dcvr_int A))"
    "timespec_ok (it_interval (dcvr_tout A))" "timespec_ok (it_value (dcvr_tout A))"
    using T by (simp_all add: times_ok_def timespec_ok_def zero_ts_def)
  obtain t1 s1 where t1: "sys_fd os Timerfd_create s = (t1, s1)" by (cases "sys_fd os Timerfd_create s")
  obtain t2 s2 where t2: "sys_fd os Timerfd_create s1 = (t2, s2)" by (cases "sys_fd os Timerfd_create s1")
  have neg: "init_timerfd fd its tm = (fd, None, tm)" if "fd < 0" for fd its tm using that by (simp add: init_timerfd_def)
  have p1: "0 \<le> t1" using r by (cases "t1 < 0") (auto simp: start_dx_def t1 neg)
  have p2: "0 \<le> t2" using r p1 by (cases "t2 < 0") (auto simp: start_dx_def t1 t2 neg init_timerfd_ok [OF p1 ok(3,4)])
  have c: "c = \<lparr>tint_fd = t2, tout_fd = t1, tint_ts = Some (it_interval (dcvr_int A)),
      tout_ts = Some (it_interval (dcvr_tout A))\<rparr>" "tm' = tm(t1 \<mapsto> dcvr_tout A, t2 \<mapsto> dcvr_int A)"
    using r p1 p2 by (auto simp: start_dx_def t1 t2 init_timerfd_ok [OF p1 ok(3,4)] init_timerfd_ok [OF p2 ok(1,2)]
        split: prod.splits if_splits)
  have nz: "it_interval (dcvr_int A) \<noteq> zero_ts" "it_interval (dcvr_tout A) \<noteq> zero_ts"
    "it_value (dcvr_int A) \<noteq> zero_ts"
    using T by (auto simp: times_ok_def zero_ts_def)
  show ?thesis
    using T d ok nz by (auto simp: c conf_ok_def timers_ok_def timer_of_def armed_def times_ok_def)
qed



section \<open>The threads start\<close>

lemma members_rcvr:
  assumes "members J g h V root port as" and "as \<noteq> []"
  shows "g_rcvr g \<noteq> NULL"
proof
  assume "g_rcvr g = NULL"
  then have "g_nrcvr g = 0" using assms(1) by (auto simp: members_def group_ok_def)
  then show False using assms by (simp add: members_def)
qed

lemma group_ok_txg [simp]: "group_ok J (g\<lparr>g_txg := v\<rparr>) h V \<longleftrightarrow> group_ok J g h V"
  by (simp add: group_ok_def)

text \<open>What the threads share at the start.\<close>

definition started_ok :: "arguments \<Rightarrow> 't group \<Rightarrow> heap \<Rightarrow> 't started \<Rightarrow> bool" where
  "started_ok A g h rt \<longleftrightarrow> rt_h rt = h \<and> 1 \<le> fd_tun (rt_fds rt) \<and>
     (\<exists>mtu. rt_buf rt = init_tx (max_addrs A) mtu) \<and>
     (\<exists>v ls. rt_g rt = g\<lparr>g_txg := Some v\<rparr> \<and> txg_mdc v = NULL \<and> txg_nuni v = g_nrcvr g \<and>
       txg_uni v = rcvr_addrs h ls \<and> distinct ls \<and> set ls = dom (leafs h))"

text \<open>
  Two things are assumed of the system: the descriptor 0 is taken when the TUN device is opened, the
  third call, and \<open>getifaddrs\<close> succeeds.
\<close>

lemma init_tun_nonzero:
  assumes "init_tun os dev ia mtu s = (fd, dev', s')" and "0 \<le> fd"
  shows "fd = os_ret os (sys_next s)"
proof -
  obtain fd1 dev1 s1 where 1: "tun_alloc os dev s = (fd1, dev1, s1)" by (cases "tun_alloc os dev s") auto
  have "fd1 = os_ret os (sys_next s)" if "0 \<le> fd1"
    using 1 that by (auto simp: tun_alloc_def sys_fd_def sys_call_def Let_def split: if_splits)
  then show ?thesis using assms by (auto simp: init_tun_def 1 split: prod.splits if_splits)
qed

lemma init_fds_complete:
  assumes "init_fds os mx tif bif ta ba s = (0, mtu, tif', f, s')" and "os_ret os (sys_next s + 2) \<noteq> 0"
  shows "\<exists>f'. f = Some f'"
proof -
  obtain r1 s1 where 1: "get_mtu os bif s = (r1, s1)" by (cases "get_mtu os bif s")
  let ?m = "int_of_size (size_sub (nat r1) (get_mdc_hdr_size mx))"
  obtain tun tif2 s2 where 2: "init_tun os tif ta ?m s1 = (tun, tif2, s2)" by (cases "init_tun os tif ta ?m s1") auto
  have r1: "0 \<le> r1" using assms(1) by (auto simp: init_fds_def 1 Let_def split: if_splits)
  then have "sys_next s1 = sys_next s + 2"
    using 1 by (auto simp: get_mtu_def sys_fd_def sys_call_def sys_next_def Let_def split: if_splits)
  with init_tun_nonzero [OF 2] assms(2) have "tun \<noteq> 0" by auto
  then show ?thesis
    using assms(1) r1 by (auto simp: init_fds_def 1 2 Let_def split: prod.splits if_splits)
qed

lemma start_ok:
  assumes M: "members J g h V root port as" and ne: "as \<noteq> []" and A: "args_bounded A"
    and if0: "if_ret T = 0" and fd0: "os_ret os (sys_next s + 2) \<noteq> 0"
  shows "\<exists>r s'. start os T A g h s = Some (r, s') \<and>
    (case r of Inl e \<Rightarrow> e = - 1 | Inr rt \<Rightarrow> started_ok A g h rt)"
proof -
  let ?ba = "\<lparr>addr_sa = \<lparr>sin6_family = AF_INET6, sin6_port = 0, sin6_addr = baddr A\<rparr>, addr_port = bport A\<rparr>"
  obtain tif bif where n: "tifname A = Some tif" "bifname A = Some bif" using A by (auto simp: args_bounded_def)
  obtain ret mtu tif' f s' where 1: "init_fds os (max_addrs A) tif bif (taddr A) ?ba s = (ret, mtu, tif', f, s')"
    by (cases "init_fds os (max_addrs A) tif bif (taddr A) ?ba s") auto
  have G: "group_ok J g h V" using M by (simp add: members_def)
  obtain v ls where v: "init_txg g h = Some (0, g\<lparr>g_txg := Some v\<rparr>)" "txg_mdc v = NULL"
      "txg_nuni v = g_nrcvr g" "txg_uni v = rcvr_addrs h ls" "distinct ls" "set ls = dom (leafs h)"
    using init_txg_group [OF G members_rcvr [OF M ne]] by blast
  show ?thesis
  proof (cases "ret = 0")
    case False
    then show ?thesis by (simp add: start_def n 1)
  next
    case True
    obtain f' where f': "f = Some f'" using init_fds_complete [OF 1 [unfolded True] fd0] by blast
    have tun: "1 \<le> fd_tun f'" using init_fds_log [OF 1 [unfolded True f']] by blast
    have "started_ok A g h rt" if "rt_h rt = h" "rt_fds rt = f'" "rt_buf rt = init_tx (max_addrs A) mtu"
      "rt_g rt = g\<lparr>g_txg := Some v\<rparr>" for rt :: "'a started"
      unfolding started_ok_def using that v tun by auto
    then show ?thesis
      using True f' v(1) if0 by (simp add: start_def n 1 start_tx_def get_sa_def Let_def)
  qed
qed

lemma sender_starts:
  assumes J: "judy_hs J" and D: "\<forall>c \<in> set cs. call_defined c \<and> fst c \<noteq> ARGP_KEY_END"
    and junk: "length (peers_of pton cs) \<le> 1 \<or> (\<forall>p. junk p = NULL)"
    and if0: "if_ret T = 0" and fd0: "os_ret os 2 \<noteq> 0"
  shows "\<exists>r. main J pton junk os T (cs @ [(ARGP_KEY_END, x, y)]) = Some r \<and>
    (case r of
       Inl e \<Rightarrow> e = 1
     | Inr rt \<Rightarrow> line_ok pton cs \<and>
         (\<exists>A ps g h V. init_args pton junk (cs @ [(ARGP_KEY_END, x, y)]) = Some (Inr (A, ps)) \<and>
           args_bounded A \<and> distinct (baddr A # peers_of pton cs) \<and>
           members J g h V (baddr A) (pport A) (peers_of pton cs) \<and> started_ok A g h rt))"
proof (cases "line_ok pton cs")
  case False
  then have "init_args pton junk (cs @ [(ARGP_KEY_END, x, y)]) = Some (Inl 1)"
    using init_args_accepts [OF D junk, of x y] by simp
  then show ?thesis by (simp add: main_def)
next
  case True
  then obtain A ps where a: "init_args pton junk (cs @ [(ARGP_KEY_END, x, y)]) = Some (Inr (A, ps))"
      "args_bounded A" "peers_ok A ps (peers_of pton cs)"
    using init_args_accepts [OF D junk, of x y] by auto
  have ne: "peers_of pton cs \<noteq> []" using True by (simp add: line_ok_def)
  obtain ret g h where g: "main_group J A ps = Some (ret, g, h)" "ret = EXIT_FAILURE \<or>
      ret = 0 \<and> distinct (baddr A # peers_of pton cs) \<and> (\<exists>V. members J g h V (baddr A) (pport A) (peers_of pton cs))"
    using main_group_ok [OF J a(3)] by blast
  show ?thesis
  proof (cases "ret = EXIT_FAILURE")
    case True
    then show ?thesis using g(1) by (simp add: main_def a(1))
  next
    case False
    then obtain V where V: "ret = 0" "distinct (baddr A # peers_of pton cs)"
        "members J g h V (baddr A) (pport A) (peers_of pton cs)"
      using g(2) by blast
    have "os_ret os (sys_next no_calls + 2) \<noteq> 0" using fd0 by (simp add: sys_next_def no_calls_def numeral_2_eq_2)
    from start_ok [OF V(3) ne a(2) if0 this] obtain r s' where
      r: "start os T A g h no_calls = Some (r, s')" "case r of Inl e \<Rightarrow> e = - 1 | Inr rt \<Rightarrow> started_ok A g h rt"
      by blast
    show ?thesis
    proof (cases r)
      case (Inl e)
      with r show ?thesis by (simp add: main_def a(1) g(1) V(1))
    next
      case (Inr rt)
      with r have m: "main J pton junk os T (cs @ [(ARGP_KEY_END, x, y)]) = Some (Inr rt)"
        by (simp add: main_def a(1) g(1) V(1))
      then show ?thesis
        using Inr r(2) a(1,2) V(2,3) True
        by (intro exI [of _ "Inr rt"]) (auto simp del: distinct.simps)
    qed
  qed
qed

text \<open>The state in which the discovery thread enters its loop.\<close>

definition dx_start :: "'t started \<Rightarrow> timers \<Rightarrow> 't dx" where
  "dx_start rt tm = \<lparr>dx_g = rt_g rt, dx_h = rt_h rt, dx_ms = reset_merging_stats, dx_tm = tm, dx_n = 0\<rparr>"

lemma started_dx_ok:
  assumes "members J g h V root port as" and "started_ok A g h rt" and "timers_ok c tm"
  shows "dx_ok J c (dx_start rt tm)"
  using assms by (auto simp: dx_ok_def dx_start_def members_def started_ok_def)

lemma bounded_args_ok: "args_bounded A \<Longrightarrow> args_ok A"
  by (simp add: args_bounded_def args_ok_def)

end
