(* ===== verification/Limits.thy ===== *)
theory Limits
  imports Example StartupProof
begin

text \<open>
  What the program does not guard against: concrete runs of the model in which a hypothesis of the
  theorems fails, and what happens then.
\<close>


section \<open>Two routers above each other\<close>

text \<open>
  A router that answers about two receivers at two distances can become its own ancestor: \<open>update_topo\<close>
  moves a router below the position it finds for it, without looking whether that position is below
  the router. The routers 201 and 202 answer about the receivers 103 and 104, first at the distances 3
  and 4, then at 3 and 2.
\<close>

definition two_receivers :: "((in6_addr \<times> ptr) list group \<times> heap) option" where
  "two_receivers = do {
     (_, g, h) \<leftarrow> init_group alist_judy 101 0 (group_start alist_judy) empty_heap;
     (_, g, h) \<leftarrow> join alist_judy 103 9 g h;
     (_, g, h) \<leftarrow> join alist_judy 104 9 g h;
     Some (g, h)
   }"

definition two_distances :: "((in6_addr \<times> ptr) list \<times> heap) option" where
  "two_distances = do {
     (g, h) \<leftarrow> two_receivers;
     (_, n, h, t) \<leftarrow> update_topo alist_judy (ex_sa 201) 103 3 0 h (g_ht g);
     (_, n, h, t) \<leftarrow> update_topo alist_judy (ex_sa 202) 103 4 n h t;
     (_, n, h, t) \<leftarrow> update_topo alist_judy (ex_sa 201) 104 3 n h t;
     (_, n, h, t) \<leftarrow> update_topo alist_judy (ex_sa 202) 104 2 n h t;
     Some (t, h)
   }"

text \<open>The largest \<open>size_t\<close> is kept out of the evaluation.\<close>

declare SIZE_MAX_def [code del]

definition two_parents :: "(ptr \<times> ptr \<times> ptr \<times> ptr) option" where
  "two_parents = do {
     (t, h) \<leftarrow> two_distances;
     a \<leftarrow> jhsg alist_judy t 201;
     b \<leftarrow> jhsg alist_judy t 202;
     Some (a, par h a, b, par h b)
   }"

lemma routers_form_cycle: "two_parents = Some (6, 8, 8, 6)"
  by code_simp


section \<open>The command line\<close>

text \<open>The number of a port is cut to 16 bits: 65537 is the port 1.\<close>

lemma port_is_cut: "parse_port ''65537'' = Some (Inr 1)"
  by code_simp

text \<open>
  A second peer is appended with the member \<open>n\<close> that \<open>malloc\<close> left in it: unless that is null,
  the next walk over the list leaves it.
\<close>

lemma peer_end_unset:
  assumes "pton s = Some a" and "pton s' = Some b" and "junk 2 = x" and "x \<noteq> NULL"
  shows "\<exists>ps. attempt (parse_peer pton junk NULL s no_peers) (\<lambda>(h, ps). parse_peer pton junk h s' ps) =
      Some (Inr (1, ps)) \<and> map_option pa_n (pm ps 2) = Some x"
  using assms
  by (simp add: parse_peer_def no_peers_def Let_def last_peer.simps numeral_2_eq_2)

text \<open>
  An interval of 0 seconds is accepted, and the end of the first discovery phase then disarms
  both timers.
\<close>

lemma no_interval:
  assumes "parse_opt pton junk OPT_DCVR_INT ''0'' st A ps = Some (Inr (e, A', ps'))"
  shows "tv_sec (it_interval (dcvr_int A')) = 0"
  using assms by (auto simp: parse_opt_def Let_def bind_eq_Some atoi_def is_space_def digit_of_def set_interval_def)

lemma no_timer_left:
  assumes "conf_ok c" and "timers_ok c tm"
  shows "\<exists>tm'. flip_timers (tout_fd c) (tint_fd c) (Some zero_ts) tm = (0, tm') \<and>
    \<not> armed tm' (tint_fd c) \<and> \<not> armed tm' (tout_fd c)"
  using assms
  by (auto simp: conf_ok_def timers_ok_def timer_of_def flip_timers_def update_timer_def timerfd_settime_def armed_def
      zero_ts_def timespec_ok_def Let_def)


section \<open>Packets\<close>

text \<open>The length in the UDP header is trusted: the checksum reads behind the packet and the buffer.\<close>

lemma udp_length_trusted:
  "net_checksum_tcpudp 60 0 17 (in6_bytes 1) (in6_bytes 2) (replicate 10 0) = None"
  by code_simp

text \<open>A payload that is no UDP gets the bytes 6 and 7 overwritten on its way to the routers.\<close>

definition tcp_segment :: "uint8 list" where
  "tcp_segment = [0, 80, 0, 80, 0, 20, 1, 2, 3, 4, 5, 6, 7, 8, 9, 10, 0, 0, 0, 0]"

lemma tcp_overwritten:
  "map_option (load16 6) (udp_fix_check 1 2 tcp_segment) \<notin> {None, Some (load16 6 tcp_segment)}"
  by code_simp


section \<open>The first packet\<close>

text \<open>
  With \<open>dcvr_wait\<close>: a packet that the sending thread reads before the discovery thread waits for it
  starts nothing, and neither does any later one.
\<close>

lemma wake_up_lost:
  assumes "first_input A r" and "wait_steps A as (Tx_looping, Dx_blocked) s" and "Spurious \<notin> set as"
  shows "wait_run A [Read r, Block] (Tx_looping, Dx_blocked) \<and> snd s \<noteq> Dx_started"
proof -
  have "wait_run A ([] @ [Read r]) (Tx_looping, Dx_start)"
    by (rule wait_run.Step [OF wait_run.Init]) (use assms(1) wait_read_iff(3) [of A r] in simp)
  then have "wait_run A (([] @ [Read r]) @ [Block]) (Tx_looping, Dx_blocked)"
    by (rule wait_run.Step) simp
  then show ?thesis using never_started [OF assms(2)] assms(3) by simp
qed

end
