(* ===== verification/StartExample.thy ===== *)
theory StartExample
  imports Example StartupProof
begin

text \<open>A command line, an operating system and a set-up on which the properties of the start are evaluated.\<close>


section \<open>A command line\<close>

definition ex_pton :: "string \<Rightarrow> in6_addr option" where
  "ex_pton s = (if s = ''::3'' then Some 3 else if s = ''::4'' then Some 4 else None)"

definition ex_parser :: argp_state where
  "ex_parser = \<lparr>as_argc = 9, as_next = 8\<rparr>"

text \<open>An interface, an interval of 7 seconds, two peers, and their port as the last argument.\<close>

definition ex_line :: "call list" where
  "ex_line = [(OPT_BIFNAME, ''eth0'', ex_parser), (OPT_DCVR_INT, ''7'', ex_parser),
     (OPT_MAX_ADDRS, ''12'', ex_parser), (ARGP_KEY_ARG, ''::3'', ex_parser),
     (ARGP_KEY_ARG, ''::4'', ex_parser), (ARGP_KEY_ARG, ''9'', ex_parser\<lparr>as_next := 9\<rparr>)]"

lemma ex_atoi: "atoi ''7'' = Some 7" "atoi ''12'' = Some 12" "atoi ''9'' = Some 9"
  by code_simp+

lemma ex_number: "number_of ''7'' = 7" "number_of ''12'' = 12" "number_of ''9'' = 9"
  by (simp_all add: number_of_def ex_atoi)

lemma ex_line_defined: "\<forall>c \<in> set ex_line. call_defined c \<and> fst c \<noteq> ARGP_KEY_END"
  by (simp add: ex_line_def ex_atoi last_arg_def ex_parser_def)

lemma ex_line_times: "\<forall>c \<in> set ex_line. positive_time c"
  by (simp add: ex_line_def ex_number)

lemma ex_line_ok: "line_ok ex_pton ex_line" "peers_of ex_pton ex_line = [3, 4]"
  by (simp_all add: line_ok_def ex_line_def ex_pton_def ex_number port_ok_def IFNAMSIZ_def last_arg_def ex_parser_def)

text \<open>A line with a single peer.\<close>

definition ex_single :: "call list" where
  "ex_single = [(OPT_BIFNAME, ''eth0'', ex_parser), (OPT_PRINT_TREE, [], ex_parser),
     (ARGP_KEY_ARG, ''::3'', ex_parser), (ARGP_KEY_ARG, ''9'', ex_parser\<lparr>as_next := 9\<rparr>)]"

lemma ex_single_ok:
  "\<forall>c \<in> set ex_single. call_defined c \<and> fst c \<noteq> ARGP_KEY_END" "\<forall>c \<in> set ex_single. positive_time c"
  "line_ok ex_pton ex_single" "peers_of ex_pton ex_single = [3]"
  by (simp_all add: line_ok_def ex_single_def ex_pton_def ex_number ex_atoi port_ok_def IFNAMSIZ_def last_arg_def ex_parser_def)


section \<open>A system\<close>

definition ex_os :: os where
  "ex_os = \<lparr>os_ret = \<lambda>_. 9, os_name = \<lambda>_. ''tun1'', os_val = \<lambda>_. 1500\<rparr>"

definition ex_threads :: threads where
  "ex_threads = \<lparr>if_ret = 0, if_list = [\<lparr>ifa_name = ''eth0'', ifa_addr = Some (ex_sa 101)\<rparr>],
     tx_ret = 0, tx_tid = 1, dx_ret = 0\<rparr>"

lemma ex_system: "if_ret ex_threads = 0" "os_ret ex_os 2 \<noteq> 0"
  by (simp_all add: ex_threads_def ex_os_def)

definition ex_bind :: addr where
  "ex_bind = \<lparr>addr_sa = ex_sa 101, addr_port = 9999\<rparr>"

definition ex_set_up :: sys where
  "ex_set_up = (case init_fds ex_os 10 ''tun1'' ''eth0'' 200 ex_bind no_calls of (_, _, _, _, s) \<Rightarrow> s)"

lemma ex_init_fds: "init_fds ex_os 10 ''tun1'' ''eth0'' 200 ex_bind no_calls =
    (0, 1500, ''tun1'', Some \<lparr>fd_tun = 9, fd_mdc = 9, fd_ip6 = 9\<rparr>, ex_set_up)"
  by (simp add: ex_set_up_def init_fds_def get_mtu_def init_tun_def tun_alloc_def tun_up_def tun_setroute_def
      bind_fds_def sys_fd_def sys_call_def ex_os_def no_calls_def ifr_name_def Let_def MIN_IPV6_MTU_def)

end
