(* ===== verification/Router.thy ===== *)
theory Router
  imports Tx
begin

text \<open>
  A router with MEADcast support: the patch \<open>linux-6.5.y.patch\<close> for the Linux kernel, with the file
  \<open>net/ipv6/mdcast.c\<close> it adds, the call from \<open>ip6_forward\<close> and the case in \<open>ipv6_rthdr_rcv\<close>.

  The packet buffer \<open>sk_buff\<close> holds the IPv6 header, the MEADcast header behind it, if there is one,
  the bytes behind the headers, and the address whose route is attached to it. The kernel's header
  \<open>ipv6_rt_md_hdr\<close> is \<open>ip6_mdc_hdr\<close> of the sender, with the same layout of the bit fields. Where the
  length field of the header differs from what its address list takes up, the code would look for
  the UDP header elsewhere; this case is undefined here, like an index behind the address list
  and a shift by 32 or more.

  What the kernel provides is the parameter \<open>md_net\<close>: the two settings, the router's addresses
  (\<open>ipv6_chk_addr\<close>), whether the copy \<open>k\<close> of a buffer succeeds (\<open>pskb_copy\<close>), for which addresses there
  is a route (\<open>ip6_route_output\<close>), the source address towards an address (\<open>ipv6_dev_get_saddr\<close>), the
  result of the output \<open>k\<close> (\<open>dst_output\<close>), and the functions of checksums. Those work on values in
  network byte order here; on a little-endian machine all their operands are swapped, and the
  ones' complement sum with them.
\<close>


section \<open>Data\<close>

definition IPPROTO_ROUTING :: uint8 where "IPPROTO_ROUTING = 43"
definition CSUM_MANGLED_0 :: uint16 where "CSUM_MANGLED_0 = 0xFFFF"

record sk_buff =
  sk_ip :: ipv6hdr
  sk_hdr :: "ip6_mdc_hdr option"
  sk_pl :: "uint8 list"
  sk_dst :: in6_addr

record md_net =
  mn_enable :: uint8
  mn_min_dsts :: uint8
  mn_own :: "in6_addr \<Rightarrow> bool"
  mn_copy :: "nat \<Rightarrow> bool"
  mn_route :: "in6_addr \<Rightarrow> bool"
  mn_saddr :: "in6_addr \<Rightarrow> in6_addr option"
  mn_output :: "nat \<Rightarrow> int"
  csum_partial :: "in6_addr \<Rightarrow> uint32 \<Rightarrow> uint32"
  csum_unfold :: "uint16 \<Rightarrow> uint32"
  csum_sub :: "uint32 \<Rightarrow> uint32 \<Rightarrow> uint32"
  csum_fold :: "uint32 \<Rightarrow> uint16"

text \<open>The packets handed to \<open>dst_output\<close>, the copies made and the references to devices given up.\<close>

record md_state =
  ms_out :: "sk_buff list"
  ms_copies :: nat
  ms_puts :: nat

definition no_output :: md_state where
  "no_output = \<lparr>ms_out = [], ms_copies = 0, ms_puts = 0\<rparr>"

definition pskb_copy :: "md_net \<Rightarrow> sk_buff \<Rightarrow> md_state \<Rightarrow> sk_buff option \<times> md_state" where
  "pskb_copy N skb s = (if mn_copy N (ms_copies s) then Some skb else None, s\<lparr>ms_copies := ms_copies s + 1\<rparr>)"

definition dst_output :: "md_net \<Rightarrow> sk_buff \<Rightarrow> md_state \<Rightarrow> int \<times> md_state" where
  "dst_output N skb s = (mn_output N (length (ms_out s)), s\<lparr>ms_out := ms_out s @ [skb]\<rparr>)"

text \<open>\<open>hdr->hopcount++\<close> and \<open>hdr->response = 1\<close>; \<open>CHECK_BIT\<close> with the mirrored index \<open>GET_I\<close>.\<close>

definition inc_hopcount :: "ip6_mdc_hdr \<Rightarrow> ip6_mdc_hdr" where
  "inc_hopcount h = h\<lparr>mdc_flags :=
     (mdc_flags h AND NOT 0xFC00) OR (push_bit 10 (hdr_hops h + 1) AND 0xFC00)\<rparr>"

definition set_response :: "ip6_mdc_hdr \<Rightarrow> ip6_mdc_hdr" where
  "set_response h = h\<lparr>mdc_flags := mdc_flags h OR 0x200\<rparr>"

definition GET_I :: "int \<Rightarrow> nat option" where
  "GET_I i = (if 0 \<le> i \<and> i < 32 then Some (31 - nat i) else None)"


section \<open>Operations\<close>

definition set_dst :: "md_net \<Rightarrow> in6_addr \<Rightarrow> sk_buff \<Rightarrow> int \<times> sk_buff" where
  "set_dst N daddr skb = (if mn_route N daddr then (0, skb\<lparr>sk_dst := daddr\<rparr>) else (1, skb))"

definition csum_replace :: "md_net \<Rightarrow> in6_addr \<Rightarrow> in6_addr \<Rightarrow> uint16 \<Rightarrow> uint16" where
  "csum_replace N old new c =
     (let sum = csum_partial N new (NOT (csum_unfold N c));
          sum = csum_sub N sum (csum_partial N old 0);
          c = csum_fold N sum
      in if c = 0 then CSUM_MANGLED_0 else c)"

text \<open>The bytes of the routing header, which end where the UDP header begins.\<close>

definition rthdr_len :: "ip6_mdc_hdr \<Rightarrow> size_t option" where
  "rthdr_len h = (let n = (unat (ip6r_len (mdc_rthdr h)) + 1) * 8
     in if n = sizeof_mdc_hdr + length (mdc_addr h) * sizeof_in6_addr then Some n else None)"

definition m2u :: "md_net \<Rightarrow> in6_addr \<Rightarrow> sk_buff \<Rightarrow> (int \<times> sk_buff) option" where
  "m2u N dst skb = do {
     let ip = sk_ip skb;
     hdr \<leftarrow> sk_hdr skb;
     n \<leftarrow> rthdr_len hdr;
     let ip_plen = size_sub (unat (ip_payload_len ip)) n;
     guard (8 \<le> length (sk_pl skb));
     let ip = ip\<lparr>ip_payload_len := word_of_nat ip_plen\<rparr>;
     let ip = ip\<lparr>ip_nexthdr := ip6r_nxt (mdc_rthdr hdr)\<rparr>;
     let pl = store16 6 (csum_replace N (ip_daddr ip) dst (load16 6 (sk_pl skb))) (sk_pl skb);
     let ip = ip\<lparr>ip_daddr := dst\<rparr>;
     Some (set_dst N (ip_daddr ip) (skb\<lparr>sk_ip := ip, sk_hdr := None, sk_pl := pl\<rparr>))
   }"

text \<open>
  The loop of \<open>md_data_fwd\<close> over the entries before the last one; the flag says that an output failed.
  Without memory for a copy the code follows a null pointer.
\<close>

function m2u_loop :: "md_net \<Rightarrow> sk_buff \<Rightarrow> in6_addr list \<Rightarrow> nat \<Rightarrow> nat \<Rightarrow> md_state \<Rightarrow> (bool \<times> md_state) option" where
  "m2u_loop N skb addrs k m s =
     (if k < m then do {
        let (cpy, s) = pskb_copy N skb s;
        cpy \<leftarrow> cpy;
        guard (k < length addrs);
        (_, cpy) \<leftarrow> m2u N (addrs ! k) cpy;
        let (e, s) = dst_output N cpy s;
        if e \<noteq> 0 then Some (True, s) else m2u_loop N skb addrs (k + 1) m s
      }
      else Some (False, s))"
  by pat_completeness auto
termination by (relation "measure (\<lambda>(_, _, _, k, m, _). m - k)") auto

declare m2u_loop.simps [simp del]

text \<open>
  The entries \<open>i + 1\<close> to \<open>j - 1\<close> belong to the router at \<open>i\<close>. The entry at \<open>i\<close> is read only if the number of
  destinations does not decide; \<open>k\<close> is the loop variable after the loop.
\<close>

definition md_data_fwd :: "md_net \<Rightarrow> int \<Rightarrow> int \<Rightarrow> sk_buff \<Rightarrow> md_state \<Rightarrow> (int \<times> sk_buff \<times> md_state) option" where
  "md_data_fwd N i j skb s = do {
     hdr \<leftarrow> sk_hdr skb;
     let addrs = mdc_addr hdr;
     let len = j - i - 1;
     split \<leftarrow> (if len < uint (mn_min_dsts N) then Some True
       else do { guard (0 \<le> i \<and> nat i < length addrs); Some (mn_own N (addrs ! nat i)) });
     if split then do {
       (err, s) \<leftarrow> m2u_loop N skb addrs (nat (i + 1)) (nat (j - 1)) s;
       if err then Some (1, skb, s)
       else do {
         let k = nat (max (i + 1) (j - 1));
         guard (k < length addrs);
         (e, skb) \<leftarrow> m2u N (addrs ! k) skb;
         Some (e, skb, s)
       }
     }
     else do {
       _ \<leftarrow> rthdr_len hdr;
       guard (8 \<le> length (sk_pl skb) \<and> nat (i + 1) < length addrs);
       let dst = addrs ! nat (i + 1);
       let pl = store16 6 (csum_replace N (ip_daddr (sk_ip skb)) dst (load16 6 (sk_pl skb))) (sk_pl skb);
       p \<leftarrow> GET_I i;
       let hdr = hdr\<lparr>mdc_dlvm := push_bit p 1\<rparr>;
       let ip = (sk_ip skb)\<lparr>ip_daddr := dst\<rparr>;
       let (e, skb) = set_dst N (ip_daddr ip) (skb\<lparr>sk_ip := ip, sk_hdr := Some hdr, sk_pl := pl\<rparr>);
       Some (e, skb, s)
     }
   }"

text \<open>A replica for the destinations between two routers; the flag says that its output failed.\<close>

definition md_replica :: "md_net \<Rightarrow> int \<Rightarrow> int \<Rightarrow> sk_buff \<Rightarrow> md_state \<Rightarrow> (bool \<times> md_state) option" where
  "md_replica N r1 r2 skb s = do {
     let (cpy, s) = pskb_copy N skb s;
     cpy \<leftarrow> cpy;
     (_, cpy, s) \<leftarrow> md_data_fwd N r1 r2 cpy s;
     let (e, s) = dst_output N cpy s;
     Some (e \<noteq> 0, s)
   }"

text \<open>
  The loop of \<open>md_data_rcv\<close> over the entries, up to \<open>n\<close>: \<open>r1\<close> is the last router to deliver to, or \<open>- 1\<close>;
  \<open>r2\<close> the router behind it, or \<open>0\<close>. The result is the return value if an output failed, and \<open>r1\<close> and
  \<open>r2\<close> otherwise.
\<close>

function md_scan ::
    "md_net \<Rightarrow> sk_buff \<Rightarrow> ip6_mdc_hdr \<Rightarrow> nat \<Rightarrow> nat \<Rightarrow> int \<Rightarrow> int \<Rightarrow> md_state \<Rightarrow>
     ((int + int \<times> int) \<times> md_state) option" where
  "md_scan N skb hdr n i r1 r2 s =
     (if i < n then do {
        j \<leftarrow> GET_I (int i);
        let rt = bit (mdc_rtm hdr) j;
        let dlv = bit (mdc_dlvm hdr) j;
        if \<not> rt then md_scan N skb hdr n (i + 1) r1 r2 s
        else if 0 \<le> r1 then do {
          let r2 = (if r2 = 0 then int i else r2);
          if dlv then do {
            (err, s) \<leftarrow> md_replica N r1 r2 skb s;
            if err then Some (Inl 1, s)
            else md_scan N skb hdr n (i + 1) (int i) 0 s
          }
          else md_scan N skb hdr n (i + 1) r1 r2 s
        }
        else md_scan N skb hdr n (i + 1) (if dlv then int i else r1) r2 s
      }
      else Some (Inr (r1, r2), s))"
  by pat_completeness auto
termination by (relation "measure (\<lambda>(_, _, _, n, i, _). n - i)") auto

declare md_scan.simps [simp del]

definition md_data_rcv :: "md_net \<Rightarrow> sk_buff \<Rightarrow> md_state \<Rightarrow> (int \<times> sk_buff \<times> md_state) option" where
  "md_data_rcv N skb s = do {
     hdr \<leftarrow> sk_hdr skb;
     if hdr_dcv hdr \<or> hdr_rsp hdr then Some (- 1, skb, s)
     else do {
       let hdr = inc_hopcount hdr;
       let skb = skb\<lparr>sk_hdr := Some hdr\<rparr>;
       let n = unat (hdr_dsts hdr);
       (r, s) \<leftarrow> md_scan N skb hdr n 0 (- 1) 0 s;
       case r of
         Inl e \<Rightarrow> Some (e, skb, s)
       | Inr (r1, r2) \<Rightarrow> do {
           let r2 = (if r2 = 0 then int n else r2);
           (_, skb, s) \<leftarrow> md_data_fwd N r1 r2 skb s;
           Some (0, skb, s)
         }
     }
   }"

definition dcv_rsp :: "md_net \<Rightarrow> sk_buff \<Rightarrow> md_state \<Rightarrow> (int \<times> md_state) option" where
  "dcv_rsp N skb s = (let (rsp, s) = pskb_copy N skb s in
     case rsp of
       None \<Rightarrow> Some (1, s)
     | Some rsp \<Rightarrow> do {
         let rip = sk_ip rsp;
         let rip = rip\<lparr>ip_daddr := ip_saddr rip\<rparr>;
         let rip = rip\<lparr>ip_hop_limit := 255\<rparr>;
         rhdr \<leftarrow> sk_hdr rsp;
         let rsp = rsp\<lparr>sk_ip := rip, sk_hdr := Some (set_response rhdr)\<rparr>;
         if \<not> mn_route N (ip_daddr rip) then Some (1, s)
         else do {
           let rsp = rsp\<lparr>sk_dst := ip_daddr rip\<rparr>;
           let s = s\<lparr>ms_puts := ms_puts s + 1\<rparr>;
           case mn_saddr N (ip_daddr rip) of
             None \<Rightarrow> Some (1, s)
           | Some saddr \<Rightarrow> do {
               let rsp = rsp\<lparr>sk_ip := rip\<lparr>ip_saddr := saddr\<rparr>\<rparr>;
               let (e, s) = dst_output N rsp s;
               Some (if e \<noteq> 0 then 1 else 0, s)
             }
         }
       })"

definition md_dcv_rcv :: "md_net \<Rightarrow> sk_buff \<Rightarrow> md_state \<Rightarrow> (int \<times> sk_buff \<times> md_state) option" where
  "md_dcv_rcv N skb s = do {
     hdr \<leftarrow> sk_hdr skb;
     if ip6r_type (mdc_rthdr hdr) \<noteq> IPV6_MEADCAST \<or> ip6r_nxt (mdc_rthdr hdr) \<noteq> IPPROTO_NONE \<or>
       \<not> hdr_dcv hdr \<or> hdr_rsp hdr \<or> hdr_dsts hdr \<noteq> 1
     then Some (- 1, skb, s)
     else do {
       let skb = skb\<lparr>sk_hdr := Some (inc_hopcount hdr)\<rparr>;
       (_, s) \<leftarrow> dcv_rsp N skb s;
       Some (0, skb, s)
     }
   }"

definition md_rcv :: "md_net \<Rightarrow> sk_buff \<Rightarrow> md_state \<Rightarrow> (int \<times> sk_buff \<times> md_state) option" where
  "md_rcv N skb s = (
     if mn_enable N = 0 then Some (0, skb, s)
     else do {
       hdr \<leftarrow> sk_hdr skb;
       if ip6r_type (mdc_rthdr hdr) \<noteq> IPV6_MEADCAST then Some (- 1, skb, s)
       else do {
         (_, skb, s) \<leftarrow> (if hdr_dcv hdr then md_dcv_rcv N skb s else md_data_rcv N skb s);
         Some (0, skb, s)
       }
     })"

text \<open>
  The end of \<open>ip6_forward\<close>: the result is the packets that leave the router, the forwarded one last,
  with the number of references to devices given up. A packet for the router itself comes to
  \<open>ipv6_rthdr_rcv\<close>, which ends with \<open>md_rcv\<close>: only what \<open>md_rcv\<close> itself puts out leaves the router.
\<close>

definition ip6_forward :: "md_net \<Rightarrow> sk_buff \<Rightarrow> (sk_buff list \<times> nat) option" where
  "ip6_forward N skb = do {
     let ip = sk_ip skb;
     let skb = skb\<lparr>sk_ip := ip\<lparr>ip_hop_limit := ip_hop_limit ip - 1\<rparr>\<rparr>;
     (_, skb, s) \<leftarrow> (if ip_nexthdr ip = IPPROTO_ROUTING then md_rcv N skb no_output
       else Some (0, skb, no_output));
     Some (ms_out s @ [skb], ms_puts s)
   }"

definition ipv6_rthdr_rcv :: "md_net \<Rightarrow> sk_buff \<Rightarrow> (int \<times> sk_buff list) option" where
  "ipv6_rthdr_rcv N skb = do {
     (e, _, s) \<leftarrow> md_rcv N skb no_output;
     Some (e, ms_out s)
   }"

end
