(* ===== verification/RouterProof.thy ===== *)
theory RouterProof
  imports Router Delivery
begin

text \<open>
  What a router does with the packets of the sender: it replaces a MEADcast packet by packets for
  the same receivers, and it answers a discovery request by a response the sender accepts.
\<close>


section \<open>A router at work\<close>

text \<open>The kernel has memory, a route to every address and no error on output; the extension is enabled.\<close>

definition net_up :: "md_net \<Rightarrow> bool" where
  "net_up N \<longleftrightarrow> mn_enable N \<noteq> 0 \<and> (\<forall>k. mn_copy N k) \<and> (\<forall>k. mn_output N k = 0) \<and> (\<forall>a. mn_route N a)"

definition emit :: "sk_buff list \<Rightarrow> md_state \<Rightarrow> md_state" where
  "emit ps s = s\<lparr>ms_out := ms_out s @ ps, ms_copies := ms_copies s + length ps\<rparr>"

lemma emit_simps [simp]:
  "emit [] s = s" "emit qs (emit ps s) = emit (ps @ qs) s"
  "ms_out (emit ps s) = ms_out s @ ps" "ms_puts (emit ps s) = ms_puts s"
  by (simp_all add: emit_def)

lemma net_up_simps [simp]:
  assumes "net_up N"
  shows "pskb_copy N skb s = (Some skb, s\<lparr>ms_copies := ms_copies s + 1\<rparr>)"
    "dst_output N skb s = (0, s\<lparr>ms_out := ms_out s @ [skb]\<rparr>)"
    "set_dst N a skb = (0, skb\<lparr>sk_dst := a\<rparr>)" "mn_route N a" "mn_enable N \<noteq> 0"
  using assms by (simp_all add: net_up_def pskb_copy_def dst_output_def set_dst_def)

text \<open>The packets a router makes of the packet \<open>p\<close>, by unicast and under the header.\<close>

definition fix_check :: "md_net \<Rightarrow> in6_addr \<Rightarrow> sk_buff \<Rightarrow> uint8 list" where
  "fix_check N a p = store16 6 (csum_replace N (ip_daddr (sk_ip p)) a (load16 6 (sk_pl p))) (sk_pl p)"

definition uni_of :: "md_net \<Rightarrow> ip6_mdc_hdr \<Rightarrow> sk_buff \<Rightarrow> in6_addr \<Rightarrow> sk_buff" where
  "uni_of N d p a = p\<lparr>sk_ip := (sk_ip p)\<lparr>
       ip_payload_len := word_of_nat (size_sub (unat (ip_payload_len (sk_ip p))) (the (rthdr_len d))),
       ip_nexthdr := ip6r_nxt (mdc_rthdr d), ip_daddr := a\<rparr>,
     sk_hdr := None, sk_pl := fix_check N a p, sk_dst := a\<rparr>"

definition mdc_of :: "md_net \<Rightarrow> ip6_mdc_hdr \<Rightarrow> sk_buff \<Rightarrow> nat \<Rightarrow> in6_addr \<Rightarrow> sk_buff" where
  "mdc_of N d p i a = p\<lparr>sk_ip := (sk_ip p)\<lparr>ip_daddr := a\<rparr>,
     sk_hdr := Some (d\<lparr>mdc_dlvm := push_bit (31 - i) 1\<rparr>), sk_pl := fix_check N a p, sk_dst := a\<rparr>"

definition by_unicast :: "md_net \<Rightarrow> in6_addr \<Rightarrow> in6_addr list \<Rightarrow> bool" where
  "by_unicast N r ls \<longleftrightarrow> int (length ls) < uint (mn_min_dsts N) \<or> mn_own N r"

definition place_packets ::
    "md_net \<Rightarrow> ip6_mdc_hdr \<Rightarrow> sk_buff \<Rightarrow> nat \<times> in6_addr \<times> in6_addr list \<Rightarrow> sk_buff list" where
  "place_packets N d p = (\<lambda>(i, r, ls).
     if by_unicast N r ls then map (uni_of N d p) ls else [mdc_of N d p i (hd ls)])"

lemma place_packets_not_Nil: "ls \<noteq> [] \<Longrightarrow> place_packets N d p (i, r, ls) \<noteq> []"
  by (simp add: place_packets_def)


section \<open>Forwarding to the destinations of one router\<close>

lemma m2u_ok:
  assumes "net_up N" "sk_hdr p = Some d" "rthdr_len d = Some n" "8 \<le> length (sk_pl p)"
  shows "m2u N a p = Some (0, uni_of N d p a)"
  using assms by (simp add: m2u_def uni_of_def fix_check_def Let_def)

lemma m2u_pl:
  assumes "m2u N a p = Some (e, q)"
  shows "sk_pl q = fix_check N a p" "ip_daddr (sk_ip q) = a" "sk_hdr q = None"
  using assms by (auto simp: m2u_def Let_def bind_eq_Some set_dst_def fix_check_def split: if_splits)

lemma m2u_loop_ok:
  assumes N: "net_up N" and p: "sk_hdr p = Some d" "rthdr_len d = Some n" "8 \<le> length (sk_pl p)"
  shows "drop k addrs = ls @ rest \<Longrightarrow>
    m2u_loop N p addrs k (k + length ls) s = Some (False, emit (map (uni_of N d p) ls) s)"
proof (induction ls arbitrary: k s)
  case Nil
  then show ?case by (subst m2u_loop.simps) simp
next
  case (Cons a ls)
  then have k: "k < length addrs" "addrs ! k = a" "drop (Suc k) addrs = ls @ rest"
    using drop_eq_Cons_nth [of k addrs a "ls @ rest"] by auto
  show ?case
    using N m2u_ok [OF N p, of a] Cons.IH [OF k(3)] k(1,2)
    by (subst m2u_loop.simps) (simp add: emit_def)
qed

text \<open>The router \<open>r\<close> stands at position \<open>i\<close> of the list, the receivers \<open>ls\<close> behind it.\<close>

definition place_ok :: "in6_addr list \<Rightarrow> nat \<times> in6_addr \<times> in6_addr list \<Rightarrow> bool" where
  "place_ok addrs = (\<lambda>(i, r, ls). (\<exists>rest. drop i addrs = r # ls @ rest) \<and> ls \<noteq> [] \<and> i < 32)"

lemma md_data_fwd_ok:
  assumes N: "net_up N" and p: "sk_hdr p = Some d" "rthdr_len d = Some n" "8 \<le> length (sk_pl p)"
    and pl: "place_ok (mdc_addr d) (i, r, ls)"
  shows "md_data_fwd N (int i) (int (i + 1 + length ls)) p s =
    Some (0, last (place_packets N d p (i, r, ls)), emit (butlast (place_packets N d p (i, r, ls))) s)"
proof -
  obtain rest where d: "drop i (mdc_addr d) = r # ls @ rest" and ls: "ls \<noteq> []" and i: "i < 32"
    using pl by (auto simp: place_ok_def)
  have r: "i < length (mdc_addr d)" "mdc_addr d ! i = r" "drop (Suc i) (mdc_addr d) = ls @ rest"
    using drop_eq_Cons_nth [OF d] by auto
  obtain a as where as: "ls = a # as" using ls by (cases ls) auto
  have hd: "Suc i < length (mdc_addr d)" "mdc_addr d ! Suc i = a"
    using drop_eq_Cons_nth [of "Suc i" "mdc_addr d" a "as @ rest"] r(3) as by auto
  have last: "i + length ls < length (mdc_addr d)" "mdc_addr d ! (i + length ls) = last ls"
  proof -
    have "mdc_addr d ! (Suc i + (length ls - 1)) = drop (Suc i) (mdc_addr d) ! (length ls - 1)"
      using hd(1) by simp
    also have "\<dots> = last ls" unfolding r(3) using ls by (simp add: nth_append last_conv_nth)
    finally show "mdc_addr d ! (i + length ls) = last ls" using ls by (cases ls) auto
    have "length (drop (Suc i) (mdc_addr d)) = length ls + length rest" using r(3) by simp
    then show "i + length ls < length (mdc_addr d)" using ls by (cases ls) auto
  qed
  have "drop (Suc i) (mdc_addr d) = butlast ls @ last ls # rest" using r(3) ls by simp
  from m2u_loop_ok [OF N p this, of s]
  have loop: "m2u_loop N p (mdc_addr d) (Suc i) (i + length ls) s =
      Some (False, emit (map (uni_of N d p) (butlast ls)) s)" using ls by (cases ls) auto
  have len: "int (i + 1 + length ls) - int i - 1 = int (length ls)" by simp
  have nats: "nat (int i + 1) = Suc i" "nat (int (i + 1 + length ls) - 1) = i + length ls" by simp_all
  have k: "nat (max (int i + 1) (int (i + 1 + length ls) - 1)) = i + length ls"
    using ls by (cases ls) auto
  show ?thesis
  proof (cases "by_unicast N r ls")
    case True
    then have "(if int (length ls) < uint (mn_min_dsts N) then Some True
       else do { guard (0 \<le> int i \<and> nat (int i) < length (mdc_addr d)); Some (mn_own N (mdc_addr d ! nat (int i))) }) = Some True"
      using r by (auto simp: by_unicast_def)
    then show ?thesis
      using p loop last ls m2u_ok [OF N p, of "last ls"] True
      unfolding md_data_fwd_def place_packets_def Let_def len nats k
      by (simp add: map_butlast last_map)
  next
    case False
    then have "(if int (length ls) < uint (mn_min_dsts N) then Some True
       else do { guard (0 \<le> int i \<and> nat (int i) < length (mdc_addr d)); Some (mn_own N (mdc_addr d ! nat (int i))) }) = Some False"
      using r by (auto simp: by_unicast_def)
    then show ?thesis
      using N p hd as i False
      unfolding md_data_fwd_def place_packets_def Let_def len nats k
      by (simp add: GET_I_def mdc_of_def fix_check_def)
  qed
qed

lemma md_replica_ok:
  assumes N: "net_up N" and p: "sk_hdr p = Some d" "rthdr_len d = Some n" "8 \<le> length (sk_pl p)"
    and pl: "place_ok (mdc_addr d) (i, r, ls)"
  shows "md_replica N (int i) (int (i + 1 + length ls)) p s =
    Some (False, emit (place_packets N d p (i, r, ls)) s)"
proof -
  let ?P = "place_packets N d p (i, r, ls)"
  have "?P \<noteq> []" using pl by (auto simp: place_ok_def intro!: place_packets_not_Nil)
  then have "butlast ?P @ [last ?P] = ?P" "Suc (length (butlast ?P)) = length ?P" by auto
  then show ?thesis
    using N md_data_fwd_ok [OF N p pl] unfolding md_replica_def by (simp add: emit_def)
qed


section \<open>The entries of a header\<close>

text \<open>A segment of a header: whether the router is to be delivered to, its address, the receivers behind it.\<close>

type_synonym mseg = "bool \<times> in6_addr \<times> in6_addr list"

definition mentries :: "mseg list \<Rightarrow> in6_addr list" where
  "mentries ss = concat (map (\<lambda>(b, r, ls). r # ls) ss)"

text \<open>The flags of the entries: is it a router, and if so, is it to be delivered to.\<close>

definition mflags :: "mseg list \<Rightarrow> (bool \<times> bool) list" where
  "mflags ss = concat (map (\<lambda>(b, r, ls). (True, b) # replicate (length ls) (False, False)) ss)"

fun places :: "nat \<Rightarrow> mseg list \<Rightarrow> (nat \<times> in6_addr \<times> in6_addr list) list" where
  "places i [] = []"
| "places i ((b, r, ls) # ss) = (if b then [(i, r, ls)] else []) @ places (i + 1 + length ls) ss"

text \<open>The bitmaps of \<open>d\<close> have the flags \<open>fs\<close> from the position \<open>i\<close> on.\<close>

definition flagged :: "ip6_mdc_hdr \<Rightarrow> nat \<Rightarrow> (bool \<times> bool) list \<Rightarrow> bool" where
  "flagged d i fs \<longleftrightarrow> (\<forall>j < length fs. bit (mdc_rtm d) (31 - (i + j)) = fst (fs ! j) \<and>
     (fst (fs ! j) \<longrightarrow> bit (mdc_dlvm d) (31 - (i + j)) = snd (fs ! j)))"

lemma mentries_simps [simp]:
  "mentries [] = []" "mentries ((b, r, ls) # ss) = r # ls @ mentries ss"
  by (simp_all add: mentries_def)

lemma mflags_simps [simp]:
  "mflags [] = []" "mflags ((b, r, ls) # ss) = (True, b) # replicate (length ls) (False, False) @ mflags ss"
  by (simp_all add: mflags_def)

lemma length_mflags: "length (mflags ss) = length (mentries ss)"
  by (induction ss) auto

lemma flagged_Cons:
  "flagged d i (f # fs) \<longleftrightarrow> bit (mdc_rtm d) (31 - i) = fst f \<and>
     (fst f \<longrightarrow> bit (mdc_dlvm d) (31 - i) = snd f) \<and> flagged d (i + 1) fs"
  by (auto simp: flagged_def All_less_Suc2)

lemma flagged_append: "flagged d i (fs @ gs) \<longleftrightarrow> flagged d i fs \<and> flagged d (i + length fs) gs"
  by (induction fs arbitrary: i) (auto simp: flagged_Cons flagged_def [of d _ "[]"])

lemma places_ok:
  assumes "drop i addrs = mentries ss" "\<forall>(b, r, ls) \<in> set ss. ls \<noteq> []" "i + length (mentries ss) \<le> 32"
  shows "\<forall>x \<in> set (places i ss). place_ok addrs x"
  using assms
proof (induction i ss rule: places.induct)
  case (2 i b r ls ss)
  have "drop (i + 1 + length ls) addrs = drop (Suc (length ls)) (drop i addrs)" by (simp add: add.commute)
  also have "\<dots> = mentries ss" using 2(2) by simp
  finally have "\<forall>x \<in> set (places (i + 1 + length ls) ss). place_ok addrs x"
    using 2(3,4) by (intro 2(1)) auto
  moreover have "place_ok addrs (i, r, ls)" using 2(2-4) by (auto simp: place_ok_def)
  ultimately show ?case by auto
qed simp


section \<open>The scan\<close>

lemma scan_leafs:
  "flagged d i (replicate m (False, False)) \<Longrightarrow> i + m \<le> n \<Longrightarrow> n \<le> 32 \<Longrightarrow>
    md_scan N p d n i r1 r2 s = md_scan N p d n (i + m) r1 r2 s"
proof (induction m arbitrary: i)
  case (Suc m)
  then have "md_scan N p d n i r1 r2 s = md_scan N p d n (i + 1) r1 r2 s"
    by (subst md_scan.simps) (simp add: flagged_Cons GET_I_def)
  then show ?case using Suc.IH [of "i + 1"] Suc.prems by (simp add: flagged_Cons)
qed simp

lemma scan_end: "md_scan N p d n n r1 r2 s = Some (Inr (r1, r2), s)"
  by (subst md_scan.simps) simp

text \<open>Behind a router to deliver to, up to the end: the last such router is left over.\<close>

lemma scan_rest:
  assumes N: "net_up N" and p: "sk_hdr p = Some d" "rthdr_len d = Some l" "8 \<le> length (sk_pl p)"
    and n: "n \<le> 32"
  shows "flagged d i (mflags ss) \<Longrightarrow> i + length (mentries ss) = n \<Longrightarrow>
    \<forall>x \<in> set ((j, r, ls) # places i ss). place_ok (mdc_addr d) x \<Longrightarrow>
    r2 = 0 \<and> i = j + 1 + length ls \<or> r2 = int (j + 1 + length ls) \<Longrightarrow>
    \<exists>r2' j' r' ls'. md_scan N p d n i (int j) r2 s = Some (Inr (int j', r2'),
        emit (concat (map (place_packets N d p) (butlast ((j, r, ls) # places i ss)))) s) \<and>
      last ((j, r, ls) # places i ss) = (j', r', ls') \<and>
      (if r2' = 0 then int n else r2') = int (j' + 1 + length ls')"
proof (induction ss arbitrary: i j r ls r2 s)
  case Nil
  then show ?case by (auto simp: scan_end)
next
  case (Cons x ss)
  obtain b q ks where x: "x = (b, q, ks)" by (cases x)
  let ?i = "i + 1 + length ks" and ?e = "int (j + 1 + length ls)"
  have i: "i < n" "i + 1 + length ks \<le> n" using Cons.prems(2) by (auto simp: x)
  have f: "bit (mdc_rtm d) (31 - i)" "bit (mdc_dlvm d) (31 - i) = b"
      "flagged d (i + 1) (replicate (length ks) (False, False))" "flagged d ?i (mflags ss)"
    using Cons.prems(1) by (auto simp: x flagged_Cons flagged_append)
  have e: "(if r2 = 0 then int i else r2) = ?e" using Cons.prems(4) by auto
  have skip: "md_scan N p d n (i + 1) r1 r2 s = md_scan N p d n ?i r1 r2 s" for r1 r2 s
    using scan_leafs [OF f(3)] i n by simp
  have step: "md_scan N p d n i (int j) r2 s = (if b
      then md_scan N p d n ?i (int i) 0 (emit (place_packets N d p (j, r, ls)) s)
      else md_scan N p d n ?i (int j) ?e s)"
  proof (cases b)
    case True
    have "place_ok (mdc_addr d) (j, r, ls)" using Cons.prems(3) by simp
    from md_replica_ok [OF N p this] True show ?thesis
      using i n f(1,2) e skip [of "int i" 0] by (subst md_scan.simps) (simp add: GET_I_def)
  next
    case False
    show ?thesis
      using False i n f(1,2) skip [of "int j" ?e] e by (subst md_scan.simps) (simp add: GET_I_def)
  qed
  show ?case
  proof (cases b)
    case True
    have "\<forall>y \<in> set ((i, q, ks) # places ?i ss). place_ok (mdc_addr d) y"
      using Cons.prems(3) True by (auto simp: x)
    from Cons.IH [OF f(4) _ this, of 0 "emit (place_packets N d p (j, r, ls)) s"]
    obtain r2' j' r' ls' where "md_scan N p d n ?i (int i) 0 (emit (place_packets N d p (j, r, ls)) s) =
        Some (Inr (int j', r2'), emit (concat (map (place_packets N d p) (butlast ((i, q, ks) # places ?i ss))))
          (emit (place_packets N d p (j, r, ls)) s))"
      "last ((i, q, ks) # places ?i ss) = (j', r', ls')" "(if r2' = 0 then int n else r2') = int (j' + 1 + length ls')"
      using Cons.prems(2) by (auto simp: x)
    then show ?thesis
      using True step by (intro exI [of _ r2'] exI [of _ j'] exI [of _ r'] exI [of _ ls']) (simp add: x)
  next
    case False
    have "\<forall>y \<in> set ((j, r, ls) # places ?i ss). place_ok (mdc_addr d) y"
      using Cons.prems(3) False by (auto simp: x)
    from Cons.IH [OF f(4) _ this, of ?e s] show ?thesis using Cons.prems(2) False step by (simp add: x)
  qed
qed

lemma scan_first:
  assumes N: "net_up N" and p: "sk_hdr p = Some d" "rthdr_len d = Some l" "8 \<le> length (sk_pl p)"
    and n: "n \<le> 32"
  shows "flagged d i (mflags ss) \<Longrightarrow> i + length (mentries ss) = n \<Longrightarrow>
    \<forall>x \<in> set (places i ss). place_ok (mdc_addr d) x \<Longrightarrow> places i ss \<noteq> [] \<Longrightarrow>
    \<exists>r2' j' r' ls'. md_scan N p d n i (- 1) 0 s = Some (Inr (int j', r2'),
        emit (concat (map (place_packets N d p) (butlast (places i ss)))) s) \<and>
      last (places i ss) = (j', r', ls') \<and> (if r2' = 0 then int n else r2') = int (j' + 1 + length ls')"
proof (induction ss arbitrary: i)
  case Nil
  then show ?case by simp
next
  case (Cons x ss)
  obtain b q ks where x: "x = (b, q, ks)" by (cases x)
  let ?i = "i + 1 + length ks"
  have i: "i < n" "i + 1 + length ks \<le> n" using Cons.prems(2) by (auto simp: x)
  have f: "bit (mdc_rtm d) (31 - i)" "bit (mdc_dlvm d) (31 - i) = b"
      "flagged d (i + 1) (replicate (length ks) (False, False))" "flagged d ?i (mflags ss)"
    using Cons.prems(1) by (auto simp: x flagged_Cons flagged_append)
  have step: "md_scan N p d n i (- 1) 0 s = md_scan N p d n ?i (if b then int i else - 1) 0 s"
    using scan_leafs [OF f(3), of n N p] i n f(1,2) by (subst md_scan.simps) (simp add: GET_I_def)
  show ?case
  proof (cases b)
    case True
    have "\<forall>y \<in> set ((i, q, ks) # places ?i ss). place_ok (mdc_addr d) y"
      using Cons.prems(3) True by (auto simp: x)
    from scan_rest [OF N p n f(4) _ this, of 0 s] show ?thesis
      using Cons.prems(2) True step by (simp add: x)
  next
    case False
    then show ?thesis using Cons.IH [OF f(4)] Cons.prems(2-4) step by (simp add: x)
  qed
qed


section \<open>Data packets\<close>

text \<open>The header lists the segments \<open>ss\<close>, and there is a router to deliver to.\<close>

definition hdr_lists :: "ip6_mdc_hdr \<Rightarrow> mseg list \<Rightarrow> bool" where
  "hdr_lists d ss \<longleftrightarrow> mdc_addr d = mentries ss \<and> unat (hdr_dsts d) = length (mentries ss) \<and>
     length (mentries ss) \<le> 32 \<and> flagged d 0 (mflags ss) \<and> (\<forall>(b, r, ls) \<in> set ss. ls \<noteq> []) \<and> places 0 ss \<noteq> [] \<and>
     data_hdr d"

definition data_packet :: "sk_buff \<Rightarrow> mseg list \<Rightarrow> bool" where
  "data_packet p ss \<longleftrightarrow> (\<exists>d. sk_hdr p = Some d \<and> hdr_lists d ss) \<and> ip_nexthdr (sk_ip p) = IPPROTO_ROUTING \<and>
     udp_len_ok (sk_pl p) (length (sk_pl p)) \<and>
     unat (ip_payload_len (sk_ip p)) = 16 * (length (mentries ss) + 1) + length (sk_pl p)"

lemma data_hdr_rthdr_len:
  assumes "data_hdr d" "length (mdc_addr d) \<le> 32"
  shows "rthdr_len d = Some (16 * (length (mdc_addr d) + 1))"
proof -
  have w: "unat (word_of_nat n :: uint8) = n" if "n < 256" for n
    using that by (simp add: unsigned_of_nat take_bit_nat_eq_self)
  have "unat (word_of_nat (2 * length (mdc_addr d) + 1) :: uint8) = 2 * length (mdc_addr d) + 1"
    by (rule w) (use assms(2) in simp)
  then have "unat (ip6r_len (mdc_rthdr d)) = 2 * length (mdc_addr d) + 1"
    using assms(1) unfolding data_hdr_def by (simp only: ip6_rthdr.simps)
  then show ?thesis by (simp add: rthdr_len_def sizeof_mdc_hdr_def sizeof_in6_addr_def)
qed

lemma hdr_bits_other:
  fixes f :: uint32
  assumes "m AND k = 0" 
  shows "((f AND NOT m) OR (x AND m)) AND k = f AND k"
proof (rule bit_word_eqI)
  fix n
  assume n: "n < LENGTH(32)"
  have "bit (m AND k) n \<longleftrightarrow> False" unfolding assms by simp
  then show "bit (((f AND NOT m) OR (x AND m)) AND k) n \<longleftrightarrow> bit (f AND k) n"
    using n by (auto simp: bit_simps)
qed

lemma mdc_flags_inc_hopcount:
  "mdc_flags (inc_hopcount d) = (mdc_flags d AND NOT 0xFC00) OR (push_bit 10 (hdr_hops d + 1) AND 0xFC00)"
  by (simp add: inc_hopcount_def)

lemma inc_hopcount_other [simp]:
  "mdc_addr (inc_hopcount d) = mdc_addr d" "mdc_dlvm (inc_hopcount d) = mdc_dlvm d"
  "mdc_rtm (inc_hopcount d) = mdc_rtm d" "mdc_rthdr (inc_hopcount d) = mdc_rthdr d"
  "hdr_dsts (inc_hopcount d) = hdr_dsts d" "hdr_dcv (inc_hopcount d) = hdr_dcv d"
  "hdr_rsp (inc_hopcount d) = hdr_rsp d"
proof -
  have b: "bit (0xFC00 :: uint32) 8 \<longleftrightarrow> False" "bit (0xFC00 :: uint32) 9 \<longleftrightarrow> False" by simp_all
  show "hdr_dsts (inc_hopcount d) = hdr_dsts d"
    unfolding hdr_dsts_def mdc_flags_inc_hopcount by (rule hdr_bits_other) simp
  show "hdr_dcv (inc_hopcount d) = hdr_dcv d" "hdr_rsp (inc_hopcount d) = hdr_rsp d"
    by (simp_all add: hdr_dcv_def hdr_rsp_def inc_hopcount_def bit_or_iff bit_and_iff bit_not_iff b)
qed (simp_all add: inc_hopcount_def)

lemma hdr_lists_inc: "hdr_lists (inc_hopcount d) ss \<longleftrightarrow> hdr_lists d ss"
  by (simp add: hdr_lists_def flagged_def data_hdr_def)

text \<open>The packet as \<open>md_data_rcv\<close> treats it, and the packets that leave the router.\<close>

definition at_router :: "sk_buff \<Rightarrow> sk_buff" where
  "at_router p = p\<lparr>sk_ip := (sk_ip p)\<lparr>ip_hop_limit := ip_hop_limit (sk_ip p) - 1\<rparr>,
     sk_hdr := map_option inc_hopcount (sk_hdr p)\<rparr>"

definition router_packets :: "md_net \<Rightarrow> sk_buff \<Rightarrow> mseg list \<Rightarrow> sk_buff list" where
  "router_packets N p ss = concat (map (place_packets N (the (sk_hdr (at_router p))) (at_router p)) (places 0 ss))"

lemma hdr_lists_places:
  assumes "hdr_lists d ss"
  shows "\<forall>x \<in> set (places 0 ss). place_ok (mdc_addr d) x"
  using assms by (intro places_ok) (auto simp: hdr_lists_def)

lemma concat_butlast:
  assumes "xs \<noteq> []" "f (last xs) \<noteq> []"
  shows "concat (map f (butlast xs)) @ butlast (f (last xs)) @ [last (f (last xs))] = concat (map f xs)"
proof -
  have "concat (map f xs) = concat (map f (butlast xs @ [last xs]))" using assms(1) by simp
  then show ?thesis using assms(2) by simp
qed

lemma ip6_forward_data:
  assumes N: "net_up N" and p: "data_packet p ss"
  shows "ip6_forward N p = Some (router_packets N p ss, 0)"
proof -
  obtain d where d: "sk_hdr p = Some d" "hdr_lists d ss" using p by (auto simp: data_packet_def)
  let ?d = "inc_hopcount d" and ?p = "at_router p" and ?P = "places 0 ss"
  have q: "sk_hdr ?p = Some ?d" "8 \<le> length (sk_pl ?p)" "hdr_lists ?d ss"
    using d p by (auto simp: at_router_def data_packet_def udp_len_ok_def hdr_lists_inc)
  then have l: "rthdr_len ?d = Some (16 * (length (mdc_addr ?d) + 1))"
    by (intro data_hdr_rthdr_len) (auto simp: hdr_lists_def)
  have n: "length (mentries ss) \<le> 32" "unat (hdr_dsts d) = length (mentries ss)" "flagged ?d 0 (mflags ss)" "?P \<noteq> []"
    using q(3) by (auto simp: hdr_lists_def)
  note P = hdr_lists_places [OF q(3)]
  obtain r2 j r ls where r: "md_scan N ?p ?d (length (mentries ss)) 0 (- 1) 0 no_output =
        Some (Inr (int j, r2), emit (concat (map (place_packets N ?d ?p) (butlast ?P))) no_output)"
      "last ?P = (j, r, ls)" "(if r2 = 0 then int (length (mentries ss)) else r2) = int (j + 1 + length ls)"
    using scan_first [OF N q(1) l q(2) n(1,3) add_0 P n(4), of no_output] by blast
  have j: "place_ok (mdc_addr ?d) (j, r, ls)" using P last_in_set [OF n(4)] r(2) by metis
  then have ne: "place_packets N ?d ?p (last ?P) \<noteq> []"
    unfolding r(2) by (intro place_packets_not_Nil) (simp add: place_ok_def)
  let ?Q = "place_packets N ?d ?p (j, r, ls)"
  have e: "(if r2 = 0 then int (unat (hdr_dsts ?d)) else r2) = int (j + 1 + length ls)"
    using r(3) unfolding inc_hopcount_other n(2) .
  have "md_data_rcv N (p\<lparr>sk_ip := (sk_ip p)\<lparr>ip_hop_limit := ip_hop_limit (sk_ip p) - 1\<rparr>\<rparr>) no_output =
      Some (0, last ?Q, emit (concat (map (place_packets N ?d ?p) (butlast ?P)) @ butlast ?Q) no_output)"
    using d(1,2) n(2) r(1,2) e md_data_fwd_ok [OF N q(1) l q(2) j]
    by (simp add: md_data_rcv_def at_router_def hdr_lists_def data_hdr_def Let_def split del: if_split)
  moreover have "concat (map (place_packets N ?d ?p) (butlast ?P)) @ butlast ?Q @ [last ?Q] = router_packets N p ss"
    using concat_butlast [of ?P "place_packets N ?d ?p"] n(4) ne r(2) q(1) by (simp add: router_packets_def)
  ultimately show ?thesis
    using N p d by (simp add: ip6_forward_def md_rcv_def data_packet_def hdr_lists_def data_hdr_def no_output_def)
qed


section \<open>The checksum\<close>

text \<open>
  What the functions of the kernel compute, up to the two representations of zero: the ones' complement
  sum of an address, the difference, and the complement of the folded sum.
\<close>

definition csum_ok :: "md_net \<Rightarrow> bool" where
  "csum_ok N \<longleftrightarrow>
     (\<forall>a s. unat (csum_partial N a s) mod 65535 = (words_sum True (in6_bytes a) + unat s) mod 65535) \<and>
     (\<forall>c. csum_unfold N c = ucast c) \<and>
     (\<forall>a b. (unat (csum_sub N a b) + unat b) mod 65535 = unat a mod 65535) \<and>
     (\<forall>s. (unat (csum_fold N s) + unat s) mod 65535 = 0)"

lemma csum_okD:
  assumes "csum_ok N"
  shows "65535 dvd int (unat (csum_partial N a s)) - (int (words_sum True (in6_bytes a)) + int (unat s))"
    "csum_unfold N c = ucast c"
    "65535 dvd int (unat (csum_sub N x y)) + int (unat y) - int (unat x)"
    "65535 dvd int (unat (csum_fold N s)) + int (unat s)"
proof -
  have m: "(m :: nat) mod 65535 = n mod 65535 \<Longrightarrow> 65535 dvd int m - int n" for m n
    by (metis mod_eq_dvd_iff of_nat_mod of_nat_numeral)
  show "65535 dvd int (unat (csum_partial N a s)) - (int (words_sum True (in6_bytes a)) + int (unat s))"
    using m [of "unat (csum_partial N a s)" "words_sum True (in6_bytes a) + unat s"] assms by (simp add: csum_ok_def)
  show "csum_unfold N c = ucast c" using assms by (simp add: csum_ok_def)
  show "65535 dvd int (unat (csum_sub N x y)) + int (unat y) - int (unat x)"
    using m [of "unat (csum_sub N x y) + unat y" "unat x"] assms by (simp add: csum_ok_def)
  show "65535 dvd int (unat (csum_fold N s)) + int (unat s)"
    using m [of "unat (csum_fold N s) + unat s" 0] assms by (simp add: csum_ok_def)
qed

lemma unat_not_ucast: "65535 dvd int (unat (NOT (ucast (c :: uint16)) :: uint32)) + int (unat c)"
proof -
  let ?w = "ucast c :: uint32"
  have "unat c < 2 ^ LENGTH(16)" by (rule unsigned_less)
  then have c: "unat ?w = unat c" by (simp add: unsigned_ucast_eq take_bit_nat_eq_self)
  have "NOT ?w = - 1 - ?w" by (simp add: not_eq_complement)
  moreover have "unat (- 1 - ?w) = unat (- 1 :: uint32) - unat ?w" by (intro unat_sub word_order.extremum)
  moreover have "unat (- 1 :: uint32) = 65535 * 65537"
    by (simp add: unsigned_minus_1_eq_mask mask_eq_exp_minus_1)
  moreover have "unat ?w \<le> 65535 * 65537" using c \<open>unat c < _\<close> by simp
  ultimately have "int (unat (NOT ?w)) + int (unat c) = 65535 * 65537" using c by simp
  then show ?thesis by simp
qed

lemma csum_replace_ok:
  assumes N: "csum_ok N"
  shows "65535 dvd int (unat (csum_replace N old new c)) + int (words_sum True (in6_bytes new)) -
    (int (unat c) + int (words_sum True (in6_bytes old)))"
proof -
  let ?n = "int (words_sum True (in6_bytes new))" and ?o = "int (words_sum True (in6_bytes old))"
  let ?x = "NOT (csum_unfold N c)"
  let ?a = "csum_partial N new ?x" and ?b = "csum_partial N old 0"
  let ?s = "csum_sub N ?a ?b"
  let ?f = "csum_fold N ?s" and ?c = "csum_replace N old new c"
  note D = csum_okD [OF N]
  have x: "65535 dvd int (unat ?x) + int (unat c)" unfolding D(2) by (rule unat_not_ucast)
  have c: "65535 dvd int (unat ?c) - int (unat ?f)"
    by (simp add: csum_replace_def Let_def CSUM_MANGLED_0_def)
  have b: "65535 dvd int (unat ?b) - ?o" using D(1) [of old 0] by simp
  note dvd_diff [OF dvd_diff [OF dvd_add [OF dvd_diff [OF dvd_add [OF c D(4) [of ?s]] D(3) [of ?a ?b]] b] D(1) [of new ?x]] x]
  then show ?thesis by (simp add: algebra_simps)
qed

text \<open>A UDP packet checks if and only if its sum is a multiple of 65535; the sum itself is never zero.\<close>

lemma udp_checks_sum:
  assumes "unat (load16 4 pl) \<le> length pl"
  shows "udp_checks src dst pl \<longleftrightarrow> 65535 dvd segment_sum (load16 4 pl) 17 (in6_bytes src) (in6_bytes dst) pl"
proof -
  let ?n = "segment_sum (load16 4 pl) 17 (in6_bytes src) (in6_bytes dst) pl"
  have n: "?n < 2 ^ 32" "?n \<noteq> 0" using segment_sum_bound [of "load16 4 pl" 17 "in6_bytes src" "in6_bytes dst" pl]
    by (auto simp: segment_sum_def)
  obtain r where r: "unat (net_checksum_finish (word_of_nat ?n)) = 65535 - r" "r \<le> 65535"
      "r mod 65535 = ?n mod 65535" "r \<noteq> 0"
    using finish_sum [OF n(1)] n(2) by blast
  have "udp_checks src dst pl \<longleftrightarrow> net_checksum_finish (word_of_nat ?n) = 0"
    using net_checksum_tcpudp_sum [of "load16 4 pl" pl "in6_bytes src" "in6_bytes dst" 17] assms
    by (simp add: udp_checks_def)
  also have "\<dots> \<longleftrightarrow> r = 65535" using r(1,2) by (simp add: unat_eq_0 [symmetric])
  also have "\<dots> \<longleftrightarrow> 65535 dvd ?n"
    using r(2-4) by (cases "r = 65535") (auto simp: dvd_eq_mod_eq_0)
  finally show ?thesis .
qed

text \<open>The sum without the checksum field.\<close>

lemma words_sum_clear:
  assumes "even i" "i + 1 < length bs"
  shows "words_sum True bs = words_sum True (store16 i 0 bs) + unat (load16 i bs)"
proof -
  let ?z = "store16 i 0 bs"
  have z: "?z ! i = 0" "?z ! (i + 1) = 0" using assms by (simp_all add: store16_def)
  have "store16 i (load16 i bs) ?z = bs" 
  proof (intro nth_equalityI)
    fix j
    have "ucast (drop_bit 8 (load16 i bs)) = bs ! i" "ucast (load16 i bs) = bs ! (i + 1)"
      by (rule bit_word_eqI, auto simp: load16_def bit_simps dest: bit_imp_le_length)+
    then show "store16 i (load16 i bs) ?z ! j = bs ! j" using assms
      by (auto simp: store16_def nth_list_update)
  qed simp
  then show ?thesis using words_sum_store16 [of i ?z "load16 i bs"] assms z by simp
qed

lemma segment_sum_store:
  assumes "8 \<le> unat n" "unat n \<le> length pl"
  shows "int (segment_sum n p src (in6_bytes b) (store16 6 c pl)) =
    int (segment_sum n p src (in6_bytes a) pl) - int (unat (load16 6 pl)) - int (words_sum True (in6_bytes a)) +
    int (unat c) + int (words_sum True (in6_bytes b))"
proof -
  let ?t = "take (unat n) pl"
  have l: "load16 6 ?t = load16 6 pl" using assms by (simp add: load16_def)
  have len: "6 + 1 < length ?t" using assms by simp
  have z: "store16 6 0 ?t ! 6 = 0" "store16 6 0 ?t ! (6 + 1) = 0" using len by (simp_all add: store16_def)
  have "store16 6 c (store16 6 0 ?t) = store16 6 c ?t" by (simp add: store16_def list_update_swap [of 6 7])
  then have "words_sum True (store16 6 c ?t) = words_sum True (store16 6 0 ?t) + unat c"
    using words_sum_store16 [OF _ _ z, of c] len by simp
  then show ?thesis
    using words_sum_clear [OF _ len] assms l by (simp add: segment_sum_def take_store16)
qed

lemma fix_check_ok:
  assumes N: "csum_ok N" and l: "udp_len_ok (sk_pl p) (length (sk_pl p))"
    and ck: "udp_checks src (ip_daddr (sk_ip p)) (sk_pl p)"
  shows "udp_checks src a (fix_check N a p)" "udp_like (sk_pl p) (fix_check N a p)"
    "load16 2 (fix_check N a p) = load16 2 (sk_pl p)"
proof -
  let ?n = "load16 4 (sk_pl p)" and ?o = "ip_daddr (sk_ip p)"
  let ?c = "csum_replace N ?o a (load16 6 (sk_pl p))"
  have n: "8 \<le> unat ?n" "unat ?n \<le> length (sk_pl p)" using l by (auto simp: udp_len_ok_def)
  show like: "udp_like (sk_pl p) (fix_check N a p)" unfolding fix_check_def by (rule udp_like_store) simp
  then have n': "load16 4 (fix_check N a p) = ?n" using n by (intro udp_like_len) auto
  have "65535 dvd int (segment_sum ?n 17 (in6_bytes src) (in6_bytes ?o) (sk_pl p))"
    using ck n udp_checks_sum [of "sk_pl p" src ?o] by (metis int_dvd_int_iff of_nat_numeral)
  from dvd_add [OF this csum_replace_ok [OF N, of ?o a "load16 6 (sk_pl p)"]]
  have "65535 dvd int (segment_sum ?n 17 (in6_bytes src) (in6_bytes a) (fix_check N a p))"
    unfolding fix_check_def segment_sum_store [OF n, of _ _ a _ ?o] by (simp add: algebra_simps)
  then have "65535 dvd segment_sum ?n 17 (in6_bytes src) (in6_bytes a) (fix_check N a p)"
    by (metis int_dvd_int_iff of_nat_numeral)
  moreover have "unat ?n \<le> length (fix_check N a p)" using n by (simp add: fix_check_def)
  ultimately show "udp_checks src a (fix_check N a p)"
    using udp_checks_sum [of "fix_check N a p" src a] n' by simp
  show "load16 2 (fix_check N a p) = load16 2 (sk_pl p)" unfolding fix_check_def by (rule load16_other) simp
qed

end
