(* ===== verification/RouterDelivery.thy ===== *)
theory RouterDelivery
  imports RouterProof
begin

text \<open>
  A router passes on a packet for the receivers it was for: whom a packet is for, what the packets
  that leave a router look like, and that nobody is lost or served twice.
\<close>


section \<open>Whom a packet is for\<close>

text \<open>
  The receivers of the routers that are marked in both bitmaps, as the header names them; a packet
  without the header is for its destination.
\<close>

definition flag_entries :: "ip6_mdc_hdr \<Rightarrow> nat \<Rightarrow> 'a list \<Rightarrow> (bool \<times> bool \<times> 'a) list" where
  "flag_entries d i xs = map (\<lambda>(j, a). (bit (mdc_rtm d) (31 - j), bit (mdc_dlvm d) (31 - j), a)) (enumerate i xs)"

definition due_groups :: "(bool \<times> bool \<times> 'a) list \<Rightarrow> ('a \<times> 'a list) list" where
  "due_groups xs = map (\<lambda>(x, ls). (snd x, map snd ls)) (filter (\<lambda>(x, ls). fst x) (split_marked xs))"

definition pkt_groups :: "sk_buff \<Rightarrow> (in6_addr \<times> in6_addr list) list" where
  "pkt_groups p = (case sk_hdr p of None \<Rightarrow> []
     | Some d \<Rightarrow> due_groups (flag_entries d 0 (take (unat (hdr_dsts d)) (mdc_addr d))))"

definition pkt_due :: "sk_buff \<Rightarrow> in6_addr list" where
  "pkt_due p = (if sk_hdr p = None then [ip_daddr (sk_ip p)] else concat (map snd (pkt_groups p)))"

lemma flag_entries_simps:
  "flag_entries d i [] = []"
  "flag_entries d i (x # xs) = (bit (mdc_rtm d) (31 - i), bit (mdc_dlvm d) (31 - i), x) # flag_entries d (i + 1) xs"
  "flag_entries d i (xs @ ys) = flag_entries d i xs @ flag_entries d (i + length xs) ys"
  by (simp_all add: flag_entries_def enumerate_append_eq)

lemma flag_entries_leafs:
  assumes "flagged d i (replicate (length ls) (False, False))"
  shows "\<forall>x \<in> set (flag_entries d i ls). \<not> fst x" "map (snd \<circ> snd) (flag_entries d i ls) = ls"
  using assms by (induction ls arbitrary: i) (auto simp: flag_entries_simps flagged_Cons)

lemma due_groups_places:
  "flagged d i (mflags ss) \<Longrightarrow> due_groups (flag_entries d i (mentries ss)) = map snd (places i ss)"
proof (induction i ss rule: places.induct)
  case (1 i)
  then show ?case by (simp add: flag_entries_simps due_groups_def)
next
  case (2 i b r ls ss)
  let ?i = "i + 1 + length ls"
  let ?z = "flag_entries d (i + 1) ls" and ?t = "flag_entries d ?i (mentries ss)"
  have f: "bit (mdc_rtm d) (31 - i)" "bit (mdc_dlvm d) (31 - i) = b"
      "flagged d (i + 1) (replicate (length ls) (False, False))" "flagged d ?i (mflags ss)"
    using 2(2) by (auto simp: flagged_Cons flagged_append)
  note z = flag_entries_leafs [OF f(3)]
  have t: "takeWhile (\<lambda>x. \<not> fst x) ?t = []" "dropWhile (\<lambda>x. \<not> fst x) ?t = ?t"
    using f(4) by (cases ss; force simp: flag_entries_simps flagged_Cons)+
  have "takeWhile (\<lambda>x. \<not> fst x) (?z @ ?t) = ?z" "dropWhile (\<lambda>x. \<not> fst x) (?z @ ?t) = ?t"
    using z(1) t by (simp_all add: takeWhile_append2 dropWhile_append2)
  moreover have "flag_entries d i (mentries ((b, r, ls) # ss)) = (True, b, r) # ?z @ ?t"
    using f by (simp add: flag_entries_simps)
  ultimately show ?case using 2(1) [OF f(4)] z(2) by (simp add: due_groups_def comp_def)
qed

lemma hdr_lists_due:
  assumes "hdr_lists d ss"
  shows "due_groups (flag_entries d 0 (take (unat (hdr_dsts d)) (mdc_addr d))) = map snd (places 0 ss)"
  using assms due_groups_places [of d 0 ss] by (simp add: hdr_lists_def)

lemma data_packet_groups:
  assumes "data_packet p ss"
  shows "pkt_groups p = map snd (places 0 ss)" "pkt_due p = concat (map (snd \<circ> snd) (places 0 ss))"
  using assms hdr_lists_due by (auto simp: data_packet_def pkt_groups_def pkt_due_def)


section \<open>One router left\<close>

text \<open>The segments with only the one at position \<open>i\<close> to be delivered.\<close>

fun mark_at :: "nat \<Rightarrow> nat \<Rightarrow> mseg list \<Rightarrow> mseg list" where
  "mark_at i k [] = []"
| "mark_at i k ((b, r, ls) # ss) = (k = i, r, ls) # mark_at i (k + 1 + length ls) ss"

lemma mentries_mark_at [simp]: "mentries (mark_at i k ss) = mentries ss"
  by (induction i k ss rule: mark_at.induct) auto

lemma mark_at_leafs: "\<forall>(b, r, ls) \<in> set ss. ls \<noteq> [] \<Longrightarrow> \<forall>(b, r, ls) \<in> set (mark_at i k ss). ls \<noteq> []"
  by (induction i k ss rule: mark_at.induct) auto

lemma places_mark_past: "i < k \<Longrightarrow> places k (mark_at i k ss) = []"
  by (induction i k ss rule: mark_at.induct) auto

lemma places_ge: "(i, x) \<in> set (places k ss) \<Longrightarrow> k \<le> i"
  by (induction k ss rule: places.induct) (auto split: if_splits)

lemma places_mark_at: "(i, r, ls) \<in> set (places k ss) \<Longrightarrow> places k (mark_at i k ss) = [(i, r, ls)]"
proof (induction i k ss rule: mark_at.induct)
  case (2 i k b q ks ss)
  show ?case
  proof (cases "k = i")
    case True
    then show ?thesis
      using 2(2) places_ge [of i "(r, ls)" "k + 1 + length ks" ss] by (auto simp: places_mark_past split: if_splits)
  next
    case False
    then show ?thesis using 2 by (auto split: if_splits)
  qed
qed simp

lemma flagged_mark_at:
  "i < 32 \<Longrightarrow> flagged d k (mflags ss) \<Longrightarrow> k + length (mentries ss) \<le> 32 \<Longrightarrow>
    flagged (d\<lparr>mdc_dlvm := push_bit (31 - i) 1\<rparr>) k (mflags (mark_at i k ss))"
proof (induction i k ss rule: mark_at.induct)
  case (2 i k b r ls ss)
  have k: "k < 32" "i < 32" using 2(2,4) by simp_all
  then have "31 - k = 31 - i \<longleftrightarrow> k = i" by arith
  then have "bit (push_bit (31 - i) 1 :: uint32) (31 - k) \<longleftrightarrow> k = i" using k by (auto simp: bit_exp_iff)
  then show ?case
    using 2 by (auto simp: flagged_Cons flagged_append) (simp_all add: flagged_def)
qed (simp add: flagged_def)

lemma hdr_lists_mark_at:
  assumes "hdr_lists d ss" and "(i, r, ls) \<in> set (places 0 ss)"
  shows "hdr_lists (d\<lparr>mdc_dlvm := push_bit (31 - i) 1\<rparr>) (mark_at i 0 ss)"
proof -
  have i: "i < 32" using hdr_lists_places [OF assms(1)] assms(2) by (auto simp: place_ok_def)
  have other: "hdr_dsts (d\<lparr>mdc_dlvm := x\<rparr>) = hdr_dsts d" "data_hdr (d\<lparr>mdc_dlvm := x\<rparr>) = data_hdr d" for x
    by (simp_all add: hdr_dsts_def data_hdr_def hdr_dcv_def hdr_rsp_def)
  show ?thesis
    using assms(1) flagged_mark_at [OF i, of d 0 ss] places_mark_at [OF assms(2)] mark_at_leafs [of ss i 0]
    unfolding hdr_lists_def other by simp
qed


section \<open>The packets behind a router\<close>

text \<open>The source, the destination port and the payload up to the checksum are those of the packet \<open>p\<close>.\<close>

definition same_content :: "sk_buff \<Rightarrow> sk_buff \<Rightarrow> bool" where
  "same_content p q \<longleftrightarrow> ip_saddr (sk_ip q) = ip_saddr (sk_ip p) \<and> udp_like (sk_pl p) (sk_pl q) \<and>
     load16 2 (sk_pl q) = load16 2 (sk_pl p)"

text \<open>A UDP packet whose lengths and checksum are right, plain or under a MEADcast header.\<close>

definition pkt_ok :: "sk_buff \<Rightarrow> bool" where
  "pkt_ok p \<longleftrightarrow> udp_len_ok (sk_pl p) (length (sk_pl p)) \<and>
     udp_checks (ip_saddr (sk_ip p)) (ip_daddr (sk_ip p)) (sk_pl p) \<and>
     (case sk_hdr p of
        None \<Rightarrow> ip_nexthdr (sk_ip p) = IPPROTO_UDP \<and> unat (ip_payload_len (sk_ip p)) = length (sk_pl p)
      | Some d \<Rightarrow> \<exists>ss. data_packet p ss)"

lemma same_content_refl [simp]: "same_content p p"
  by (simp add: same_content_def)

lemma same_content_trans: "same_content p q \<Longrightarrow> same_content q r \<Longrightarrow> same_content p r"
  using udp_like_trans by (auto simp: same_content_def)

lemma at_router_simps [simp]:
  "sk_pl (at_router p) = sk_pl p" "ip_saddr (sk_ip (at_router p)) = ip_saddr (sk_ip p)"
  "ip_daddr (sk_ip (at_router p)) = ip_daddr (sk_ip p)" "ip_nexthdr (sk_ip (at_router p)) = ip_nexthdr (sk_ip p)"
  "ip_payload_len (sk_ip (at_router p)) = ip_payload_len (sk_ip p)"
  "sk_hdr (at_router p) = map_option inc_hopcount (sk_hdr p)"
  by (simp_all add: at_router_def)

lemma udp_len_ok_fix: "udp_len_ok (sk_pl p) (length (sk_pl p)) \<Longrightarrow>
    udp_len_ok (fix_check N a p) (length (fix_check N a p))"
  using udp_like_store [of 6 "sk_pl p"] udp_like_ok [of "sk_pl p" "fix_check N a p" "length (sk_pl p)"]
  by (simp add: fix_check_def)

lemma router_packet_ok:
  assumes N: "csum_ok N" and p: "data_packet p ss"
    and ck: "udp_checks (ip_saddr (sk_ip p)) (ip_daddr (sk_ip p)) (sk_pl p)"
    and P: "(i, r, ls) \<in> set (places 0 ss)"
    and q: "q \<in> set (place_packets N (the (sk_hdr (at_router p))) (at_router p) (i, r, ls))"
  shows "same_content p q \<and> pkt_ok q \<and> (if by_unicast N r ls
    then sk_hdr q = None \<and> ip_daddr (sk_ip q) \<in> set ls
    else data_packet q (mark_at i 0 ss) \<and> ip_daddr (sk_ip q) = hd ls)"
proof -
  obtain d where d: "sk_hdr p = Some d" "hdr_lists (inc_hopcount d) ss"
    using p by (auto simp: data_packet_def hdr_lists_inc)
  let ?d = "inc_hopcount d"
  have len: "rthdr_len ?d = Some (16 * (length (mentries ss) + 1))"
    using d(2) data_hdr_rthdr_len [of ?d] by (simp add: hdr_lists_def)
  have l: "udp_len_ok (sk_pl p) (length (sk_pl p))"
      "unat (ip_payload_len (sk_ip p)) = 16 * (length (mentries ss) + 1) + length (sk_pl p)"
    using p by (auto simp: data_packet_def)
  have "unat (ip_payload_len (sk_ip p)) < 2 ^ LENGTH(16)" by (rule unsigned_less)
  then have small: "length (sk_pl p) < 2 ^ 16" using l(2) by simp
  let ?f = "\<lambda>a. fix_check N a (at_router p)"
  have f: "udp_checks (ip_saddr (sk_ip p)) a (?f a)" "udp_like (sk_pl p) (?f a)" "load16 2 (?f a) = load16 2 (sk_pl p)"
      "udp_len_ok (?f a) (length (?f a))" "length (?f a) = length (sk_pl p)" for a
    using fix_check_ok [OF N, of "at_router p"] udp_len_ok_fix [of "at_router p"] l(1) ck
    by (simp_all add: fix_check_def)
  show ?thesis
  proof (cases "by_unicast N r ls")
    case True
    then obtain a where a: "a \<in> set ls" "q = uni_of N ?d (at_router p) a"
      using q d(1) by (auto simp: place_packets_def)
    have "ip6r_nxt (mdc_rthdr ?d) = IPPROTO_UDP" using d(2) by (simp add: hdr_lists_def data_hdr_def)
    moreover have "unat (word_of_nat (length (sk_pl p)) :: uint16) = length (sk_pl p)"
      using small by (simp add: unsigned_of_nat take_bit_nat_eq_self)
    ultimately show ?thesis
      using True a f l len by (simp add: uni_of_def same_content_def pkt_ok_def)
  next
    case False
    then have q: "q = mdc_of N ?d (at_router p) i (hd ls)" using q d(1) by (simp add: place_packets_def)
    have "data_packet q (mark_at i 0 ss)"
      using hdr_lists_mark_at [OF d(2) P] p f by (simp add: q mdc_of_def data_packet_def)
    then show ?thesis
      using False f by (auto simp: q mdc_of_def same_content_def pkt_ok_def)
  qed
qed

lemma place_packets_due:
  assumes p: "data_packet p ss" and P: "(i, r, ls) \<in> set (places 0 ss)"
  shows "concat (map pkt_due (place_packets N (the (sk_hdr (at_router p))) (at_router p) (i, r, ls))) = ls"
proof (cases "by_unicast N r ls")
  case True
  have "concat (map pkt_due (map (uni_of N d p) ls)) = ls" for d p
    by (induction ls) (simp_all add: pkt_due_def uni_of_def)
  then show ?thesis using True by (simp add: place_packets_def)
next
  case False
  obtain d where d: "sk_hdr p = Some d" "hdr_lists (inc_hopcount d) ss"
    using p by (auto simp: data_packet_def hdr_lists_inc)
  let ?q = "mdc_of N (inc_hopcount d) (at_router p) i (hd ls)"
  have "due_groups (flag_entries x 0 (take (unat (hdr_dsts x)) (mdc_addr x))) = [(r, ls)]"
    if "x = (inc_hopcount d)\<lparr>mdc_dlvm := push_bit (31 - i) 1\<rparr>" for x
    using hdr_lists_due [OF hdr_lists_mark_at [OF d(2) P]] places_mark_at [OF P] by (simp add: that)
  then have "pkt_due ?q = ls" by (simp add: pkt_due_def pkt_groups_def mdc_of_def)
  then show ?thesis using False d(1) by (simp add: place_packets_def)
qed

end
