(* ===== verification/Network.thy ===== *)
theory Network
  imports RouterDelivery "HOL-Library.Multiset"
begin

text \<open>
  The sender's packets in a network of routers: whatever routers they pass in whatever order, they
  stay packets for the same receivers, each once; and the sender's requests are answered by the
  routers they pass.
\<close>


section \<open>One router\<close>

lemma pkt_groups_places:
  "data_packet p ss \<Longrightarrow> (i, r, ls) \<in> set (places 0 ss) \<Longrightarrow> (r, ls) \<in> set (pkt_groups p)"
  by (force simp: data_packet_groups)

lemma concat_map_concat: "concat (map f (concat xss)) = concat (map (\<lambda>xs. concat (map f xs)) xss)"
  by (induction xss) auto

lemma forward_data_ok:
  assumes N: "net_up N" "csum_ok N" and p: "pkt_ok p" "sk_hdr p \<noteq> None"
  shows "\<exists>qs. ip6_forward N p = Some (qs, 0) \<and> concat (map pkt_due qs) = pkt_due p \<and>
    (\<forall>q \<in> set qs. pkt_ok q \<and> same_content p q \<and>
      (case sk_hdr q of
         None \<Rightarrow> \<exists>(r, ls) \<in> set (pkt_groups p). by_unicast N r ls \<and> ip_daddr (sk_ip q) \<in> set ls
       | Some d \<Rightarrow> \<exists>(r, ls) \<in> set (pkt_groups p). \<not> by_unicast N r ls \<and> pkt_groups q = [(r, ls)] \<and>
           ip_daddr (sk_ip q) = hd ls))"
proof -
  obtain d ss where d: "sk_hdr p = Some d" "data_packet p ss"
    and ck: "udp_checks (ip_saddr (sk_ip p)) (ip_daddr (sk_ip p)) (sk_pl p)"
    using p by (auto simp: pkt_ok_def)
  let ?f = "place_packets N (the (sk_hdr (at_router p))) (at_router p)"
  have "map (\<lambda>x. concat (map pkt_due (?f x))) (places 0 ss) = map (snd \<circ> snd) (places 0 ss)"
    using place_packets_due [OF d(2)] by auto
  then have "concat (map pkt_due (router_packets N p ss)) = pkt_due p"
    unfolding router_packets_def concat_map_concat map_map comp_def data_packet_groups(2) [OF d(2)] by (rule arg_cong)
  moreover have "pkt_ok q \<and> same_content p q \<and>
      (case sk_hdr q of
         None \<Rightarrow> \<exists>(r, ls) \<in> set (pkt_groups p). by_unicast N r ls \<and> ip_daddr (sk_ip q) \<in> set ls
       | Some d \<Rightarrow> \<exists>(r, ls) \<in> set (pkt_groups p). \<not> by_unicast N r ls \<and> pkt_groups q = [(r, ls)] \<and>
           ip_daddr (sk_ip q) = hd ls)" if q: "q \<in> set (router_packets N p ss)" for q
  proof -
    obtain i r ls where P: "(i, r, ls) \<in> set (places 0 ss)" "q \<in> set (?f (i, r, ls))"
      using q by (auto simp: router_packets_def)
    note R = router_packet_ok [OF N(2) d(2) ck P]
    have "\<not> by_unicast N r ls \<Longrightarrow> pkt_groups q = [(r, ls)] \<and> sk_hdr q \<noteq> None"
      using R data_packet_groups(1) [of q "mark_at i 0 ss"] places_mark_at [OF P(1)] by (auto simp: data_packet_def)
    then show ?thesis using R pkt_groups_places [OF d(2) P(1)] by (auto split: option.splits if_splits)
  qed
  ultimately show ?thesis using ip6_forward_data [OF N(1) d(2)] by blast
qed

lemma forward_plain_ok:
  assumes p: "pkt_ok p" "sk_hdr p = None"
  shows "\<exists>q. ip6_forward N p = Some ([q], 0) \<and> pkt_ok q \<and> same_content p q \<and> sk_hdr q = None \<and>
    ip_daddr (sk_ip q) = ip_daddr (sk_ip p)"
  using p by (auto simp: ip6_forward_def pkt_ok_def same_content_def IPPROTO_UDP_def IPPROTO_ROUTING_def no_output_def Let_def)

lemma forward_ok:
  assumes N: "net_up N" "csum_ok N" and p: "pkt_ok p"
  shows "\<exists>qs. ip6_forward N p = Some (qs, 0) \<and> concat (map pkt_due qs) = pkt_due p \<and>
    (\<forall>q \<in> set qs. pkt_ok q \<and> same_content p q)"
proof (cases "sk_hdr p")
  case None
  then show ?thesis using forward_plain_ok [OF p None, of N] by (auto simp: pkt_due_def)
next
  case (Some d)
  then show ?thesis using forward_data_ok [OF N p] by blast
qed


text \<open>A router that is responsible for all that the packet is to be delivered to.\<close>

lemma forward_own_ok:
  assumes N: "net_up N" "csum_ok N" and p: "pkt_ok p" "sk_hdr p \<noteq> None"
    and own: "\<forall>(r, ls) \<in> set (pkt_groups p). mn_own N r"
  shows "\<exists>qs. ip6_forward N p = Some (qs, 0) \<and> (\<forall>q \<in> set qs. sk_hdr q = None \<and> pkt_ok q \<and> same_content p q) \<and>
    map (\<lambda>q. ip_daddr (sk_ip q)) qs = pkt_due p"
proof -
  obtain qs where qs: "ip6_forward N p = Some (qs, 0)" "concat (map pkt_due qs) = pkt_due p"
    "\<forall>q \<in> set qs. pkt_ok q \<and> same_content p q \<and>
      (case sk_hdr q of
         None \<Rightarrow> \<exists>(r, ls) \<in> set (pkt_groups p). by_unicast N r ls \<and> ip_daddr (sk_ip q) \<in> set ls
       | Some d \<Rightarrow> \<exists>(r, ls) \<in> set (pkt_groups p). \<not> by_unicast N r ls \<and> pkt_groups q = [(r, ls)] \<and>
           ip_daddr (sk_ip q) = hd ls)"
    using forward_data_ok [OF N p] by blast
  have plain: "\<forall>q \<in> set qs. sk_hdr q = None" using qs(3) own by (fastforce simp: by_unicast_def split: option.splits)
  then have "map pkt_due qs = map (\<lambda>q. [ip_daddr (sk_ip q)]) qs" by (simp add: pkt_due_def)
  moreover have "concat (map (\<lambda>q. [ip_daddr (sk_ip q)]) qs) = map (\<lambda>q. ip_daddr (sk_ip q)) qs" by (induction qs) auto
  ultimately have "map (\<lambda>q. ip_daddr (sk_ip q)) qs = pkt_due p" by (metis qs(2))
  then show ?thesis using qs(1,3) plain by blast
qed


section \<open>A network\<close>

text \<open>A step: one of the packets under way passes one of the routers.\<close>

inductive transit :: "md_net set \<Rightarrow> sk_buff multiset \<Rightarrow> sk_buff multiset \<Rightarrow> bool" for Ns where
  pass: "N \<in> Ns \<Longrightarrow> ip6_forward N p = Some (qs, k) \<Longrightarrow> transit Ns (add_mset p C) (mset qs + C)"

inductive_cases transitE: "transit Ns C C'"

definition all_due :: "sk_buff multiset \<Rightarrow> in6_addr multiset" where
  "all_due C = (\<Sum>p \<in># C. mset (pkt_due p))"

definition routers_up :: "md_net set \<Rightarrow> bool" where
  "routers_up Ns \<longleftrightarrow> (\<forall>N \<in> Ns. net_up N \<and> csum_ok N)"

lemma all_due_simps [simp]:
  "all_due {#} = {#}" "all_due (add_mset p C) = mset (pkt_due p) + all_due C" "all_due (C + D) = all_due C + all_due D"
  by (simp_all add: all_due_def)

lemma all_due_mset: "all_due (mset qs) = mset (concat (map pkt_due qs))"
  by (induction qs) auto

lemma all_due_plain:
  "\<forall>p \<in># C. sk_hdr p = None \<Longrightarrow> all_due C = image_mset (\<lambda>p. ip_daddr (sk_ip p)) C"
  by (induction C) (auto simp: pkt_due_def)

text \<open>The packets under way are right, carry the data of packets in \<open>C0\<close>, and are for \<open>L\<close>.\<close>

definition under_way :: "sk_buff multiset \<Rightarrow> in6_addr multiset \<Rightarrow> sk_buff multiset \<Rightarrow> bool" where
  "under_way C0 L C \<longleftrightarrow> all_due C = L \<and> (\<forall>q \<in># C. pkt_ok q \<and> (\<exists>p \<in># C0. same_content p q))"

lemma transit_under_way:
  assumes Ns: "routers_up Ns" and C: "under_way C0 L C" and step: "transit Ns C C'"
  shows "under_way C0 L C'"
  using step
proof cases
  case (pass N p qs k D)
  have p: "pkt_ok p" "\<exists>x \<in># C0. same_content x p" using C pass(1) by (auto simp: under_way_def)
  have N: "net_up N" "csum_ok N" using Ns pass(3) by (auto simp: routers_up_def)
  from forward_ok [OF N p(1)] pass(4) have qs: "concat (map pkt_due qs) = pkt_due p"
    "\<forall>q \<in> set qs. pkt_ok q \<and> same_content p q" by auto
  have "\<forall>q \<in> set qs. \<exists>x \<in># C0. same_content x q" using p(2) qs(2) same_content_trans by blast
  then show ?thesis using C pass(1,2) qs by (auto simp: under_way_def all_due_mset)
qed

lemma transits_under_way:
  assumes Ns: "routers_up Ns" and C: "(transit Ns)\<^sup>*\<^sup>* C C'" "under_way C0 L C"
  shows "under_way C0 L C'"
  using C by (induction rule: rtranclp_induct) (auto intro: transit_under_way [OF Ns])

text \<open>No packet is stuck at a router.\<close>

lemma transit_progress:
  assumes "routers_up Ns" "under_way C0 L C" "p \<in># C" "N \<in> Ns"
  shows "\<exists>qs k. ip6_forward N p = Some (qs, k) \<and> transit Ns C (mset qs + (C - {#p#}))"
proof -
  obtain qs k where "ip6_forward N p = Some (qs, k)"
    using assms forward_ok [of N p] by (auto simp: routers_up_def under_way_def)
  then show ?thesis using transit.pass [OF assms(4), of p qs k "C - {#p#}"] assms(3) by auto
qed


section \<open>The sender's packets\<close>

text \<open>
  What is on the wire for the packets of \<open>tx\<close>: a unicast packet as it was written, and the MEADcast
  header with the payload behind an IPv6 header that the sender's kernel makes.
\<close>

definition uni_on_wire :: "uni_packet \<Rightarrow> sk_buff \<Rightarrow> bool" where
  "uni_on_wire u p \<longleftrightarrow> sk_ip p = up_ip u \<and> sk_hdr p = None \<and> sk_pl p = up_payload u"

definition mdc_on_wire :: "in6_addr \<Rightarrow> mdc_packet \<Rightarrow> sk_buff \<Rightarrow> bool" where
  "mdc_on_wire bia m p \<longleftrightarrow> ip_saddr (sk_ip p) = bia \<and> ip_daddr (sk_ip p) = mp_dst m \<and>
     ip_nexthdr (sk_ip p) = IPPROTO_ROUTING \<and>
     ip_payload_len (sk_ip p) = word_of_nat (get_mdc_hdr_size (length (mdc_addr (mp_hdr m))) + length (mp_payload m)) \<and>
     sk_hdr p = Some (mp_hdr m) \<and> sk_pl p = mp_payload m"

definition on_wire :: "in6_addr \<Rightarrow> uni_packet list \<Rightarrow> mdc_packet list \<Rightarrow> sk_buff list \<Rightarrow> bool" where
  "on_wire bia us ms ps \<longleftrightarrow> (\<exists>ps1 ps2. ps = ps1 @ ps2 \<and> list_all2 (mdc_on_wire bia) ms ps1 \<and> list_all2 uni_on_wire us ps2)"

text \<open>The segments of a header that the sender has made.\<close>

definition sent_segs :: "heap \<Rightarrow> seg list \<Rightarrow> mseg list" where
  "sent_segs h g = map (\<lambda>(y, ls). (True, raddr h y, map (laddr h) ls)) g"

lemma sent_segs_entries:
  "mentries (sent_segs h g) = entries h g" "mflags (sent_segs h g) = map (\<lambda>b. (b, b)) (flags g)"
  by (induction g) (auto simp: sent_segs_def map_replicate_const)

lemma sent_segs_places: "map snd (places i (sent_segs h g)) = map (\<lambda>(y, ls). (raddr h y, map (laddr h) ls)) g"
  by (induction g arbitrary: i) (auto simp: sent_segs_def)

lemma sent_segs_leafs: "\<forall>s \<in> set g. snd s \<noteq> [] \<Longrightarrow> \<forall>(b, r, ls) \<in> set (sent_segs h g). ls \<noteq> []"
  by (auto simp: sent_segs_def)

lemma hdr_ok_lists:
  assumes d: "hdr_ok h mx d g" and mx: "mx \<le> 32"
  shows "hdr_lists d (sent_segs h g)"
proof -
  have "flagged d 0 (map (\<lambda>b. (b, b)) (flags g))"
    unfolding flagged_def
  proof (intro allI impI)
    fix j assume "j < length (map (\<lambda>b. (b, b)) (flags g))"
    then have "j < length (flags g)" "j < 32" using d mx by (auto simp: hdr_ok_def length_flags [of g h])
    then show "bit (mdc_rtm d) (31 - (0 + j)) = fst (map (\<lambda>b. (b, b)) (flags g) ! j) \<and>
        (fst (map (\<lambda>b. (b, b)) (flags g) ! j) \<longrightarrow> bit (mdc_dlvm d) (31 - (0 + j)) = snd (map (\<lambda>b. (b, b)) (flags g) ! j))"
      using d by (simp add: hdr_ok_def bits_ok_def)
  qed
  moreover have "places 0 (sent_segs h g) \<noteq> []"
    using d sent_segs_places [of 0 h g] by (auto simp: hdr_ok_def)
  ultimately show ?thesis
    using d mx sent_segs_leafs [of g h] by (auto simp: hdr_lists_def sent_segs_entries hdr_ok_def)
qed

lemma udp_like_len_ok:
  assumes "udp_like (take n pl) pl'" "udp_len_ok pl n"
  shows "udp_len_ok pl' (length pl')"
proof -
  have n: "8 \<le> n" "n \<le> length pl" using assms(2) by (auto simp: udp_len_ok_def)
  then have "load16 4 pl' = load16 4 pl" using udp_like_len [OF assms(1)] by (simp add: load16_take)
  then show ?thesis using assms n by (auto simp: udp_len_ok_def udp_like_def)
qed

lemma mdc_wire_ok:
  assumes d: "hdr_ok h mx (mp_hdr m) g" "mx \<le> 32" and w: "mdc_on_wire bia m p"
    and pl: "udp_like (take n pl) (mp_payload m)" "udp_len_ok pl n" "udp_checks bia (mp_dst m) (mp_payload m)"
    and n: "n + 528 < 2 ^ 16"
  shows "pkt_ok p" "pkt_due p = mdc_receivers m"
proof -
  have l: "length (mp_payload m) = n" using pl(1,2) by (auto simp: udp_like_def udp_len_ok_def)
  have e: "length (mdc_addr (mp_hdr m)) = length (entries h g)" "length (entries h g) \<le> 32"
    using d by (auto simp: hdr_ok_def)
  have u: "unat (word_of_nat k :: uint16) = k" if "k < 2 ^ 16" for k
    using that by (simp add: unsigned_of_nat take_bit_nat_eq_self)
  have "unat (word_of_nat (16 * (length (entries h g) + 1) + n) :: uint16) = 16 * (length (entries h g) + 1) + n"
    by (rule u) (use e(2) n in simp)
  then have D: "data_packet p (sent_segs h g)"
    using w l e udp_like_len_ok [OF pl(1,2)] hdr_ok_lists [OF d]
    by (simp add: data_packet_def mdc_on_wire_def sent_segs_entries get_mdc_hdr_size_eq)
  then show "pkt_ok p" using w pl udp_like_len_ok [OF pl(1,2)] by (auto simp: pkt_ok_def mdc_on_wire_def)
  have "pkt_due p = concat (map snd (map snd (places 0 (sent_segs h g))))"
    using data_packet_groups(2) [OF D] by (simp add: comp_def)
  then show "pkt_due p = mdc_receivers m"
    unfolding sent_segs_places using hdr_groups_ok [OF d] by (simp add: mdc_receivers_def)
qed

lemma uni_wire_ok:
  assumes u: "uni_packet_ok ip pl n a u" and w: "uni_on_wire u p"
    and ip: "ip_nexthdr ip = IPPROTO_UDP" "unat (ip_payload_len ip) = n" and pl: "udp_len_ok pl n"
  shows "pkt_ok p" "pkt_due p = [up_dst u]"
proof -
  have like: "udp_like (take n pl) (up_payload u)" using u by (simp add: uni_packet_ok_def)
  then have "length (up_payload u) = n" using pl by (auto simp: udp_like_def udp_len_ok_def)
  then show "pkt_ok p" "pkt_due p = [up_dst u]"
    using u w ip udp_like_len_ok [OF like pl] by (auto simp: uni_packet_ok_def uni_on_wire_def pkt_ok_def pkt_due_def)
qed

lemma same_content_self: "q \<in> A \<Longrightarrow> \<exists>p \<in> A. same_content p q"
  using same_content_refl by blast

lemma list_all2_maps:
  assumes "list_all2 R xs ys" and "\<And>x y. x \<in> set xs \<Longrightarrow> R x y \<Longrightarrow> f y = g x \<and> P y"
  shows "map f ys = map g xs" "\<forall>y \<in> set ys. P y"
proof -
  have "map f ys = map g xs \<and> (\<forall>y \<in> set ys. P y)"
    using assms by (induction rule: list_all2_induct) auto
  then show "map f ys = map g xs" "\<forall>y \<in> set ys. P y" by blast+
qed

text \<open>
  The packets of \<open>tx\<close> in any network: from a published group that serves the receivers \<open>ls\<close>, the packets
  under way are for \<open>ls\<close> at every moment.
\<close>

lemma tx_under_way:
  assumes S: "txg_serves h (gg_max A) grp gs us" and g: "get_txg g = Some grp"
    and fd: "1 \<le> ip6_fd" "1 \<le> mdc_fd"
    and ip: "ip_nexthdr ip = IPPROTO_UDP" "unat (ip_payload_len ip) = plen" and pl: "udp_len_ok pl plen"
    and n: "plen + 528 < 2 ^ 16" and res: "\<And>i. 1 \<le> ures i" "\<And>i. 1 \<le> mres i"
  shows "\<exists>ups mps. tx ures mres (init_tx (max_addrs A) mtu) bia ip6_fd mdc_fd g h (44 + plen) ip pl = Some (ups, mps) \<and>
    (\<forall>ps. on_wire bia ups mps ps \<longrightarrow>
      under_way (mset ps) (mset (map (laddr h) (seg_leafs (concat gs) @ us))) (mset ps) \<and>
      (\<forall>p \<in> set ps. udp_like (take plen pl) (sk_pl p)))"
proof -
  obtain ups mps where t: "tx ures mres (init_tx (max_addrs A) mtu) bia ip6_fd mdc_fd g h (44 + plen) ip pl = Some (ups, mps)"
    and u: "list_all2 (uni_packet_ok ip pl plen) (rcvr_addrs h us) ups"
    and m: "\<forall>p \<in> set mps. udp_like (take plen pl) (mp_payload p) \<and> udp_checks bia (mp_dst p) (mp_payload p) \<and>
      (\<exists>g. hdr_ok h (gg_max A) (mp_hdr p) g)"
    and due: "concat (map mdc_receivers mps) @ map up_dst ups = map (laddr h) (seg_leafs (concat gs) @ us)"
    using tx_delivers_hdrs [OF S g fd ip(1) pl, of ures mres mtu bia] res by blast
  have mx: "gg_max A \<le> 32" by (simp add: gg_max_def BITMAP_LIMIT_def)
  have W: "under_way (mset ps) (mset (map (laddr h) (seg_leafs (concat gs) @ us))) (mset ps) \<and>
      (\<forall>p \<in> set ps. udp_like (take plen pl) (sk_pl p))" if w: "on_wire bia ups mps ps" for ps
  proof -
    obtain ps1 ps2 where ps: "ps = ps1 @ ps2" "list_all2 (mdc_on_wire bia) mps ps1" "list_all2 uni_on_wire ups ps2"
      using w by (auto simp: on_wire_def)
    have 1: "pkt_due p = mdc_receivers x \<and> pkt_ok p \<and> udp_like (take plen pl) (sk_pl p)"
      if x: "x \<in> set mps" "mdc_on_wire bia x p" for x p
    proof -
      obtain g where g: "hdr_ok h (gg_max A) (mp_hdr x) g" and l: "udp_like (take plen pl) (mp_payload x)"
        and c: "udp_checks bia (mp_dst x) (mp_payload x)" using m x(1) by blast
      from mdc_wire_ok [OF g mx x(2) l pl c n] x(2) l show ?thesis by (simp add: mdc_on_wire_def)
    qed
    have 2: "pkt_due p = [up_dst x] \<and> pkt_ok p \<and> udp_like (take plen pl) (sk_pl p)"
      if x: "x \<in> set ups" "uni_on_wire x p" for x p
    proof -
      obtain a where a: "uni_packet_ok ip pl plen a x" using list_all2_in_right [OF u x(1)] by blast
      from uni_wire_ok [OF a x(2) ip pl] a x(2) show ?thesis by (simp add: uni_on_wire_def uni_packet_ok_def)
    qed
    let ?P = "\<lambda>p. pkt_ok p \<and> udp_like (take plen pl) (sk_pl p)"
    note A1 = list_all2_maps [of "mdc_on_wire bia" mps ps1 pkt_due mdc_receivers ?P, OF ps(2) 1]
    note A2 = list_all2_maps [of uni_on_wire ups ps2 pkt_due "\<lambda>x. [up_dst x]" ?P, OF ps(3) 2]
    have U: "concat (map (\<lambda>x. [up_dst x]) ups) = map up_dst ups" by (induction ups) auto
    have "concat (map pkt_due ps) = map (laddr h) (seg_leafs (concat gs) @ us)"
      by (simp only: ps(1) map_append [of pkt_due] A1(1) A2(1) concat_append U due)
    then have "all_due (mset ps) = mset (map (laddr h) (seg_leafs (concat gs) @ us))" by (simp only: all_due_mset)
    then show ?thesis
      using A1(2) A2(2) ps(1) by (auto simp: under_way_def intro: same_content_self)
  qed
  with t show ?thesis by blast
qed

text \<open>At the end of the way.\<close>

lemma under_way_end:
  assumes "routers_up Ns" and "(transit Ns)\<^sup>*\<^sup>* (mset ps) C"
    and "under_way (mset ps) (mset (map f ls)) (mset ps) \<and> (\<forall>p \<in> set ps. udp_like (take n pl) (sk_pl p))"
  shows "all_due C = mset (map f ls) \<and> (\<forall>q \<in># C. pkt_ok q \<and> udp_like (take n pl) (sk_pl q)) \<and>
    ((\<forall>q \<in># C. sk_hdr q = None) \<longrightarrow> image_mset (\<lambda>q. ip_daddr (sk_ip q)) C = mset (map f ls))"
proof -
  have C: "under_way (mset ps) (mset (map f ls)) C"
    using transits_under_way [OF assms(1,2)] assms(3) by blast
  then have "udp_like (take n pl) (sk_pl q)" if "q \<in># C" for q
    using that assms(3) udp_like_trans by (fastforce simp: under_way_def same_content_def)
  then show ?thesis using C all_due_plain [of C] by (auto simp: under_way_def)
qed

end
