(* ===== verification/Answers.thy ===== *)
theory Answers
  imports RouterProof
begin

text \<open>
  The discovery requests of the sender on their way: every router answers, with its address and its
  distance, by a response that the sender accepts.
\<close>


section \<open>One router\<close>

text \<open>A discovery request on the wire.\<close>

definition request_hdr :: "ip6_mdc_hdr \<Rightarrow> bool" where
  "request_hdr d \<longleftrightarrow> ip6r_type (mdc_rthdr d) = IPV6_MEADCAST \<and> ip6r_nxt (mdc_rthdr d) = IPPROTO_NONE \<and>
     hdr_dcv d \<and> \<not> hdr_rsp d \<and> hdr_dsts d = 1"

definition request :: "sk_buff \<Rightarrow> bool" where
  "request p \<longleftrightarrow> (\<exists>d. sk_hdr p = Some d \<and> request_hdr d) \<and> ip_nexthdr (sk_ip p) = IPPROTO_ROUTING"

text \<open>The answer of the router to the request \<open>p\<close>, from its address \<open>a\<close>.\<close>

definition answer :: "sk_buff \<Rightarrow> in6_addr \<Rightarrow> sk_buff" where
  "answer p a = p\<lparr>sk_ip := (sk_ip p)\<lparr>ip_daddr := ip_saddr (sk_ip p), ip_hop_limit := 255, ip_saddr := a\<rparr>,
     sk_hdr := map_option (set_response \<circ> inc_hopcount) (sk_hdr p), sk_dst := ip_saddr (sk_ip p)\<rparr>"

lemma forward_request:
  assumes N: "net_up N" and a: "mn_saddr N (ip_saddr (sk_ip p)) = Some a" and p: "request p"
  shows "ip6_forward N p = Some ([answer p a, at_router p], 1)"
proof -
  obtain d where d: "sk_hdr p = Some d" "request_hdr d" using p by (auto simp: request_def)
  have n: "md_rcv N (p\<lparr>sk_ip := (sk_ip p)\<lparr>ip_hop_limit := ip_hop_limit (sk_ip p) - 1\<rparr>\<rparr>) no_output =
      Some (0, at_router p, \<lparr>ms_out = [answer p a], ms_copies = 1, ms_puts = 1\<rparr>)"
    using N a d by (simp add: md_rcv_def md_dcv_rcv_def dcv_rsp_def request_hdr_def Let_def no_output_def
        answer_def at_router_def)
  then show ?thesis using p by (simp add: ip6_forward_def request_def)
qed

text \<open>Without a route back, the router does not answer, and the request goes on.\<close>

lemma forward_request_no_route:
  assumes "mn_enable N \<noteq> 0" and "\<not> mn_route N (ip_saddr (sk_ip p))" and p: "request p"
  shows "ip6_forward N p = Some ([at_router p], 0)"
proof -
  obtain d where d: "sk_hdr p = Some d" "request_hdr d" using p by (auto simp: request_def)
  then show ?thesis
    using assms by (simp add: ip6_forward_def request_def md_rcv_def md_dcv_rcv_def dcv_rsp_def request_hdr_def Let_def
        no_output_def pskb_copy_def at_router_def)
qed

text \<open>Responses pass a router unchanged.\<close>

lemma forward_response:
  assumes "sk_hdr p = Some d" "hdr_dcv d" "hdr_rsp d"
  shows "ip6_forward N p = Some ([p\<lparr>sk_ip := (sk_ip p)\<lparr>ip_hop_limit := ip_hop_limit (sk_ip p) - 1\<rparr>\<rparr>], 0)"
  using assms by (simp add: ip6_forward_def md_rcv_def md_dcv_rcv_def Let_def no_output_def)


section \<open>The distance\<close>

lemma unat_hdr_hops: "unat (hdr_hops d) = unat (drop_bit 10 (mdc_flags d)) mod 64"
proof -
  have "(0x3F :: uint32) = mask 6" by (simp add: mask_eq_exp_minus_1)
  then have "hdr_hops d = take_bit 6 (drop_bit 10 (mdc_flags d))" by (simp add: hdr_hops_def take_bit_eq_mask)
  then show ?thesis by (simp only: unsigned_take_bit_eq) (simp add: take_bit_eq_mod)
qed

lemma hops_inc:
  "unat (hdr_hops (inc_hopcount d)) = (unat (hdr_hops d) + 1) mod 64"
proof -
  have m: "(0x3F :: uint32) = mask 6" "(0xFC00 :: uint32) = push_bit 10 (mask 6)"
    by (simp_all add: mask_eq_exp_minus_1)
  have "hdr_hops (inc_hopcount d) = take_bit 6 (hdr_hops d + 1)"
    unfolding hdr_hops_def [of "inc_hopcount d"] mdc_flags_inc_hopcount m
    by (rule bit_word_eqI) (auto simp: bit_simps)
  then have "unat (hdr_hops (inc_hopcount d)) = unat (hdr_hops d + 1) mod 64"
    by (simp only: unsigned_take_bit_eq) (simp add: take_bit_eq_mod)
  moreover have "unat (hdr_hops d + 1) = unat (hdr_hops d) + 1"
  proof -
    have "unat (hdr_hops d) < 64" unfolding unat_hdr_hops by simp
    then have "unat (hdr_hops d) + unat (1 :: uint32) < 2 ^ LENGTH(32)" by simp
    then show ?thesis unfolding unat_add_lem by simp
  qed
  ultimately show ?thesis by simp
qed

lemma set_response_other [simp]:
  "mdc_addr (set_response d) = mdc_addr d" "mdc_rthdr (set_response d) = mdc_rthdr d"
  "hdr_dsts (set_response d) = hdr_dsts d" "hdr_dcv (set_response d) = hdr_dcv d" "hdr_rsp (set_response d)"
  "hdr_hops (set_response d) = hdr_hops d"
proof -
  show "hdr_dsts (set_response d) = hdr_dsts d" "hdr_hops (set_response d) = hdr_hops d"
    by (simp_all add: hdr_dsts_def hdr_hops_def set_response_def bit.conj_disj_distrib2 drop_bit_or)
  show "hdr_dcv (set_response d) = hdr_dcv d" "hdr_rsp (set_response d)"
    by (simp_all add: set_response_def hdr_dcv_def hdr_rsp_def bit_or_iff)
qed (simp_all add: set_response_def)


section \<open>A path\<close>

text \<open>The request \<open>p\<close> on a path of routers: what else leaves them, and the packet at the end of the path.\<close>

fun along :: "md_net list \<Rightarrow> sk_buff \<Rightarrow> (sk_buff list \<times> sk_buff) option" where
  "along [] p = Some ([], p)"
| "along (N # Ns) p = do {
     (qs, _) \<leftarrow> ip6_forward N p;
     guard (qs \<noteq> []);
     (as, q) \<leftarrow> along Ns (last qs);
     Some (butlast qs @ as, q)
   }"

text \<open>A packet as the sender's socket for MEADcast headers delivers it.\<close>

definition as_dgram :: "sk_buff \<Rightarrow> dgram option" where
  "as_dgram p = do {
     d \<leftarrow> sk_hdr p;
     Some \<lparr>dg_ret = int (unat (ip_payload_len (sk_ip p))),
       dg_src = \<lparr>sin6_family = 10, sin6_port = 0, sin6_addr = ip_saddr (sk_ip p)\<rparr>, dg_hdr = d\<rparr>
   }"

text \<open>A response to the request \<open>p\<close> from the router at \<open>a\<close> at the distance \<open>k\<close>.\<close>

definition response_to :: "sk_buff \<Rightarrow> in6_addr \<Rightarrow> nat \<Rightarrow> sk_buff \<Rightarrow> bool" where
  "response_to p a k q \<longleftrightarrow> ip_daddr (sk_ip q) = ip_saddr (sk_ip p) \<and>
     (\<exists>g. as_dgram q = Some g \<and> sin6_addr (dg_src g) = a \<and> rsp_wellformed g \<and> unat (hdr_hops (dg_hdr g)) = k \<and>
       map_option mdc_addr (sk_hdr p) = Some (mdc_addr (dg_hdr g)))"

definition answers_from :: "sk_buff \<Rightarrow> md_net \<Rightarrow> in6_addr \<Rightarrow> bool" where
  "answers_from p N a \<longleftrightarrow> net_up N \<and> mn_saddr N (ip_saddr (sk_ip p)) = Some a"

lemma request_at_router:
  assumes "request p"
  shows "request (at_router p)" 
  using assms by (auto simp: request_def request_hdr_def at_router_def)

lemma answer_response:
  assumes p: "request p" "sk_hdr p = Some d" "unat (hdr_hops d) = k" "k + 1 < 64"
    and l: "ip_payload_len (sk_ip p) = word_of_nat (get_mdc_hdr_size 1)"
  shows "response_to p a (k + 1) (answer p a)"
proof -
  have h: "unat (hdr_hops (inc_hopcount d)) = k + 1" using p(3,4) by (simp add: hops_inc)
  then have "hdr_hops (inc_hopcount d) \<noteq> 0" by (metis add_is_0 one_neq_zero unat_0)
  then show ?thesis
    using p h l by (simp add: response_to_def as_dgram_def answer_def request_def request_hdr_def rsp_wellformed_def
        get_mdc_hdr_size_eq)
qed

text \<open>Up to 63 routers: the router at position \<open>i\<close> of the path answers with the distance \<open>i + 1\<close>.\<close>

lemma along_answers:
  "list_all2 (answers_from p) Ns as \<Longrightarrow> request p \<Longrightarrow> sk_hdr p = Some d \<Longrightarrow> unat (hdr_hops d) = k \<Longrightarrow>
    ip_payload_len (sk_ip p) = word_of_nat (get_mdc_hdr_size 1) \<Longrightarrow> k + length Ns < 64 \<Longrightarrow>
    \<exists>qs q. along Ns p = Some (qs, q) \<and> length qs = length Ns \<and>
      (\<forall>i < length Ns. response_to p (as ! i) (k + i + 1) (qs ! i)) \<and> request q"
proof (induction Ns arbitrary: p as k d)
  case Nil
  then show ?case by simp
next
  case (Cons N Ns)
  then obtain a bs where as: "as = a # bs" "answers_from p N a" "list_all2 (answers_from p) Ns bs"
    by (auto simp: list_all2_Cons1)
  let ?p = "at_router p"
  have fw: "ip6_forward N p = Some ([answer p a, ?p], 1)"
    using as(2) by (intro forward_request Cons.prems(2)) (auto simp: answers_from_def)
  have first: "response_to p a (k + 1) (answer p a)"
    using Cons.prems(6) by (intro answer_response [OF Cons.prems(2-4) _ Cons.prems(5)]) simp
  have "answers_from ?p = answers_from p" by (simp add: fun_eq_iff answers_from_def at_router_def)
  then have "list_all2 (answers_from ?p) Ns bs" using as(3) by simp
  moreover have "sk_hdr ?p = Some (inc_hopcount d)" "ip_payload_len (sk_ip ?p) = word_of_nat (get_mdc_hdr_size 1)"
    using Cons.prems(3,5) by (simp_all add: at_router_def)
  moreover have "unat (hdr_hops (inc_hopcount d)) = k + 1" using Cons.prems(4,6) by (simp add: hops_inc)
  ultimately obtain qs q where r: "along Ns ?p = Some (qs, q)" "length qs = length Ns"
      "\<forall>i < length Ns. response_to ?p (bs ! i) (k + 1 + i + 1) (qs ! i)" "request q"
    using Cons.IH [OF _ request_at_router [OF Cons.prems(2)], of bs "inc_hopcount d" "k + 1"] Cons.prems(6) by auto
  have same: "response_to ?p b m x = response_to p b m x" for b m x
    by (cases "sk_hdr p") (simp_all add: response_to_def at_router_def)
  have "response_to p (as ! i) (k + i + 1) ((answer p a # qs) ! i)" if "i < length (N # Ns)" for i
    using that first r(2,3) as(1) by (cases i) (auto simp: same)
  moreover have "along (N # Ns) p = Some (answer p a # qs, q)" using fw r(1) by simp
  ultimately show ?case using r(2,4) by (intro exI [of _ "answer p a # qs"] exI [of _ q]) simp
qed


section \<open>The sender's requests\<close>

text \<open>A request of \<open>send_dcvr\<close> on the wire, behind an IPv6 header that the sender's kernel makes.\<close>

definition dcvr_on_wire :: "in6_addr \<Rightarrow> dcvr_packet \<Rightarrow> sk_buff \<Rightarrow> bool" where
  "dcvr_on_wire bia x p \<longleftrightarrow> sk_hdr p = Some (dp_hdr x) \<and> ip_saddr (sk_ip p) = bia \<and>
     ip_daddr (sk_ip p) = sin6_addr (dp_dst x) \<and> ip_nexthdr (sk_ip p) = IPPROTO_ROUTING \<and>
     ip_payload_len (sk_ip p) = ucast (dp_len x)"

lemma sent_request:
  assumes "dcvr_on_wire bia (dcvr_packet_of h (fst (set_dcvr_hdr txbuf)) 32 l) p" "mdc_addr txbuf \<noteq> []"
  shows "request p" "ip_payload_len (sk_ip p) = word_of_nat (get_mdc_hdr_size 1)" "ip_saddr (sk_ip p) = bia"
    "\<exists>d. sk_hdr p = Some d \<and> hdr_hops d = 0 \<and> hd (mdc_addr d) = ip_daddr (sk_ip p)"
proof -
  obtain b bs where b: "mdc_addr txbuf = b # bs" using assms(2) by (cases "mdc_addr txbuf") auto
  show "request p" "ip_payload_len (sk_ip p) = word_of_nat (get_mdc_hdr_size 1)" "ip_saddr (sk_ip p) = bia"
    "\<exists>d. sk_hdr p = Some d \<and> hdr_hops d = 0 \<and> hd (mdc_addr d) = ip_daddr (sk_ip p)"
    using assms b by (auto simp: dcvr_on_wire_def dcvr_packet_of_def Let_def set_dcvr_hdr_def set_rt_hdr_def request_def
        request_hdr_def hdr_dcv_def hdr_rsp_def hdr_dsts_def hdr_hops_def get_mdc_hdr_size_eq)
qed

lemma sent_request_answers:
  assumes w: "dcvr_on_wire bia (dcvr_packet_of h (fst (set_dcvr_hdr txbuf)) 32 l) p" "mdc_addr txbuf \<noteq> []"
    and Ns: "list_all2 (\<lambda>N a. net_up N \<and> mn_saddr N bia = Some a) Ns as" "length Ns < 64"
  shows "\<exists>qs q. along Ns p = Some (qs, q) \<and> length qs = length Ns \<and> request q \<and>
    (\<forall>i < length Ns. ip_daddr (sk_ip (qs ! i)) = bia \<and>
      (\<exists>d. as_dgram (qs ! i) = Some d \<and> rsp_wellformed d \<and> sin6_addr (dg_src d) = as ! i \<and>
        unat (hdr_hops (dg_hdr d)) = i + 1 \<and> hd (mdc_addr (dg_hdr d)) = ip_daddr (sk_ip p)))"
proof -
  note R = sent_request [OF w]
  obtain d where d: "sk_hdr p = Some d" "hdr_hops d = 0" "hd (mdc_addr d) = ip_daddr (sk_ip p)" using R(4) by blast
  have "answers_from p = (\<lambda>N a. net_up N \<and> mn_saddr N bia = Some a)" using R(3) by (simp add: fun_eq_iff answers_from_def)
  then have "list_all2 (answers_from p) Ns as" using Ns(1) by simp
  from along_answers [OF this R(1) d(1) _ R(2), of 0] Ns(2) d(2)
  obtain qs q where "along Ns p = Some (qs, q)" "length qs = length Ns"
      "\<forall>i < length Ns. response_to p (as ! i) (i + 1) (qs ! i)" "request q" by auto
  then show ?thesis using R(3) d(1,3) unfolding response_to_def
    by (intro exI [of _ qs] exI [of _ q]) (auto simp: Let_def)
qed


section \<open>Other packets\<close>

text \<open>The headers with which a router has nothing to do.\<close>

definition not_for_router :: "md_net \<Rightarrow> ip6_mdc_hdr \<Rightarrow> bool" where
  "not_for_router N d \<longleftrightarrow> mn_enable N = 0 \<or> ip6r_type (mdc_rthdr d) \<noteq> IPV6_MEADCAST \<or> hdr_rsp d \<or>
     hdr_dcv d \<and> (ip6r_nxt (mdc_rthdr d) \<noteq> IPPROTO_NONE \<or> hdr_dsts d \<noteq> 1)"

lemma forward_foreign:
  assumes "ip_nexthdr (sk_ip p) = IPPROTO_ROUTING \<longrightarrow> (\<exists>d. sk_hdr p = Some d \<and> not_for_router N d)"
  shows "ip6_forward N p = Some ([p\<lparr>sk_ip := (sk_ip p)\<lparr>ip_hop_limit := ip_hop_limit (sk_ip p) - 1\<rparr>\<rparr>], 0)"
  using assms
  by (auto simp: not_for_router_def ip6_forward_def md_rcv_def md_dcv_rcv_def md_data_rcv_def Let_def no_output_def)

end
