(* ===== verification/RouterExample.thy ===== *)
theory RouterExample
  imports Network Answers Example
begin

text \<open>
  Routers and packets that the properties about the kernel patch are instantiated with, and what the patch does not
  guard against.
\<close>


section \<open>Routers\<close>

text \<open>A router that owns one address and splits packets for fewer than \<open>m\<close> destinations.\<close>

definition mead_router :: "in6_addr \<Rightarrow> uint8 \<Rightarrow> md_net" where
  "mead_router a m = \<lparr>mn_enable = 1, mn_min_dsts = m, mn_own = \<lambda>x. x = a, mn_copy = \<lambda>_. True, mn_route = \<lambda>_. True,
     mn_saddr = \<lambda>_. Some a, mn_output = \<lambda>_. 0,
     csum_partial = \<lambda>x s. word_of_nat ((words_sum True (in6_bytes x) + unat s) mod 65535),
     csum_unfold = ucast,
     csum_sub = \<lambda>x y. word_of_nat (unat x mod 65535 + (65535 - unat y mod 65535)),
     csum_fold = \<lambda>s. word_of_nat (65535 - unat s mod 65535)\<rparr>"

lemma mead_router_up [simp]: "net_up (mead_router a m)"
  by (simp add: net_up_def mead_router_def)

lemma mead_router_csum [simp]: "csum_ok (mead_router a m)"
proof -
  have w: "unat (word_of_nat n :: uint32) = n" if "n < 2 ^ 32" for n
    using that by (simp add: unsigned_of_nat take_bit_nat_eq_self)
  have h: "unat (word_of_nat n :: uint16) = n" if "n < 2 ^ 16" for n
    using that by (simp add: unsigned_of_nat take_bit_nat_eq_self)
  have l: "x mod 65535 < 65535" for x :: nat by simp
  have 1: "unat (word_of_nat (x mod 65535) :: uint32) mod 65535 = x mod 65535" for x
    using w [of "x mod 65535"] l [of x] by simp
  have 2: "(unat (word_of_nat (x mod 65535 + (65535 - y mod 65535)) :: uint32) + y) mod 65535 = x mod 65535" for x y
  proof -
    have a: "unat (word_of_nat (x mod 65535 + (65535 - y mod 65535)) :: uint32) = x mod 65535 + (65535 - y mod 65535)"
      by (rule w) (use l [of x] in simp)
    have b: "(x mod 65535 + (65535 - y mod 65535) + y) mod 65535 = (x mod 65535 + (65535 - y mod 65535) + y mod 65535) mod 65535"
      by (simp only: mod_add_right_eq)
    show ?thesis unfolding a b using l [of y] by simp
  qed
  have 3: "(unat (word_of_nat (65535 - y mod 65535) :: uint16) + y) mod 65535 = 0" for y
  proof -
    have a: "unat (word_of_nat (65535 - y mod 65535) :: uint16) = 65535 - y mod 65535" by (rule h) simp
    have b: "(65535 - y mod 65535 + y) mod 65535 = (65535 - y mod 65535 + y mod 65535) mod 65535"
      by (simp only: mod_add_right_eq)
    show ?thesis unfolding a b using l [of y] by simp
  qed
  show ?thesis using 1 2 3 by (simp add: csum_ok_def mead_router_def)
qed

lemma mead_router_own [simp]: "mn_own (mead_router a m) x \<longleftrightarrow> x = a" "mn_min_dsts (mead_router a m) = m"
  "mn_saddr (mead_router a m) x = Some a"
  by (simp_all add: mead_router_def)

lemma net_own: "net_up (N\<lparr>mn_own := f\<rparr>) \<longleftrightarrow> net_up N" "csum_ok (N\<lparr>mn_own := f\<rparr>) \<longleftrightarrow> csum_ok N"
  by (cases N, simp only: net_up_def csum_ok_def md_net.simps)+


section \<open>Packets\<close>

text \<open>A packet of the sender 1 for the receivers 101 to 103 behind the router 201, and 104 behind 202.\<close>

definition ex_hdr :: ip6_mdc_hdr where
  "ex_hdr = set_data_hdr [201, 101, 102, 103, 202, 104] 6 0x88000000"

definition ex_packet :: sk_buff where
  "ex_packet = \<lparr>sk_ip = \<lparr>ip_vtcfl = 0x60000000, ip_payload_len = 122, ip_nexthdr = 43, ip_hop_limit = 64,
       ip_saddr = 1, ip_daddr = 101\<rparr>,
     sk_hdr = Some ex_hdr, sk_pl = [0, 9, 0, 9, 0, 10, 254, 96, 1, 2], sk_dst = 101\<rparr>"

definition ex_segs :: "mseg list" where
  "ex_segs = [(True, 201, [101, 102, 103]), (True, 202, [104])]"

lemma ex_hdr_lists: "hdr_lists ex_hdr ex_segs"
proof -
  have "unat (hdr_dsts ex_hdr) = 6" "data_hdr ex_hdr" "mdc_addr ex_hdr = [201, 101, 102, 103, 202, 104]"
    "mdc_rtm ex_hdr = 0x88000000" "mdc_dlvm ex_hdr = 0x88000000"
    unfolding ex_hdr_def by (simp_all add: unat_hdr_dsts_set_data_hdr data_hdr_set set_data_hdr_fields(1-3))
  then show ?thesis
    by (simp add: hdr_lists_def ex_segs_def flagged_Cons numeral_3_eq_3 flagged_def [of _ _ "[]"])
qed

lemma ex_packet_ok: "data_packet ex_packet ex_segs" "pkt_ok ex_packet"
proof -
  have u: "udp_len_ok (sk_pl ex_packet) (length (sk_pl ex_packet))"
    by (simp add: ex_packet_def udp_len_ok_def load16_def)
  show d: "data_packet ex_packet ex_segs"
    using ex_hdr_lists u unfolding data_packet_def
    by (simp add: ex_packet_def ex_segs_def IPPROTO_ROUTING_def)
  have "udp_checks 1 101 [0, 9, 0, 9, 0, 10, 254, 96, 1, 2]" by code_simp
  then show "pkt_ok ex_packet"
    using d u by (auto simp: pkt_ok_def ex_packet_def)
qed

lemma ex_packet_groups: "pkt_groups ex_packet = [(201, [101, 102, 103]), (202, [104])]"
  "pkt_due ex_packet = [101, 102, 103, 104]"
  using data_packet_groups [OF ex_packet_ok(1)] by (simp_all add: ex_segs_def)


text \<open>The header of a request.\<close>

definition ex_dcvr :: ip6_mdc_hdr where
  "ex_dcvr = fst (set_dcvr_hdr (zero_hdr 1))"

text \<open>The request about the receiver 3 of the example, on a path of two routers.\<close>

definition ex_request :: sk_buff where
  "ex_request = (let x = dcvr_packet_of ex_heap ex_dcvr 32 3
     in \<lparr>sk_ip = ex_ip\<lparr>ip_nexthdr := 43, ip_payload_len := 32, ip_saddr := 101, ip_daddr := sin6_addr (dp_dst x)\<rparr>,
       sk_hdr = Some (dp_hdr x), sk_pl = [], sk_dst = 0\<rparr>)"

definition ex_path :: "md_net list" where
  "ex_path = [mead_router 201 1, mead_router 202 1]"

lemma ex_request_wire: "dcvr_on_wire 101 (dcvr_packet_of ex_heap (fst (set_dcvr_hdr (zero_hdr 1))) 32 3) ex_request"
  by (simp add: dcvr_on_wire_def ex_request_def ex_dcvr_def Let_def IPPROTO_ROUTING_def dcvr_packet_of_def)

lemma ex_path_ok: "list_all2 (\<lambda>N a. net_up N \<and> mn_saddr N 101 = Some a) ex_path [201, 202]" "length ex_path = 2"
  by (simp_all add: ex_path_def)


section \<open>What is not guarded against\<close>

lemma ex_hdr_simps:
  "hdr_dsts ex_hdr = 6" "mdc_addr ex_hdr = [201, 101, 102, 103, 202, 104]" "mdc_rtm ex_hdr = 0x88000000"
  "mdc_dlvm ex_hdr = 0x88000000" "\<not> hdr_dcv ex_hdr" "\<not> hdr_rsp ex_hdr" "ip6r_len (mdc_rthdr ex_hdr) = 13"
  "ip6r_type (mdc_rthdr ex_hdr) = IPV6_MEADCAST"
  by (simp_all add: ex_hdr_def set_data_hdr_fields set_data_hdr_rthdr)

lemma hdr_mdc_dlvm: "hdr_dsts (d\<lparr>mdc_dlvm := x\<rparr>) = hdr_dsts d" "hdr_dcv (d\<lparr>mdc_dlvm := x\<rparr>) = hdr_dcv d"
  "hdr_rsp (d\<lparr>mdc_dlvm := x\<rparr>) = hdr_rsp d"
  by (simp_all add: hdr_dsts_def hdr_dcv_def hdr_rsp_def)

lemmas ex_run = ip6_forward_def ipv6_rthdr_rcv_def md_rcv_def md_data_rcv_def md_scan.simps md_data_fwd_def md_replica_def
  m2u_loop.simps m2u_def pskb_copy_def dst_output_def set_dst_def GET_I_def rthdr_len_def sizeof_mdc_hdr_def sizeof_in6_addr_def
  no_output_def ex_packet_def mead_router_def ex_hdr_simps hdr_mdc_dlvm IPPROTO_ROUTING_def Let_def

text \<open>The receivers the packets behind a router are for.\<close>

definition due_behind :: "(sk_buff list \<times> nat) option \<Rightarrow> in6_addr list list option" where
  "due_behind r = map_option (\<lambda>(qs, _). map pkt_due qs) r"

lemmas ex_due = due_behind_def pkt_due_def pkt_groups_def due_groups_def flag_entries_def

text \<open>
  A header without a router to deliver to: \<open>r1\<close> is still \<open>- 1\<close> at the end of the loop, and the entry in front of
  the list is read.
\<close>

lemma no_router_marked:
  "ip6_forward (mead_router 9 1) (ex_packet\<lparr>sk_hdr := Some (ex_hdr\<lparr>mdc_dlvm := 0\<rparr>)\<rparr>) = None"
  by (simp add: ex_run ex_due)

text \<open>
  The result of \<open>md_data_fwd\<close> is ignored: when the output of the first unicast packet fails, the replica
  leaves the router as it came, for all receivers, and 104 is served twice.
\<close>

lemma output_error_duplicates:
  "due_behind (ip6_forward ((mead_router 201 1)\<lparr>mn_output := \<lambda>k. if k = 0 then 1 else 0\<rparr>) ex_packet) =
    Some [[101], [101, 102, 103, 104], [104]]"
  by (simp add: ex_run ex_due)

text \<open>The result of \<open>pskb_copy\<close> is not checked.\<close>

lemma copy_unchecked: "ip6_forward ((mead_router 201 1)\<lparr>mn_copy := \<lambda>_. False\<rparr>) ex_packet = None"
  by (simp add: ex_run ex_due)

text \<open>
  A data packet that is delivered locally, on an end system with the patch: the packet for the last router is
  made and dropped.
\<close>

lemma last_group_lost:
  "map_option (\<lambda>(e, qs). (e, map pkt_due qs)) (ipv6_rthdr_rcv (mead_router 101 1) ex_packet) = Some (0, [[101, 102, 103]])"
  by (simp add: ex_run ex_due)

end
