(* ===== verification/Printing.thy ===== *)
theory Printing
  imports Reset GroupingSpec Parse
begin

text \<open>
  What the program prints: \<open>util.c\<close> and \<open>util.h\<close>, \<open>print_grp\<close> of \<open>tree.c\<close>, \<open>print_timers\<close> of \<open>discover.c\<close> and
  \<open>print_grouping_args\<close> of \<open>argp.c\<close>. A function that prints returns its output; those that follow pointers
  return an option, as everywhere. \<open>inet_ntop\<close>, which cannot fail for a valid address and a buffer of the
  right size, is the argument \<open>ntop\<close>.
\<close>


section \<open>printf\<close>

abbreviation (input) nl :: string where "nl \<equiv> [CHR 0x0A]"
abbreviation (input) tab :: string where "tab \<equiv> [CHR 0x09]"

definition digit_char :: "nat \<Rightarrow> char" where
  "digit_char n = char_of (48 + n)"

text \<open>The formats \<open>%u\<close> and \<open>%zu\<close>, and \<open>%d\<close> and \<open>%ld\<close>.\<close>

fun fmt_u :: "nat \<Rightarrow> string" where
  "fmt_u n = (if n < 10 then [digit_char n] else fmt_u (n div 10) @ [digit_char (n mod 10)])"

declare fmt_u.simps [simp del]

definition fmt_d :: "int \<Rightarrow> string" where
  "fmt_d i = (if i < 0 then CHR ''-'' # fmt_u (nat (- i)) else fmt_u (nat i))"


section \<open>Addresses and headers\<close>

text \<open>
  After its message, \<open>print_ia\<close> goes on with the null pointer.
\<close>

definition print_ia :: "(in6_addr \<Rightarrow> string) \<Rightarrow> in6_addr option \<Rightarrow> string option" where
  "print_ia ntop a = map_option ntop a"

definition init_sa :: "(string \<Rightarrow> in6_addr option) \<Rightarrow> string \<Rightarrow> uint16 \<Rightarrow> int \<times> sockaddr_in6 option \<times> string" where
  "init_sa pton s port = (case pton s of
     None \<Rightarrow> (- 1, None, ''Invalid address: '' @ s @ nl)
   | Some a \<Rightarrow> (0, Some \<lparr>sin6_family = AF_INET6, sin6_port = port, sin6_addr = a\<rparr>, []))"

text \<open>The loops over an array of addresses.\<close>

fun print_addrs :: "(in6_addr \<Rightarrow> string) \<Rightarrow> nat \<Rightarrow> in6_addr list \<Rightarrow> string option" where
  "print_addrs ntop 0 as = Some []"
| "print_addrs ntop (Suc n) [] = None"
| "print_addrs ntop (Suc n) (a # as) = do {
     s \<leftarrow> print_ia ntop (Some a);
     t \<leftarrow> print_addrs ntop n as;
     Some (s @ '','' @ t)
   }"

definition print_mdc_hdr :: "(in6_addr \<Rightarrow> string) \<Rightarrow> ip6_mdc_hdr option \<Rightarrow> string option" where
  "print_mdc_hdr ntop hdr = (case hdr of
     None \<Rightarrow> Some []
   | Some d \<Rightarrow> do {
       s \<leftarrow> print_addrs ntop (unat (hdr_dsts d)) (mdc_addr d);
       Some (''addrs: '' @ fmt_u (unat (hdr_dsts d)) @ nl @ ''map: '' @ fmt_u (unat (mdc_rtm d)) @ nl @
         ''['' @ s @ '']'' @ nl)
     })"

definition print_grp :: "(in6_addr \<Rightarrow> string) \<Rightarrow> in6_addr list \<Rightarrow> size_t \<Rightarrow> uint32 \<Rightarrow> string option" where
  "print_grp ntop l n bm = do {
     s \<leftarrow> print_addrs ntop n l;
     Some (''['' @ s @ '']'' @ tab @ fmt_u (unat bm) @ nl)
   }"


section \<open>Groups\<close>

partial_function (option) print_hdrs :: "(in6_addr \<Rightarrow> string) \<Rightarrow> ptr \<Rightarrow> heap \<Rightarrow> string option" where
  "print_hdrs ntop c h =
     (if c = NULL then Some []
      else do {
        ce \<leftarrow> cells h c;
        d \<leftarrow> hdrs h (child_v ce);
        s \<leftarrow> print_addrs ntop (unat (hdr_dsts d)) (mdc_addr d);
        t \<leftarrow> print_hdrs ntop (child_n ce) h;
        Some (''['' @ s @ '']'' @ tab @ ''bm: '' @ fmt_u (unat (mdc_rtm d)) @ nl @ t)
      })"

declare print_hdrs.simps [code]

fun print_uni :: "(in6_addr \<Rightarrow> string) \<Rightarrow> nat \<Rightarrow> addr list \<Rightarrow> string option" where
  "print_uni ntop 0 as = Some []"
| "print_uni ntop (Suc n) [] = None"
| "print_uni ntop (Suc n) (a # as) = do {
     s \<leftarrow> print_ia ntop (Some (sin6_addr (addr_sa a)));
     t \<leftarrow> print_uni ntop n as;
     Some (s @ ''/'' @ fmt_u (unat (addr_port a)) @ nl @ t)
   }"

definition util_print_txg :: "(in6_addr \<Rightarrow> string) \<Rightarrow> tx_group option \<Rightarrow> heap \<Rightarrow> string option" where
  "util_print_txg ntop txg h = (case txg of
     None \<Rightarrow> Some []
   | Some g \<Rightarrow> do {
       s \<leftarrow> print_hdrs ntop (txg_mdc g) h;
       t \<leftarrow> print_uni ntop (txg_nuni g) (txg_uni g);
       Some (''MEADcast groups:'' @ nl @ s @ ''Unicast:'' @ nl @ t)
     })"


section \<open>The tree\<close>

definition print_lvl :: "nat \<Rightarrow> string" where
  "print_lvl lvl = concat (replicate lvl ''    '')"

text \<open>The bytes of the box characters in the source.\<close>

definition branch :: string where
  "branch = [CHR 0xE2, CHR 0x94, CHR 0x94, CHR 0xE2, CHR 0x94, CHR 0x80, CHR '' '']"

definition print_router :: "(in6_addr \<Rightarrow> string) \<Rightarrow> router \<Rightarrow> nat \<Rightarrow> string" where
  "print_router ntop r lvl = print_lvl lvl @ branch @ ntop (sin6_addr (router_sa r)) @
     '' ('' @ fmt_u (router_nleaf r) @ ''/'' @ fmt_u (router_nchild r) @ '','' @ fmt_u (router_fleaf r) @ ''/'' @
     fmt_u (router_fchild r) @ '') '' @ fmt_u (router_hops r) @ nl"

definition print_leaf :: "(in6_addr \<Rightarrow> string) \<Rightarrow> leaf \<Rightarrow> nat \<Rightarrow> string" where
  "print_leaf ntop l lvl = print_lvl lvl @ branch @ ntop (sin6_addr (addr_sa (rcvr_addr (leaf_val l)))) @ nl"

partial_function (option) print_leafs :: "(in6_addr \<Rightarrow> string) \<Rightarrow> ptr \<Rightarrow> nat \<Rightarrow> heap \<Rightarrow> string option" where
  "print_leafs ntop c lvl h =
     (if c = NULL then Some []
      else do {
        ce \<leftarrow> cells h c;
        l \<leftarrow> leafs h (child_v ce);
        t \<leftarrow> print_leafs ntop (child_n ce) lvl h;
        Some (print_leaf ntop l lvl @ t)
      })"

declare print_leafs.simps [code]

text \<open>
  \<open>df_print\<close> calls itself in its loop over the child routers; the model is that loop, with the call inside.
\<close>

partial_function (option) print_childs :: "(in6_addr \<Rightarrow> string) \<Rightarrow> ptr \<Rightarrow> nat \<Rightarrow> heap \<Rightarrow> string option" where
  "print_childs ntop c lvl h =
     (if c = NULL then Some []
      else do {
        ce \<leftarrow> cells h c;
        r \<leftarrow> routers h (child_v ce);
        ls \<leftarrow> print_leafs ntop (router_leaf r) (lvl + 1) h;
        cs \<leftarrow> print_childs ntop (router_child r) (lvl + 1) h;
        t \<leftarrow> print_childs ntop (child_n ce) lvl h;
        Some (print_router ntop r lvl @ ls @ cs @ t)
      })"

declare print_childs.simps [code]

definition df_print :: "(in6_addr \<Rightarrow> string) \<Rightarrow> ptr \<Rightarrow> nat \<Rightarrow> heap \<Rightarrow> string option" where
  "df_print ntop n lvl h = do {
     r \<leftarrow> routers h n;
     ls \<leftarrow> print_leafs ntop (router_leaf r) (lvl + 1) h;
     cs \<leftarrow> print_childs ntop (router_child r) (lvl + 1) h;
     Some (print_router ntop r lvl @ ls @ cs)
   }"

definition util_print_tree :: "(in6_addr \<Rightarrow> string) \<Rightarrow> ptr \<Rightarrow> heap \<Rightarrow> string option" where
  "util_print_tree ntop r h = df_print ntop r 0 h"

lemma print_childs_step:
  "print_childs ntop c lvl h =
     (if c = NULL then Some []
      else do {
        ce \<leftarrow> cells h c;
        s \<leftarrow> df_print ntop (child_v ce) lvl h;
        t \<leftarrow> print_childs ntop (child_n ce) lvl h;
        Some (s @ t)
      })"
  unfolding df_print_def by (subst print_childs.simps) (simp add: Option.bind_assoc)


section \<open>Settings\<close>

definition print_timers :: "itimerspec \<Rightarrow> itimerspec \<Rightarrow> bool \<Rightarrow> string" where
  "print_timers tint tout wait =
     (if wait
      then ''Discovery interval: '' @ fmt_d (tv_sec (it_interval tint)) @ ''s'' @ nl @
        ''Discovery timeout:  '' @ fmt_d (tv_sec (it_interval tout)) @ ''s'' @ nl @
        ''Wating for traffic to start discovery...'' @ nl @ nl
      else ''Discovery interval: '' @ fmt_d (tv_sec (it_interval tint)) @ ''s'' @ nl @
        ''Discovery timeout:  '' @ fmt_d (tv_sec (it_interval tout)) @ ''s'' @ nl @
        ''Inital discovery starts in '' @ fmt_d (tv_sec (it_value tint)) @ ''s'' @ nl @ nl)"

definition print_grouping_args :: "arguments \<Rightarrow> string" where
  "print_grouping_args A =
     ''Grouping params:'' @ nl @
     ''MAX addrs:'' @ tab @ fmt_u (max_addrs A) @ nl @
     ''OK  addrs:'' @ tab @ fmt_u (ok_addrs A) @ nl @
     ''MIN leafs:'' @ tab @ fmt_u (min_leafs A) @ nl @
     ''MIN childs:'' @ tab @ fmt_u (min_routers A) @ nl @
     ''Split nodes:'' @ tab @ fmt_d (of_bool (split_nodes A)) @ nl @
     ''Merge range:'' @ tab @ fmt_u (merge_range A) @ nl @ nl"

end
