(* ===== verification/PrintProof.thy ===== *)
theory PrintProof
  imports Printing DiscoverProof
begin

text \<open>
  Printing ends and follows no bad pointer, the tree is printed with every node on a line of its own, and
  printed numbers read back.
\<close>


section \<open>Numbers\<close>

lemma of_char_digit: "n < 10 \<Longrightarrow> (of_char (digit_char n) :: nat) = 48 + n"
  by (simp add: digit_char_def take_bit_nat_eq_self)

lemma digit_of_char: "n < 10 \<Longrightarrow> digit_of (digit_char n) = Some (int n)"
  using of_char_digit [of n] by (simp add: digit_of_def Let_def)

lemma digits_append: "\<forall>c \<in> set s. digit_of c \<noteq> None \<Longrightarrow> digits v (s @ t) = digits (digits v s) t"
  by (induction s arbitrary: v) auto

lemma fmt_u_digits: "\<forall>c \<in> set (fmt_u n). digit_of c \<noteq> None"
proof (induction n rule: fmt_u.induct)
  case (1 n)
  then show ?case by (subst fmt_u.simps) (auto simp: digit_of_char)
qed

lemma digits_fmt_u: "digits 0 (fmt_u n) = int n"
proof (induction n rule: fmt_u.induct)
  case (1 n)
  show ?case
  proof (cases "n < 10")
    case True
    then show ?thesis by (subst fmt_u.simps) (simp add: digit_of_char)
  next
    case False
    have "digits 0 (fmt_u n) = digits (digits 0 (fmt_u (n div 10))) [digit_char (n mod 10)]"
      using False digits_append [OF fmt_u_digits] by (subst fmt_u.simps) simp
    also have "\<dots> = 10 * int (n div 10) + int (n mod 10)"
      using 1 [OF False] digit_of_char [of "n mod 10"] by simp
    also have "\<dots> = int n" by presburger
    finally show ?thesis .
  qed
qed

lemma fmt_u_not_Nil: "fmt_u n \<noteq> []"
  by (subst fmt_u.simps) simp

lemma atoi_fmt_u:
  assumes "n < 2 ^ 31"
  shows "atoi (fmt_u n) = Some (int n)"
proof -
  obtain c cs where c: "fmt_u n = c # cs" using fmt_u_not_Nil [of n] by (cases "fmt_u n") auto
  then have "digit_of c \<noteq> None" using fmt_u_digits [of n] by simp
  then have d: "48 \<le> (of_char c :: nat)" "(of_char c :: nat) \<le> 57"
    by (auto simp: digit_of_def Let_def split: if_splits)
  have "(of_char CHR ''-'' :: nat) = 45" "(of_char CHR ''+'' :: nat) = 43" by simp_all
  then have "c \<noteq> CHR ''-''" "c \<noteq> CHR ''+''" "\<not> is_space c" using d by (auto simp: is_space_def Let_def)
  then show ?thesis using assms digits_fmt_u [of n] by (simp add: atoi_def c)
qed


section \<open>The tree\<close>

text \<open>A line: the kind of the node, the node, the level.\<close>

definition line :: "(in6_addr \<Rightarrow> string) \<Rightarrow> heap \<Rightarrow> (kind \<times> ptr) \<times> nat \<Rightarrow> string" where
  "line ntop h = (\<lambda>((k, x), lvl). case k of
     Kid \<Rightarrow> print_router ntop (the (routers h x)) lvl | Leaf \<Rightarrow> print_leaf ntop (the (leafs h x)) lvl)"

text \<open>The routers below \<open>r\<close>, itself included, and their receivers.\<close>

definition nodes_below :: "view \<Rightarrow> ptr \<Rightarrow> (kind \<times> ptr) set" where
  "nodes_below V r = Pair Kid ` down V r \<union> (\<Union>q \<in> down V r. Pair Leaf ` snd ` set (V (Leaf, q)))"

lemma nodes_below_iff:
  "(Kid, x) \<in> nodes_below V r \<longleftrightarrow> x \<in> down V r"
  "(Leaf, x) \<in> nodes_below V r \<longleftrightarrow> (\<exists>q \<in> down V r. x \<in> snd ` set (V (Leaf, q)))"
  by (auto simp: nodes_below_def)

definition prints :: "(in6_addr \<Rightarrow> string) \<Rightarrow> heap \<Rightarrow> (kind \<times> ptr) set \<Rightarrow> string option \<Rightarrow> bool" where
  "prints ntop h X s \<longleftrightarrow> (\<exists>ns. s = Some (concat (map (line ntop h) ns)) \<and> distinct (map fst ns) \<and> set (map fst ns) = X)"

lemma prints_Nil: "prints ntop h {} (Some [])"
  by (simp add: prints_def)

lemma prints_append:
  assumes "prints ntop h X (Some s)" "prints ntop h Y (Some t)" "X \<inter> Y = {}"
  shows "prints ntop h (X \<union> Y) (Some (s @ t))"
proof -
  obtain ns ms where "s = concat (map (line ntop h) ns)" "distinct (map fst ns)" "set (map fst ns) = X"
      "t = concat (map (line ntop h) ms)" "distinct (map fst ms)" "set (map fst ms) = Y"
    using assms(1,2) by (auto simp: prints_def)
  then show ?thesis using assms(3) unfolding prints_def by (intro exI [of _ "ns @ ms"]) auto
qed

lemma print_leafs_ok:
  "chain (cells h) c ys \<Longrightarrow> distinct (map snd ys) \<Longrightarrow> \<forall>v \<in> snd ` set ys. leafs h v \<noteq> None \<Longrightarrow>
    \<exists>s. print_leafs ntop c lvl h = Some s \<and> prints ntop h (Pair Leaf ` snd ` set ys) (Some s)"
proof (induction ys arbitrary: c)
  case Nil
  then show ?case by (subst print_leafs.simps) (simp add: prints_Nil)
next
  case (Cons y ys)
  from Cons.prems(1) obtain v ce where y: "y = (c, v)" "c \<noteq> NULL" "cells h c = Some ce" "child_v ce = v"
    "chain (cells h) (child_n ce) ys" by (auto elim: chain_ConsE)
  obtain lf where lf: "leafs h v = Some lf" using Cons.prems(3) y(1) by auto
  obtain s where s: "print_leafs ntop (child_n ce) lvl h = Some s"
      "prints ntop h (Pair Leaf ` snd ` set ys) (Some s)"
    using Cons.IH [OF y(5)] Cons.prems(2,3) by auto
  have one: "prints ntop h {(Leaf, v)} (Some (print_leaf ntop lf lvl))"
    unfolding prints_def using lf by (intro exI [of _ "[((Leaf, v), lvl)]"]) (simp add: line_def)
  have "prints ntop h ({(Leaf, v)} \<union> Pair Leaf ` snd ` set ys) (Some (print_leaf ntop lf lvl @ s))"
    using Cons.prems(2) y(1) by (intro prints_append [OF one s(2)]) force
  then show ?case using y lf s(1) by (subst print_leafs.simps) simp
qed

lemma mem_Pair_image: "(a, x) \<in> Pair b ` X \<longleftrightarrow> a = b \<and> x \<in> X"
  by auto

lemma nodes_below_kids:
  "nodes_below V r = {(Kid, r)} \<union> Pair Leaf ` snd ` set (V (Leaf, r)) \<union>
    (\<Union>y \<in> snd ` set (V (Kid, r)). nodes_below V y)"
proof (rule set_eqI)
  fix z :: "kind \<times> ptr"
  obtain k x where z: "z = (k, x)" by (cases z)
  have "q \<in> down V r \<longleftrightarrow> q = r \<or> (\<exists>y \<in> snd ` set (V (Kid, r)). q \<in> down V y)" for q
    unfolding down_kids [of V r] kids_down_def by auto
  note down_iff = this
  show "z \<in> nodes_below V r \<longleftrightarrow> z \<in> {(Kid, r)} \<union> Pair Leaf ` snd ` set (V (Leaf, r)) \<union>
      (\<Union>y \<in> snd ` set (V (Kid, r)). nodes_below V y)"
  proof (cases k)
    case Kid
    then show ?thesis by (simp add: z nodes_below_iff mem_Pair_image down_iff)
  next
    case Leaf
    have "(\<exists>q \<in> down V r. x \<in> snd ` set (V (Leaf, q))) \<longleftrightarrow> x \<in> snd ` set (V (Leaf, r)) \<or>
        (\<exists>y \<in> snd ` set (V (Kid, r)). \<exists>q \<in> down V y. x \<in> snd ` set (V (Leaf, q)))"
    proof -
      have "down V r = insert r (\<Union>y \<in> snd ` set (V (Kid, r)). down V y)"
        by (simp add: down_kids [of V r] kids_down_def)
      then show ?thesis by (simp only: UN_iff bex_simps(5) bex_UN)
    qed
    then show ?thesis by (simp only: z Leaf nodes_below_iff mem_Pair_image Un_iff UN_iff) simp
  qed
qed

lemma nodes_below_disjoint:
  assumes R: "repr h V" and "down V x \<inter> down V y = {}"
  shows "nodes_below V x \<inter> nodes_below V y = {}"
proof -
  have "par h l = q" if "l \<in> snd ` set (V (Leaf, q))" for l q
    using that repr_in [OF R, of _ l Leaf q] by auto
  then have "q = q'" if "l \<in> snd ` set (V (Leaf, q))" "l \<in> snd ` set (V (Leaf, q'))" for l q q'
    using that by blast
  then show ?thesis using assms(2) unfolding nodes_below_def by blast
qed

lemma df_print_ok:
  assumes R: "repr h V" and T: "tree_view V root"
  shows "routers h r \<noteq> None \<Longrightarrow> \<exists>s. df_print ntop r lvl h = Some s \<and> prints ntop h (nodes_below V r) (Some s)"
proof (induction "below V r" arbitrary: r lvl rule: less_induct)
  case less
  obtain rr where rr: "routers h r = Some rr" using less.prems by blast
  have ch: "chain (cells h) (router_child rr) (V (Kid, r))" "chain (cells h) (router_leaf rr) (V (Leaf, r))"
    using repr_list [OF R rlist_Some [OF rr, of Kid]] repr_list [OF R rlist_Some [OF rr, of Leaf]]
    by (simp_all add: list_ok_def child_list_def leaf_list_def)
  have lv: "\<forall>v \<in> snd ` set (V (Leaf, r)). leafs h v \<noteq> None" using repr_in [OF R, of _ _ Leaf r] by auto
  obtain ls where ls: "print_leafs ntop (router_leaf rr) (lvl + 1) h = Some ls"
      "prints ntop h (Pair Leaf ` snd ` set (V (Leaf, r))) (Some ls)"
    using print_leafs_ok [OF ch(2) tree_distinct [OF T] lv] by blast
  have kids: "chain (cells h) c ys \<Longrightarrow> distinct (map snd ys) \<Longrightarrow> set ys \<subseteq> set (V (Kid, r)) \<Longrightarrow>
      \<exists>s. print_childs ntop c (lvl + 1) h = Some s \<and> prints ntop h (\<Union>y \<in> snd ` set ys. nodes_below V y) (Some s)" for c ys
  proof (induction ys arbitrary: c)
    case Nil
    then show ?case by (subst print_childs.simps) (simp add: prints_Nil)
  next
    case (Cons x ys)
    from Cons.prems(1) obtain y ce where y: "x = (c, y)" "c \<noteq> NULL" "cells h c = Some ce" "child_v ce = y"
      "chain (cells h) (child_n ce) ys" by (auto elim: chain_ConsE)
    have "(c, y) \<in> set (V (Kid, r))" using Cons.prems(3) y(1) by simp
    then have e: "(r, y) \<in> kid_edges V" by (force simp: kid_edges_def)
    have "routers h y \<noteq> None" using e by (simp add: kid_edges_iff [OF R])
    from less.hyps [OF below_kid [OF T e] this, of "lvl + 1"] obtain s where
      s: "df_print ntop y (lvl + 1) h = Some s" "prints ntop h (nodes_below V y) (Some s)" by blast
    obtain t where t: "print_childs ntop (child_n ce) (lvl + 1) h = Some t"
        "prints ntop h (\<Union>y \<in> snd ` set ys. nodes_below V y) (Some t)"
      using Cons.IH [OF y(5)] Cons.prems(2,3) by auto
    have "nodes_below V y \<inter> nodes_below V y' = {}" if y': "y' \<in> snd ` set ys" for y'
    proof -
      have "snd ` set ys \<subseteq> snd ` set (V (Kid, r))" "y \<notin> snd ` set ys" using Cons.prems(2,3) y(1) by auto
      then have "(r, y') \<in> kid_edges V" "y \<noteq> y'" using y' by (auto simp: kid_edges_def)
      then show ?thesis using nodes_below_disjoint [OF R down_siblings [OF T e]] by blast
    qed
    then have "prints ntop h (nodes_below V y \<union> (\<Union>y \<in> snd ` set ys. nodes_below V y)) (Some (s @ t))"
      by (intro prints_append [OF s(2) t(2)]) blast
    then show ?case using y s(1) t(1) by (subst print_childs_step) simp
  qed
  obtain cs where cs: "print_childs ntop (router_child rr) (lvl + 1) h = Some cs"
      "prints ntop h (\<Union>y \<in> snd ` set (V (Kid, r)). nodes_below V y) (Some cs)"
    using kids [OF ch(1) tree_distinct [OF T]] by blast
  have one: "prints ntop h {(Kid, r)} (Some (print_router ntop rr lvl))"
    unfolding prints_def using rr by (intro exI [of _ "[((Kid, r), lvl)]"]) (simp add: line_def)
  have "prints ntop h ({(Kid, r)} \<union> Pair Leaf ` snd ` set (V (Leaf, r))) (Some (print_router ntop rr lvl @ ls))"
    by (intro prints_append [OF one ls(2)]) auto
  moreover have "({(Kid, r)} \<union> Pair Leaf ` snd ` set (V (Leaf, r))) \<inter>
      (\<Union>y \<in> snd ` set (V (Kid, r)). nodes_below V y) = {}"
  proof -
    have "(Kid, r) \<notin> nodes_below V y" "(Leaf, l) \<notin> nodes_below V y"
      if y: "y \<in> snd ` set (V (Kid, r))" and l: "l \<in> snd ` set (V (Leaf, r))" for y l
    proof -
      have e: "(r, y) \<in> kid_edges V" using y by (auto simp: kid_edges_def)
      then have "r \<notin> down V y" by (rule down_kid_self [OF T])
      moreover have "par h l = r" using l repr_in [OF R, of _ l Leaf r] by auto
      ultimately show "(Kid, r) \<notin> nodes_below V y" "(Leaf, l) \<notin> nodes_below V y"
        using repr_in [OF R, of _ l Leaf] by (auto simp: nodes_below_def)
    qed
    moreover have "(Kid, r) \<notin> nodes_below V y" if y: "y \<in> snd ` set (V (Kid, r))" for y
      using y down_kid_self [OF T, of r y] by (auto simp: nodes_below_def kid_edges_def)
    ultimately show ?thesis by blast
  qed
  ultimately have "prints ntop h (nodes_below V r) (Some ((print_router ntop rr lvl @ ls) @ cs))"
    unfolding nodes_below_kids [of V r] by (rule prints_append [OF _ cs(2)])
  then show ?case using rr ls(1) cs(1) by (simp add: df_print_def)
qed

text \<open>
  From the root of a well-formed tree, every router of the tree and every receiver is printed, also when
  a grouping has used up the counters (\<open>same_tree\<close>).
\<close>

lemma print_tree_ok:
  assumes T: "topo_ok h0 V root" and S: "same_tree h0 V h"
  shows "\<exists>s. util_print_tree ntop root h = Some s \<and>
    prints ntop h (Pair Kid ` {q. attached h root q} \<union> Pair Leaf ` {l. leafs h l \<noteq> None}) (Some s)"
proof -
  note R0 = topo_repr [OF T] and R = st_repr [OF S]
  have dom: "routers h q = None \<longleftrightarrow> routers h0 q = None" "leafs h q = None \<longleftrightarrow> leafs h0 q = None" for q
    using rdata_dom [OF st_rdata [OF S]] ldata_dom [OF st_ldata [OF S]] by blast+
  have att: "attached h root q \<longleftrightarrow> attached h0 root q" for q by (simp add: attached_def dom st_par [OF S])
  have D: "down V root = {q. attached h root q}"
    using attached_reach [OF T] topo_root [OF T]
    by (auto simp: att) (auto simp: down_def attached_def kid_edges_iff [OF R0] elim: rtranclE)
  have "(\<exists>q \<in> down V root. l \<in> snd ` set (V (Leaf, q))) \<longleftrightarrow> leafs h l \<noteq> None" for l
  proof
    assume "\<exists>q \<in> down V root. l \<in> snd ` set (V (Leaf, q))"
    then show "leafs h l \<noteq> None" using repr_in [OF R, of _ l Leaf] by auto
  next
    assume "leafs h l \<noteq> None"
    then have l: "leafs h0 l \<noteq> None" using dom by simp
    then obtain c where c: "(c, l) \<in> set (V (Leaf, par h0 l))"
      using repr_par [OF R0, of Leaf l] topo_leaf [OF T] by auto
    then show "\<exists>q \<in> down V root. l \<in> snd ` set (V (Leaf, q))"
      using topo_parent_attached [OF T c] D att by force
  qed
  then have L: "{l. leafs h l \<noteq> None} = (\<Union>q \<in> down V root. snd ` set (V (Leaf, q)))" by blast
  have N: "nodes_below V root = Pair Kid ` {q. attached h root q} \<union> Pair Leaf ` {l. leafs h l \<noteq> None}"
    by (simp only: nodes_below_def L D [symmetric] image_UN)
  have "routers h root \<noteq> None" using topo_root(1) [OF T] dom by simp
  from df_print_ok [OF R topo_tree_view [OF T] this, of ntop 0] show ?thesis
    by (simp add: util_print_tree_def N)
qed


section \<open>Groups\<close>

lemma print_addrs_take:
  "n \<le> length as \<Longrightarrow> print_addrs ntop n as = Some (concat (map (\<lambda>a. ntop a @ '','') (take n as)))"
  by (induction ntop n as rule: print_addrs.induct) (simp_all add: print_ia_def)

text \<open>The line of a header: the addresses of its segments and the bitmap.\<close>

definition group_line :: "(in6_addr \<Rightarrow> string) \<Rightarrow> heap \<Rightarrow> seg list \<Rightarrow> uint32 \<Rightarrow> string" where
  "group_line ntop h g bm =
     ''['' @ concat (map (\<lambda>a. ntop a @ '','') (entries h g)) @ '']'' @ tab @ ''bm: '' @ fmt_u (unat bm) @ nl"

definition uni_line :: "(in6_addr \<Rightarrow> string) \<Rightarrow> addr \<Rightarrow> string" where
  "uni_line ntop a = ntop (sin6_addr (addr_sa a)) @ ''/'' @ fmt_u (unat (addr_port a)) @ nl"

lemma print_uni_all: "print_uni ntop (length as) as = Some (concat (map (uni_line ntop) as))"
  by (induction as) (simp_all add: print_ia_def uni_line_def)

lemma print_hdrs_ok:
  "chain (cells h) c ds \<Longrightarrow>
    list_all2 (\<lambda>x g. \<exists>d. hdrs h (snd x) = Some d \<and> hdr_ok h mx d g \<and> \<not> is_node h (snd x)) ds gs \<Longrightarrow>
    \<exists>bs. list_all2 (\<lambda>b g. bits_ok b (flags g)) bs gs \<and>
      print_hdrs ntop c h = Some (concat (map2 (group_line ntop h) gs bs))"
proof (induction ds arbitrary: c gs)
  case Nil
  then show ?case by (subst print_hdrs.simps) simp
next
  case (Cons x ds)
  from Cons.prems(1) obtain v ce where x: "x = (c, v)" "c \<noteq> NULL" "cells h c = Some ce" "child_v ce = v"
    "chain (cells h) (child_n ce) ds" by (auto elim: chain_ConsE)
  obtain g gs' d where g: "gs = g # gs'" "hdrs h v = Some d" "hdr_ok h mx d g"
      "list_all2 (\<lambda>x g. \<exists>d. hdrs h (snd x) = Some d \<and> hdr_ok h mx d g \<and> \<not> is_node h (snd x)) ds gs'"
    using Cons.prems(2) x(1) by (auto simp: list_all2_Cons1)
  obtain bs where bs: "list_all2 (\<lambda>b g. bits_ok b (flags g)) bs gs'"
      "print_hdrs ntop (child_n ce) h = Some (concat (map2 (group_line ntop h) gs' bs))"
    using Cons.IH [OF x(5) g(4)] by blast
  have d: "mdc_addr d = entries h g" "unat (hdr_dsts d) = length (entries h g)" "bits_ok (mdc_rtm d) (flags g)"
    using g(3) by (simp_all add: hdr_ok_def)
  have "print_hdrs ntop c h = Some (group_line ntop h g (mdc_rtm d) @ concat (map2 (group_line ntop h) gs' bs))"
    using x g(2) bs(2) d(1,2) by (subst print_hdrs.simps) (simp add: print_addrs_take group_line_def [of ntop h g "mdc_rtm d"])
  then show ?case using bs(1) d(3) g(1) by (intro exI [of _ "mdc_rtm d # bs"]) simp
qed

text \<open>What is printed for a group with the segments \<open>gs\<close> and the bitmaps \<open>bs\<close>.\<close>

definition txg_text ::
    "(in6_addr \<Rightarrow> string) \<Rightarrow> heap \<Rightarrow> seg list list \<Rightarrow> uint32 list \<Rightarrow> ptr list \<Rightarrow> string" where
  "txg_text ntop h gs bs us = ''MEADcast groups:'' @ nl @ concat (map2 (group_line ntop h) gs bs) @
     ''Unicast:'' @ nl @ concat (map (uni_line ntop) (rcvr_addrs h us))"

lemma print_txg_ok:
  assumes "txg_serves h mx grp gs us"
  shows "\<exists>bs. list_all2 (\<lambda>b g. bits_ok b (flags g)) bs gs \<and>
    util_print_txg ntop (Some grp) h = Some (txg_text ntop h gs bs us)"
proof -
  obtain ds where ds: "chain (cells h) (txg_mdc grp) ds"
      "list_all2 (\<lambda>x g. \<exists>d. hdrs h (snd x) = Some d \<and> hdr_ok h mx d g \<and> \<not> is_node h (snd x)) ds gs"
    and u: "txg_nuni grp = length us" "txg_uni grp = rcvr_addrs h us"
    using assms by (auto simp: txg_serves_def)
  have "length (rcvr_addrs h us) = length us" by (simp add: rcvr_addrs_def)
  then show ?thesis
    using print_hdrs_ok [OF ds, of ntop] print_uni_all [of ntop "rcvr_addrs h us"] u
    by (auto simp: util_print_txg_def txg_text_def)
qed

end
