(* ===== verification/Options.thy ===== *)
theory Options
  imports ParseProof PrintProof
begin

text \<open>
  The table of options of \<open>argp.c\<close>, which is handed to \<open>argp_parse\<close>, with the values of the keys: it has an
  entry for each option that \<open>parse_opt\<close> knows, and for no other. The settings that the program prints
  are accepted as arguments again.
\<close>


section \<open>The table\<close>

text \<open>
  \<open>struct argp_option\<close> without the flags, which are 0, and the help texts; \<open>opt_key = None\<close> is the key 0 of a
  heading or of the end of the table.
\<close>

record argp_option =
  opt_name :: "string option"
  opt_code :: "opt_key option"
  opt_arg :: "string option"
  opt_group :: int

abbreviation (input) OPT_GRP_NET :: int where "OPT_GRP_NET \<equiv> 1"
abbreviation (input) OPT_GRP_DCVR :: int where "OPT_GRP_DCVR \<equiv> 2"
abbreviation (input) OPT_GRP_GRP :: int where "OPT_GRP_GRP \<equiv> 3"
abbreviation (input) OPT_GRP_VERBOSE :: int where "OPT_GRP_VERBOSE \<equiv> 4"

definition heading :: "int \<Rightarrow> argp_option" where
  "heading grp = \<lparr>opt_name = None, opt_code = None, opt_arg = None, opt_group = grp\<rparr>"

definition option_arg :: "string \<Rightarrow> opt_key \<Rightarrow> string \<Rightarrow> int \<Rightarrow> argp_option" where
  "option_arg name key arg grp = \<lparr>opt_name = Some name, opt_code = Some key, opt_arg = Some arg, opt_group = grp\<rparr>"

definition option_flag :: "string \<Rightarrow> opt_key \<Rightarrow> int \<Rightarrow> argp_option" where
  "option_flag name key grp = \<lparr>opt_name = Some name, opt_code = Some key, opt_arg = None, opt_group = grp\<rparr>"

definition options :: "argp_option list" where
  "options =
     [heading OPT_GRP_NET,
      option_arg ''tun'' OPT_TIFNAME ''ifname'' OPT_GRP_NET,
      option_arg ''interface'' OPT_BIFNAME ''ifname'' OPT_GRP_NET,
      option_arg ''tun-address'' OPT_TADDR ''ipv6'' OPT_GRP_NET,
      option_arg ''address'' OPT_BADDR ''ipv6'' OPT_GRP_NET,
      option_arg ''port'' OPT_BPORT ''port'' OPT_GRP_NET,
      heading OPT_GRP_DCVR,
      option_arg ''interval'' OPT_DCVR_INT ''secs'' OPT_GRP_DCVR,
      option_arg ''timeout'' OPT_DCVR_TOUT ''secs'' OPT_GRP_DCVR,
      option_arg ''delay'' OPT_DCVR_DELAY ''secs'' OPT_GRP_DCVR,
      option_flag ''wait'' OPT_DCVR_WAIT OPT_GRP_DCVR,
      heading OPT_GRP_GRP,
      option_arg ''max'' OPT_MAX_ADDRS ''max'' OPT_GRP_GRP,
      option_arg ''ok'' OPT_OK_ADDRS ''ok'' OPT_GRP_GRP,
      option_arg ''min-leafs'' OPT_MIN_LEAFS ''leafs'' OPT_GRP_GRP,
      option_arg ''min-routers'' OPT_MIN_ROUTERS ''routers'' OPT_GRP_GRP,
      option_flag ''split'' OPT_SPLIT_NODES OPT_GRP_GRP,
      option_arg ''merge'' OPT_MERGE_RANGE ''distance'' OPT_GRP_GRP,
      heading 0,
      option_flag ''print-tree'' OPT_PRINT_TREE OPT_GRP_VERBOSE,
      option_flag ''print-groups'' OPT_PRINT_TXG OPT_GRP_VERBOSE,
      heading 0]"

text \<open>The values of \<open>enum sopts\<close>, and those of the keys of \<open>argp.h\<close> of the C library.\<close>

fun key_value :: "opt_key \<Rightarrow> int" where
  "key_value OPT_TIFNAME = of_char CHR ''t''"
| "key_value OPT_BIFNAME = of_char CHR ''i''"
| "key_value OPT_TADDR = 0x100"
| "key_value OPT_BADDR = of_char CHR ''a''"
| "key_value OPT_BPORT = of_char CHR ''p''"
| "key_value OPT_DCVR_INT = of_char CHR ''I''"
| "key_value OPT_DCVR_TOUT = of_char CHR ''T''"
| "key_value OPT_DCVR_DELAY = of_char CHR ''d''"
| "key_value OPT_DCVR_WAIT = of_char CHR ''w''"
| "key_value OPT_MAX_ADDRS = 0x200"
| "key_value OPT_OK_ADDRS = 0x300"
| "key_value OPT_MIN_LEAFS = 0x400"
| "key_value OPT_MIN_ROUTERS = 0x500"
| "key_value OPT_SPLIT_NODES = of_char CHR ''s''"
| "key_value OPT_MERGE_RANGE = of_char CHR ''m''"
| "key_value OPT_PRINT_TREE = 0x600"
| "key_value OPT_PRINT_TXG = 0x700"
| "key_value ARGP_KEY_ARG = 0"
| "key_value ARGP_KEY_END = 0x1000001"
| "key_value (Other_key n) = n"

text \<open>The options proper: entries with a name, and their keys.\<close>

definition named_options :: "argp_option list" where
  "named_options = filter (\<lambda>e. opt_name e \<noteq> None) options"

lemma options_shape:
  "\<forall>e \<in> set options. opt_name e = None \<longleftrightarrow> opt_code e = None"
  "distinct (map (\<lambda>e. the (opt_name e)) named_options)"
  "distinct (map (\<lambda>e. key_value (the (opt_code e))) named_options)"
  by code_simp+

lemma option_keys:
  "opt_code ` set named_options = Some ` {k. k \<notin> {ARGP_KEY_ARG, ARGP_KEY_END} \<and> k \<notin> range Other_key}"
proof -
  have "{k. k \<notin> {ARGP_KEY_ARG, ARGP_KEY_END} \<and> k \<notin> range Other_key} =
      {OPT_TIFNAME, OPT_BIFNAME, OPT_TADDR, OPT_BADDR, OPT_BPORT, OPT_DCVR_INT, OPT_DCVR_TOUT,
        OPT_DCVR_DELAY, OPT_DCVR_WAIT, OPT_MAX_ADDRS, OPT_OK_ADDRS, OPT_MIN_LEAFS, OPT_MIN_ROUTERS,
        OPT_SPLIT_NODES, OPT_MERGE_RANGE, OPT_PRINT_TREE, OPT_PRINT_TXG}" (is "?K = ?L")
  proof (rule set_eqI)
    show "k \<in> ?K \<longleftrightarrow> k \<in> ?L" for k by (cases k) auto
  qed
  then show ?thesis
    by (simp add: named_options_def options_def heading_def option_arg_def option_flag_def)
qed

lemma attempt_InrE:
  assumes "attempt r f = Some (Inr y)"
  obtains x where "r = Some (Inr x)" "f x = Some (Inr y)"
  using assms by (auto simp: attempt_def split: option.splits sum.splits Option.bind_splits)

lemma option_key:
  assumes "e \<in> set named_options" and "opt_code e = Some k"
  shows "k \<notin> {ARGP_KEY_ARG, ARGP_KEY_END}" "k \<notin> range Other_key"
proof -
  have "Some k \<in> opt_code ` set named_options" using assms by (metis imageI)
  then have "k \<notin> {ARGP_KEY_ARG, ARGP_KEY_END} \<and> k \<notin> range Other_key"
    unfolding option_keys by (simp add: image_iff)
  then show "k \<notin> {ARGP_KEY_ARG, ARGP_KEY_END}" "k \<notin> range Other_key" by simp_all
qed

text \<open>
  An option of the table is known to the parser: it succeeds if the argument is in its range, and
  exits if not. One without argument ignores it, and other keys are not known.
\<close>

lemma option_known:
  assumes e: "e \<in> set named_options" "opt_code e = Some k" and D: "call_defined (k, arg, st)"
  shows "if call_ok pton (k, arg, st) then \<exists>A'. parse_opt pton junk k arg st A ps = Some (Inr (0, A', ps))
    else parse_opt pton junk k arg st A ps = Some (Inl 1)"
proof -
  have int: "parse_int old arg mn = Some (if mn \<le> number_of arg then Inr (put_int (number_of arg) old) else Inl 1)"
    if "atoi arg \<noteq> None" for old mn
    using that by (auto simp: parse_int_def number_of_def)
  have num: "atoi arg = Some (number_of arg)" if "atoi arg \<noteq> None"
    using that by (auto simp: number_of_def)
  have "k \<noteq> ARGP_KEY_ARG" "k \<noteq> ARGP_KEY_END" "k \<noteq> Other_key n" for n using option_key [OF e] by auto
  then show ?thesis
    using D by (cases k; simp add: parse_opt_def Let_def parse_if_ok parse_addr_ok parse_port_ok int num
        split: option.split)
qed

lemma option_flag_known:
  assumes "e \<in> set named_options" and "opt_code e = Some k" and "opt_arg e = None"
  shows "\<exists>A'. \<forall>arg. parse_opt pton junk k arg st A ps = Some (Inr (0, A', ps))"
proof -
  have "k \<in> {OPT_DCVR_WAIT, OPT_SPLIT_NODES, OPT_PRINT_TREE, OPT_PRINT_TXG}"
    using assms by (auto simp: named_options_def options_def heading_def option_arg_def option_flag_def)
  then show ?thesis by (auto simp: parse_opt_def)
qed

lemma other_key_unknown: "parse_opt pton junk (Other_key n) arg st A ps = Some (Inr (ARGP_ERR_UNKNOWN, A, ps))"
  by (simp add: parse_opt_def)


section \<open>The settings\<close>

text \<open>The options that set what \<open>print_grouping_args\<close> prints.\<close>

definition settings_line :: "argp_state \<Rightarrow> arguments \<Rightarrow> call list" where
  "settings_line st A =
     [(OPT_MAX_ADDRS, fmt_u (max_addrs A), st), (OPT_OK_ADDRS, fmt_u (ok_addrs A), st),
      (OPT_MIN_LEAFS, fmt_u (min_leafs A), st), (OPT_MIN_ROUTERS, fmt_u (min_routers A), st),
      (OPT_MERGE_RANGE, fmt_u (merge_range A), st)] @
     (if split_nodes A then [(OPT_SPLIT_NODES, [], st)] else [])"

lemma parse_int_fmt_u:
  assumes "n < 2 ^ 31" and "old < 2 ^ 31" and "0 \<le> mn" and "mn \<le> int n"
  shows "parse_int old (fmt_u n) mn = Some (Inr n)"
  using parse_int_ok(1) [of "fmt_u n" old mn] atoi_fmt_u [OF assms(1)] assms by (simp add: number_of_def)

definition setting_keys :: "opt_key set" where
  "setting_keys = {OPT_MAX_ADDRS, OPT_OK_ADDRS, OPT_MIN_LEAFS, OPT_MIN_ROUTERS, OPT_MERGE_RANGE, OPT_SPLIT_NODES}"

definition same_settings :: "arguments \<Rightarrow> arguments \<Rightarrow> bool" where
  "same_settings A B \<longleftrightarrow> max_addrs B = max_addrs A \<and> ok_addrs B = ok_addrs A \<and> min_leafs B = min_leafs A \<and>
     min_routers B = min_routers A \<and> merge_range B = merge_range A \<and> split_nodes B = split_nodes A"

lemma parse_calls_settings:
  "\<forall>c \<in> set cs. fst c \<noteq> ARGP_KEY_END \<and> fst c \<notin> setting_keys \<Longrightarrow>
   parse_calls pton junk cs A ps = Some (Inr (A', ps')) \<Longrightarrow> same_settings A A'"
proof (induction cs arbitrary: A ps)
  case (Cons c cs)
  obtain key s st where c: "c = (key, s, st)" by (cases c)
  from Cons.prems(2) obtain e A1 ps1 where
    1: "parse_opt pton junk key s st A ps = Some (Inr (e, A1, ps1))" "parse_calls pton junk cs A1 ps1 = Some (Inr (A', ps'))"
    by (auto simp: c attempt_def split: option.splits sum.splits)
  have "same_settings A A1"
    using 1(1) Cons.prems(1) unfolding c
    by (cases key; force simp: parse_opt_def Let_def attempt_def parse_pos_def bind_eq_Some same_settings_def
        setting_keys_def split: option.splits sum.splits if_splits)
  moreover have "same_settings A1 A'" using Cons.IH [OF _ 1(2)] Cons.prems(1) by simp
  ultimately show ?case by (simp add: same_settings_def)
qed (simp add: same_settings_def)

lemma settings_line_sets:
  assumes A: "args_bounded A" "2 \<le> ok_addrs A" and B: "parse_inv B" "\<not> split_nodes B"
  shows "\<exists>B'. parse_calls pton junk (settings_line st A) B ps = Some (Inr (B', ps)) \<and> same_settings A B'"
proof -
  note simps = settings_line_def parse_opt_def Let_def attempt_def parse_int_fmt_u same_settings_def
  show ?thesis
    using A B by (cases "split_nodes A") (simp_all add: simps args_bounded_def parse_inv_def)
qed

lemma parse_calls_appendE:
  assumes "parse_calls pton junk (cs @ ds) A ps = Some (Inr (B, qs))"
  obtains A' ps' where "parse_calls pton junk cs A ps = Some (Inr (A', ps'))"
    "parse_calls pton junk ds A' ps' = Some (Inr (B, qs))"
  using assms unfolding parse_calls_append by (elim attempt_InrE) auto

text \<open>A whole command line, with other arguments before and behind the settings, and its end.\<close>

lemma settings_line_ok:
  assumes A: "args_bounded A" "2 \<le> ok_addrs A"
    and D: "\<forall>c \<in> set (cs @ ds). call_defined c \<and> fst c \<noteq> ARGP_KEY_END \<and> fst c \<notin> setting_keys"
    and ok: "line_ok pton (cs @ ds)"
    and junk: "length (peers_of pton (cs @ ds)) \<le> 1 \<or> (\<forall>p. junk p = NULL)"
  shows "\<exists>B ps. init_args pton junk (cs @ settings_line st A @ ds @ [(ARGP_KEY_END, x, y)]) = Some (Inr (B, ps)) \<and>
    print_grouping_args B = print_grouping_args A \<and> peers_ok B ps (peers_of pton (cs @ ds))"
proof -
  let ?l = "settings_line st A" and ?N = "\<lambda>_. NULL" and ?A0 = "set_default_args pton"
  have L: "\<forall>c \<in> set ?l. call_defined c \<and> call_ok pton c \<and> fst c \<noteq> ARGP_KEY_END \<and> fst c \<noteq> ARGP_KEY_ARG"
    using A atoi_fmt_u by (auto simp: settings_line_def args_bounded_def number_of_def)
  have np: "peers_of pton zs = []" if "\<forall>c \<in> set zs. fst c \<noteq> ARGP_KEY_ARG" for zs :: "call list"
    using that by (induction zs) (auto split: option.splits)
  have P: "peers_of pton (cs @ ?l @ ds) = peers_of pton (cs @ ds)"
    using np [of ?l] L by (simp add: peers_of_append)
  have D': "\<forall>c \<in> set (cs @ ?l @ ds). call_defined c \<and> fst c \<noteq> ARGP_KEY_END" using D L by auto
  have ok': "line_ok pton (cs @ ?l @ ds)" using ok L P by (auto simp: line_ok_def)
  have J: "length (peers_of pton (cs @ ?l @ ds)) \<le> 1 \<or> (\<forall>p. junk p = NULL)" using junk P by simp
  obtain B ps where B: "init_args pton ?N ((cs @ ?l @ ds) @ [(ARGP_KEY_END, x, y)]) = Some (Inr (B, ps))"
      "peers_ok B ps (peers_of pton (cs @ ds))"
    using init_args_ok [OF D', of pton x y] ok' P by auto
  from B(1) obtain A1 p1 A2 p2 A3 p3 where
    1: "parse_calls pton ?N cs ?A0 no_peers = Some (Inr (A1, p1))"
    and 2: "parse_calls pton ?N ?l A1 p1 = Some (Inr (A2, p2))"
    and 3: "parse_calls pton ?N ds A2 p2 = Some (Inr (A3, p3))"
    and 4: "parse_calls pton ?N [(ARGP_KEY_END, x, y)] A3 p3 = Some (Inr (B, ps))"
    unfolding init_args_def append_assoc by (elim parse_calls_appendE)
  have I: "parse_inv ?A0" "peers_ok ?A0 no_peers []"
    by (simp_all add: parse_inv_def set_default_args_def name_ok_def IFNAMSIZ_def peers_ok_def no_peers_def)
  have "\<forall>c \<in> set cs. call_defined c \<and> fst c \<noteq> ARGP_KEY_END" "\<forall>c \<in> set cs. call_ok pton c"
    using D ok by (simp_all add: line_ok_def)
  then have "parse_inv A1" using parse_calls_ok [OF I, of cs pton] 1 by auto
  moreover have "same_settings ?A0 A1" by (rule parse_calls_settings [OF _ 1]) (use D in simp)
  then have "\<not> split_nodes A1" by (simp add: same_settings_def set_default_args_def)
  ultimately have s2: "same_settings A A2" using settings_line_sets [OF A, of A1 pton ?N st p1] 2 by auto
  have "same_settings A2 A3" by (rule parse_calls_settings [OF _ 3]) (use D in simp)
  with s2 have s3: "same_settings A A3" by (simp add: same_settings_def)
  have "ok_addrs A3 \<noteq> 0" using s3 A(2) by (simp add: same_settings_def)
  then have "B = A3"
    using 4 by (auto simp: parse_opt_def parse_end_def attempt_def split: option.splits sum.splits)
  then have "print_grouping_args B = print_grouping_args A"
    using s3 by (simp add: print_grouping_args_def same_settings_def)
  moreover have "init_args pton junk ((cs @ ?l @ ds) @ [(ARGP_KEY_END, x, y)]) = Some (Inr (B, ps))"
    unfolding init_args_junk [OF J] by (rule B(1))
  ultimately show ?thesis using B(2) by auto
qed

end
