(* ===== verification/Testbed.thy ===== *)
theory Testbed
  imports Printing Reduce
begin

text \<open>
  The hand-written test, \<open>test.c\<close>: two fixed topologies, and a run of thinning, printing, grouping and
  resetting on one of them. The arrays of the C code are maps from indices; an entry that was not
  written is \<open>None\<close>. \<open>inet_pton\<close> is the argument \<open>pton\<close>.
\<close>


section \<open>Addresses\<close>

text \<open>
  The loops that fill the arrays \<open>rsa\<close> and \<open>lsa\<close> from 1 to \<open>n\<close> with the addresses of a prefix and the index.
\<close>

fun init_sas :: "(string \<Rightarrow> in6_addr option) \<Rightarrow> string \<Rightarrow> nat \<Rightarrow> (nat \<Rightarrow> sockaddr_in6 option) option" where
  "init_sas pton pref 0 = Some (\<lambda>i. None)"
| "init_sas pton pref (Suc n) = do {
     sas \<leftarrow> init_sas pton pref n;
     a \<leftarrow> pton (pref @ fmt_u (Suc n));
     Some (sas(Suc n \<mapsto> \<lparr>sin6_family = AF_INET6, sin6_port = 0, sin6_addr = a\<rparr>))
   }"


section \<open>Creating the nodes\<close>

text \<open>
  The calls in their order: \<open>New_router i j\<close> is \<open>r[i] = create_router(&rsa[i], r[j])\<close>, \<open>New_leaf i j\<close> is
  \<open>create_leaf(&lsa[i], 0, r[j])\<close>, where \<open>r[0]\<close> stands for \<open>*root\<close>.
\<close>

datatype creation = New_router nat nat | New_leaf nat nat

fun create_all ::
    "(nat \<Rightarrow> sockaddr_in6 option) \<Rightarrow> (nat \<Rightarrow> sockaddr_in6 option) \<Rightarrow> creation list \<Rightarrow>
      (nat \<Rightarrow> ptr option) \<Rightarrow> heap \<Rightarrow> ((nat \<Rightarrow> ptr option) \<times> heap) option" where
  "create_all rsa lsa [] r h = Some (r, h)"
| "create_all rsa lsa (New_router i j # cs) r h = do {
     sa \<leftarrow> rsa i;
     p \<leftarrow> r j;
     (x, h) \<leftarrow> create_router sa p h;
     create_all rsa lsa cs (r(i \<mapsto> x)) h
   }"
| "create_all rsa lsa (New_leaf i j # cs) r h = do {
     sa \<leftarrow> lsa i;
     p \<leftarrow> r j;
     (_, h) \<leftarrow> create_leaf sa 0 p h;
     create_all rsa lsa cs r h
   }"

text \<open>The loop over the routers that sets their distances.\<close>

fun init_hops :: "nat list \<Rightarrow> (nat \<Rightarrow> ptr option) \<Rightarrow> heap \<Rightarrow> heap option" where
  "init_hops [] r h = Some h"
| "init_hops (i # is) r h = do {
     x \<leftarrow> r i;
     rx \<leftarrow> routers h x;
     p \<leftarrow> routers h (node_parent (router_node rx));
     h \<leftarrow> upd_router x (router_hops_update (\<lambda>_. router_hops p + 1)) h;
     init_hops is r h
   }"

text \<open>
  What the two functions have in common. \<open>Inl\<close> is the message with which the program exits with
  \<open>EXIT_FAILURE\<close>, \<open>Inr\<close> the root. The names of the prefixes are swapped in the source: the routers get \<open>f::\<close>.
\<close>

definition create_nodes ::
    "(string \<Rightarrow> in6_addr option) \<Rightarrow> nat \<Rightarrow> nat \<Rightarrow> creation list \<Rightarrow> heap \<Rightarrow> (string + ptr \<times> heap) option" where
  "create_nodes pton nr ne cs h = (case pton ''::'' of
     None \<Rightarrow> Some (Inl ''inet_pton (root)'')
   | Some a \<Rightarrow> (case init_sas pton ''f::'' nr of
       None \<Rightarrow> Some (Inl ''inet_pton (router)'')
     | Some rsa \<Rightarrow> (case init_sas pton ''a::'' ne of
         None \<Rightarrow> Some (Inl ''inet_pton (ep)'')
       | Some lsa \<Rightarrow> do {
           (root, h) \<leftarrow> create_router \<lparr>sin6_family = AF_INET6, sin6_port = 0, sin6_addr = a\<rparr> NULL h;
           (r, h) \<leftarrow> create_all rsa lsa cs [0 \<mapsto> root] h;
           h \<leftarrow> init_hops [1..<Suc nr] r h;
           Some (Inr (root, h))
         })))"


section \<open>The topologies\<close>

definition topo_nodes :: "creation list" where
  "topo_nodes =
     [New_router 1 0, New_router 2 0,
      New_router 3 1, New_router 4 1,
      New_leaf 1 1, New_leaf 2 1, New_leaf 3 1,
      New_router 5 2, New_router 6 2,
      New_leaf 4 2, New_leaf 5 2,
      New_router 7 3,
      New_leaf 6 3, New_leaf 7 3,
      New_router 8 4, New_router 9 4,
      New_leaf 8 4, New_leaf 9 4, New_leaf 10 4, New_leaf 11 4,
      New_leaf 12 5, New_leaf 13 5,
      New_router 10 6,
      New_leaf 14 6,
      New_leaf 15 7,
      New_router 11 8,
      New_leaf 16 8, New_leaf 17 8,
      New_router 12 9,
      New_leaf 18 9, New_leaf 19 9,
      New_leaf 20 10, New_leaf 21 10, New_leaf 22 10,
      New_leaf 23 11, New_leaf 24 11, New_leaf 25 11, New_leaf 26 11,
      New_leaf 27 12, New_leaf 28 12]"

definition create_topo :: "(string \<Rightarrow> in6_addr option) \<Rightarrow> heap \<Rightarrow> (string + ptr \<times> heap) option" where
  "create_topo pton h = create_nodes pton 12 28 topo_nodes h"

definition testbed_nodes :: "creation list" where
  "testbed_nodes =
     [New_router 1 0, New_router 2 1, New_router 3 2, New_router 4 3,
      New_router 5 4, New_router 6 4, New_router 7 4,
      New_router 8 5, New_router 9 5,
      New_router 10 6, New_router 11 6,
      New_router 12 7, New_router 13 7,
      New_leaf 1 8, New_leaf 2 8,
      New_leaf 3 9,
      New_leaf 4 10, New_leaf 5 10,
      New_leaf 6 11, New_leaf 7 11,
      New_leaf 8 12,
      New_leaf 9 13]"

definition create_testbed :: "(string \<Rightarrow> in6_addr option) \<Rightarrow> heap \<Rightarrow> (string + ptr \<times> heap) option" where
  "create_testbed pton h = create_nodes pton 13 9 testbed_nodes h"


section \<open>The test\<close>

text \<open>
  \<open>test\<close> exits: with \<open>EXIT_FAILURE\<close> and a message, or with \<open>EXIT_SUCCESS\<close>; then the result is the output and
  what is left in memory.
\<close>

definition test ::
    "(string \<Rightarrow> in6_addr option) \<Rightarrow> (in6_addr \<Rightarrow> string) \<Rightarrow> 't judy \<Rightarrow> arguments \<Rightarrow> merging \<Rightarrow> heap \<Rightarrow> 't \<Rightarrow>
      (string + string \<times> merging \<times> heap \<times> 't) option" where
  "test pton ntop J A ms h t = do {
     res \<leftarrow> create_testbed pton h;
     case res of
       Inl msg \<Rightarrow> Some (Inl msg)
     | Inr (root, h) \<Rightarrow> do {
         (h, t) \<leftarrow> reduce_tree J A root h t;
         s \<leftarrow> util_print_tree ntop root h;
         (grp, ms, h) \<leftarrow> greedy_grouping A root ms h;
         s' \<leftarrow> util_print_txg ntop grp h;
         h \<leftarrow> rec_reset_tree root root h;
         Some (Inr (s @ s', ms, h, t))
       }
   }"

end
