(* ===== verification/TestbedProof.thy ===== *)
theory TestbedProof
  imports Testbed PrintProof
begin

text \<open>
  The calls of \<open>test.c\<close> build the trees they describe, with the distances a discovery would have found,
  and the test runs to its end on them.
\<close>


section \<open>What the calls describe\<close>

text \<open>
  The calls are in order: a router is created once, below one with a smaller index that exists, and
  in the end all \<open>nr\<close> exist; \<open>S\<close> are the indices of those that exist.
\<close>

fun creations_ok :: "nat \<Rightarrow> nat \<Rightarrow> creation list \<Rightarrow> nat set \<Rightarrow> bool" where
  "creations_ok nr ne [] S \<longleftrightarrow> S = {0..nr}"
| "creations_ok nr ne (New_router i j # cs) S \<longleftrightarrow>
     j \<in> S \<and> i \<notin> S \<and> j < i \<and> i \<le> nr \<and> creations_ok nr ne cs (insert i S)"
| "creations_ok nr ne (New_leaf i j # cs) S \<longleftrightarrow> j \<in> S \<and> 0 < i \<and> i \<le> ne \<and> creations_ok nr ne cs S"

fun leaf_calls :: "creation list \<Rightarrow> (nat \<times> nat) list" where
  "leaf_calls [] = []"
| "leaf_calls (New_router i j # cs) = leaf_calls cs"
| "leaf_calls (New_leaf i j # cs) = (i, j) # leaf_calls cs"

lemma leaf_calls_append [simp]: "leaf_calls (cs @ ds) = leaf_calls cs @ leaf_calls ds"
  by (induction cs rule: leaf_calls.induct) simp_all

text \<open>
  The tree of the calls: \<open>r\<close> has the router of each index, \<open>ls\<close> the receivers in the order of their calls;
  \<open>ra\<close> and \<open>la\<close> are the addresses.
\<close>

definition edges_of :: "creation list \<Rightarrow> (nat \<Rightarrow> ptr option) \<Rightarrow> (ptr \<times> ptr) set" where
  "edges_of cs r = {(p, x). \<exists>i j. New_router i j \<in> set cs \<and> r j = Some p \<and> r i = Some x}"

lemma edges_of_append: "edges_of (cs @ ds) r = edges_of cs r \<union> edges_of ds r"
  unfolding edges_of_def by auto

lemma edges_of_one [simp]:
  "edges_of [New_leaf i j] r = {}"
  "edges_of [New_router i j] r = {(p, x). r j = Some p \<and> r i = Some x}"
  by (simp_all add: edges_of_def)

lemma edges_of_fresh:
  assumes "\<And>k m. New_router k m \<in> set cs \<Longrightarrow> k \<noteq> i \<and> m \<noteq> i"
  shows "edges_of cs (r(i \<mapsto> x)) = edges_of cs r"
proof -
  have "New_router k m \<in> set cs \<and> (r(i \<mapsto> x)) m = Some a \<and> (r(i \<mapsto> x)) k = Some b \<longleftrightarrow>
      New_router k m \<in> set cs \<and> r m = Some a \<and> r k = Some b" for k m a b
    using assms [of k m] by auto
  then show ?thesis by (simp only: edges_of_def)
qed

definition built ::
    "(nat \<Rightarrow> in6_addr) \<Rightarrow> (nat \<Rightarrow> in6_addr) \<Rightarrow> creation list \<Rightarrow> (nat \<Rightarrow> ptr option) \<Rightarrow> ptr list \<Rightarrow>
      heap \<Rightarrow> view \<Rightarrow> ptr \<Rightarrow> bool" where
  "built ra la cs r ls h V root \<longleftrightarrow> topo_ok h V root \<and> hops_at h root = 0 \<and>
     r 0 = Some root \<and> inj_on r (dom r) \<and> (\<forall>i \<in> dom r. attached h root (the (r i))) \<and>
     kid_edges V = edges_of cs r \<and>
     (\<forall>i j. New_router i j \<in> set cs \<longrightarrow> i \<in> dom r \<and> j \<in> dom r \<and> j < i \<and> raddr h (the (r i)) = ra i) \<and>
     (\<forall>i \<in> dom r. i \<noteq> 0 \<longrightarrow> (\<exists>j. New_router i j \<in> set cs)) \<and>
     distinct ls \<and> set ls = {l. leafs h l \<noteq> None} \<and>
     list_all2 (\<lambda>l (i, j). r j = Some (par h l) \<and> laddr h l = la i) ls (leaf_calls cs)"

lemma builtD:
  assumes "built ra la cs r ls h V root"
  shows built_topo: "topo_ok h V root" and built_root: "hops_at h root = 0" "r 0 = Some root"
    and built_inj: "i \<in> dom r \<Longrightarrow> j \<in> dom r \<Longrightarrow> the (r i) = the (r j) \<Longrightarrow> i = j"
    and built_att: "r i = Some p \<Longrightarrow> attached h root p"
    and built_edges: "kid_edges V = edges_of cs r"
    and built_call: "New_router i j \<in> set cs \<Longrightarrow> i \<in> dom r \<and> j \<in> dom r \<and> j < i \<and> raddr h (the (r i)) = ra i"
    and built_called: "i \<in> dom r \<Longrightarrow> i \<noteq> 0 \<Longrightarrow> \<exists>j. New_router i j \<in> set cs"
    and built_leafs: "set ls = {l. leafs h l \<noteq> None}"
proof -
  have inj: "inj_on r (dom r)" using assms by (simp add: built_def)
  show "i = j" if ij: "i \<in> dom r" "j \<in> dom r" "the (r i) = the (r j)"
  proof (rule inj_onD [OF inj _ ij(1,2)])
    obtain x y where "r i = Some x" "r j = Some y" using ij(1,2) by blast
    with ij(3) show "r i = r j" by simp
  qed
  have "\<forall>i \<in> dom r. attached h root (the (r i))" using assms unfolding built_def by (elim conjE) assumption
  then show "r i = Some p \<Longrightarrow> attached h root p" by force
  show "i \<in> dom r \<Longrightarrow> i \<noteq> 0 \<Longrightarrow> \<exists>j. New_router i j \<in> set cs"
    using assms unfolding built_def by (elim conjE) blast
  show "New_router i j \<in> set cs \<Longrightarrow> i \<in> dom r \<and> j \<in> dom r \<and> j < i \<and> raddr h (the (r i)) = ra i"
    using assms unfolding built_def by (elim conjE) blast
qed (use assms in \<open>simp_all add: built_def\<close>)


section \<open>Creating the nodes\<close>

lemma built_fresh: "topo_ok h V root \<Longrightarrow> routers h (brk h) = None \<and> leafs h (brk h) = None"
  using node_ok_fresh [OF repr_node_ok [OF topo_repr], of h V root "brk h"] by simp

lemma built_router:
  assumes B: "built ra la cs r ls h V root" and i: "i \<notin> dom r" and j: "r j = Some p" "j < i"
    and a: "sin6_addr sa = ra i"
  shows "\<exists>h' V'. create_router sa p h = Some (brk h, h') \<and>
    built ra la (cs @ [New_router i j]) (r(i \<mapsto> brk h)) ls h' V' root"
proof -
  let ?x = "brk h" and ?V = "V((Kid, p) := (Suc (brk h), brk h) # V (Kid, p))"
  have T: "topo_ok h V root" and att: "\<forall>i \<in> dom r. attached h root (the (r i))"
    using B by (simp_all add: built_def)
  note fresh = built_fresh [OF T]
  have p: "attached h root p" using att j(1) by force
  obtain h' where h': "create_router sa p h = Some (?x, h')" "topo_ok h' ?V root"
      "rdata h' = (rdata h)(?x \<mapsto> (sa, 0))" "ldata h' = ldata h" "par h' = (par h)(?x := p)"
    using create_router_attached [OF T p, of sa] by blast
  have x: "q \<noteq> ?x" if "routers h q \<noteq> None" for q using that fresh by auto
  have old: "attached h' root q \<and> q \<noteq> ?x" if "attached h root q" for q
    using that x [of q] h'(3,5) rdata_None [of h' q] rdata_None [of h q] by (auto simp: attached_def)
  have new: "attached h' root ?x"
    using h'(3,5) rdata_None [of h' ?x] p node_ok_NULL [OF repr_node_ok [OF topo_repr [OF T]], of Kid p]
    by (auto simp: attached_def)
  have rx: "the (r q) \<noteq> ?x \<and> r q \<noteq> Some ?x" if "q \<in> dom r" for q
    using att old that by force
  have rx': "r q \<noteq> Some ?x" for q using rx [of q] by (cases "r q") auto
  have "built ra la (cs @ [New_router i j]) (r(i \<mapsto> ?x)) ls h' ?V root"
    unfolding built_def
  proof (intro conjI)
    have "root \<noteq> ?x" using x topo_root(1) [OF T] by auto
    then show "hops_at h' root = 0" using B by (simp add: built_def hops_at_def h'(3))
    show "(r(i \<mapsto> ?x)) 0 = Some root" using B j by (auto simp: built_def)
    have "inj_on r (dom r)" using B by (simp add: built_def)
    then show "inj_on (r(i \<mapsto> ?x)) (dom (r(i \<mapsto> ?x)))"
      using i rx' by (auto simp: inj_on_def dom_def)
    show "\<forall>q \<in> dom (r(i \<mapsto> ?x)). attached h' root (the ((r(i \<mapsto> ?x)) q))"
      using att old new by auto
    have "kid_edges ?V = insert (p, ?x) (edges_of cs r)"
      unfolding built_edges [OF B, symmetric] kid_edges_def by (auto split: if_splits intro: rev_image_eqI)
    moreover have "k \<noteq> i \<and> m \<noteq> i" if "New_router k m \<in> set cs" for k m
      using built_call [OF B that] i by auto
    then have "edges_of (cs @ [New_router i j]) (r(i \<mapsto> ?x)) = insert (p, ?x) (edges_of cs r)"
      using j edges_of_fresh [of cs i r ?x] by (auto simp: edges_of_append)
    ultimately show "kid_edges ?V = edges_of (cs @ [New_router i j]) (r(i \<mapsto> ?x))" by simp
    have ra: "raddr h' q = raddr h q" if "q \<noteq> ?x" for q using that by (simp add: raddr_def h'(3))
    have rai: "raddr h' ?x = ra i" by (simp add: raddr_def h'(3) a)
    show "\<forall>k m. New_router k m \<in> set (cs @ [New_router i j]) \<longrightarrow> k \<in> dom (r(i \<mapsto> ?x)) \<and>
        m \<in> dom (r(i \<mapsto> ?x)) \<and> m < k \<and> raddr h' (the ((r(i \<mapsto> ?x)) k)) = ra k"
    proof (intro allI impI)
      fix k m
      assume "New_router k m \<in> set (cs @ [New_router i j])"
      then consider "New_router k m \<in> set cs" | "k = i" "m = j" by auto
      then show "k \<in> dom (r(i \<mapsto> ?x)) \<and> m \<in> dom (r(i \<mapsto> ?x)) \<and> m < k \<and> raddr h' (the ((r(i \<mapsto> ?x)) k)) = ra k"
      proof cases
        case 1
        then have "k \<in> dom r \<and> m \<in> dom r \<and> m < k \<and> raddr h (the (r k)) = ra k"
          using B unfolding built_def by blast
        then show ?thesis using i ra rx by auto
      next
        case 2
        then show ?thesis using j rai by auto
      qed
    qed
    show "\<forall>k \<in> dom (r(i \<mapsto> ?x)). k \<noteq> 0 \<longrightarrow> (\<exists>m. New_router k m \<in> set (cs @ [New_router i j]))"
    proof (intro ballI impI)
      fix k
      assume "k \<in> dom (r(i \<mapsto> ?x))" "k \<noteq> 0"
      then show "\<exists>m. New_router k m \<in> set (cs @ [New_router i j])"
        using built_called [OF B, of k] by (cases "k = i") auto
    qed
    have ls: "set ls = {l. leafs h l \<noteq> None}" using B by (simp add: built_def)
    then show "set ls = {l. leafs h' l \<noteq> None}" using ldata_dom [OF h'(4)] by simp
    have "list_all2 (\<lambda>l (i, j). r j = Some (par h l) \<and> laddr h l = la i) ls (leaf_calls cs)"
      using B by (simp add: built_def)
    then have "list_all2 (\<lambda>l (k, m). (r(i \<mapsto> ?x)) m = Some (par h' l) \<and> laddr h' l = la k) ls (leaf_calls cs)"
    proof (rule list.rel_mono_strong)
      fix l km
      assume "l \<in> set ls" "case km of (k, m) \<Rightarrow> r m = Some (par h l) \<and> laddr h l = la k"
      moreover have "l \<noteq> ?x" using calculation(1) ls fresh by auto
      ultimately show "case km of (k, m) \<Rightarrow> (r(i \<mapsto> ?x)) m = Some (par h' l) \<and> laddr h' l = la k"
        using i by (cases km) (auto simp: h'(4,5) laddr_def)
    qed
    then show "list_all2 (\<lambda>l (k, m). (r(i \<mapsto> ?x)) m = Some (par h' l) \<and> laddr h' l = la k) ls
        (leaf_calls (cs @ [New_router i j]))" by simp
  qed (use B h'(2) in \<open>simp_all add: built_def\<close>)
  then show ?thesis using h'(1) by blast
qed


lemma built_leaf:
  assumes B: "built ra la cs r ls h V root" and j: "r j = Some p" and a: "sin6_addr sa = la i"
  shows "\<exists>h' V'. create_leaf sa port p h = Some (brk h, h') \<and>
    built ra la (cs @ [New_leaf i j]) r (ls @ [brk h]) h' V' root"
proof -
  let ?l = "brk h" and ?V = "V((Leaf, p) := (Suc (brk h), brk h) # V (Leaf, p))"
  have T: "topo_ok h V root" and att: "\<forall>i \<in> dom r. attached h root (the (r i))"
    using B by (simp_all add: built_def)
  note fresh = built_fresh [OF T]
  have p: "attached h root p" using att j by force
  obtain h' where h': "create_leaf sa port p h = Some (?l, h')" "topo_ok h' ?V root" "rdata h' = rdata h"
      "ldata h' = (ldata h)(?l \<mapsto> leaf_val (leaf_init sa port p))" "par h' = (par h)(?l := p)"
    using create_leaf_attached [OF T p, of sa port] by blast
  have old: "attached h' root q" if "attached h root q" for q
    using that fresh rdata_dom [OF h'(3)] by (auto simp: attached_def h'(5))
  have obs: "hops_at h' = hops_at h" "raddr h' = raddr h" "kid_edges ?V = kid_edges V"
    by (auto simp: hops_at_def raddr_def kid_edges_def h'(3) fun_eq_iff)
  have ls: "set ls = {l. leafs h l \<noteq> None}" using B by (simp add: built_def)
  have "set (ls @ [?l]) = {l. leafs h' l \<noteq> None}"
  proof -
    have "leafs h' l \<noteq> None \<longleftrightarrow> leafs h l \<noteq> None \<or> l = ?l" for l
      using h'(4) ldata_None [of h' l] ldata_None [of h l] by (cases "l = ?l") auto
    then show ?thesis using ls by auto
  qed
  moreover have "distinct (ls @ [?l])" using B ls fresh by (simp add: built_def)
  moreover have "list_all2 (\<lambda>l (k, m). r m = Some (par h' l) \<and> laddr h' l = la k) (ls @ [?l])
      (leaf_calls (cs @ [New_leaf i j]))"
  proof -
    have "list_all2 (\<lambda>l (i, j). r j = Some (par h l) \<and> laddr h l = la i) ls (leaf_calls cs)"
      using B by (simp add: built_def)
    then have "list_all2 (\<lambda>l (k, m). r m = Some (par h' l) \<and> laddr h' l = la k) ls (leaf_calls cs)"
    proof (elim list.rel_mono_strong, clarify)
      fix l k m
      assume "l \<in> set ls" "r m = Some (par h l)" "laddr h l = la k"
      moreover have "l \<noteq> ?l" using calculation(1) ls fresh by auto
      ultimately show "r m = Some (par h' l) \<and> laddr h' l = la k" by (simp add: h'(4,5) laddr_def)
    qed
    moreover have "laddr h' ?l = la i" by (simp add: laddr_def h'(4) leaf_init_def a)
    ultimately show ?thesis using j by (simp add: list_all2_appendI h'(5))
  qed
  ultimately have "built ra la (cs @ [New_leaf i j]) r (ls @ [?l]) h' ?V root"
    using B h'(2) old unfolding built_def obs by (simp add: edges_of_append)
  then show ?thesis using h'(1) by blast
qed

lemma create_all_ok:
  "built ra la ds r ls h V root \<Longrightarrow> creations_ok nr ne cs (dom r) \<Longrightarrow>
    (\<And>i. i \<in> {1..nr} \<Longrightarrow> \<exists>sa. rsa i = Some sa \<and> sin6_addr sa = ra i) \<Longrightarrow>
    (\<And>i. i \<in> {1..ne} \<Longrightarrow> \<exists>sa. lsa i = Some sa \<and> sin6_addr sa = la i) \<Longrightarrow>
    \<exists>r' ls' h' V'. create_all rsa lsa cs r h = Some (r', h') \<and> built ra la (ds @ cs) r' ls' h' V' root \<and>
      dom r' = {0..nr}"
proof (induction cs arbitrary: ds r ls h V)
  case Nil
  then show ?case by auto
next
  case (Cons c cs)
  show ?case
  proof (cases c)
    case (New_router i j)
    then have ok: "j \<in> dom r" "i \<notin> dom r" "j < i" "i \<le> nr" "creations_ok nr ne cs (insert i (dom r))"
      using Cons.prems(2) by simp_all
    then obtain p where p: "r j = Some p" by blast
    obtain sa where sa: "rsa i = Some sa" "sin6_addr sa = ra i" using Cons.prems(3) [of i] ok(3,4) by auto
    from built_router [of ra la ds r ls h V root i j p sa] obtain h' V' where
      h': "create_router sa p h = Some (brk h, h')" "built ra la (ds @ [c]) (r(i \<mapsto> brk h)) ls h' V' root"
      using Cons.prems(1) ok(2,3) p sa(2) New_router by blast
    have "dom (r(i \<mapsto> brk h)) = insert i (dom r)" by simp
    with ok(5) have "creations_ok nr ne cs (dom (r(i \<mapsto> brk h)))" by simp
    from Cons.IH [OF h'(2) this Cons.prems(3,4)] obtain r' ls' h1 V1 where
      "create_all rsa lsa cs (r(i \<mapsto> brk h)) h' = Some (r', h1)"
      "built ra la ((ds @ [c]) @ cs) r' ls' h1 V1 root" "dom r' = {0..nr}" by blast
    then show ?thesis using New_router sa(1) p h'(1) by (auto simp del: fun_upd_apply)
  next
    case (New_leaf i j)
    then have ok: "j \<in> dom r" "0 < i" "i \<le> ne" "creations_ok nr ne cs (dom r)"
      using Cons.prems(2) by simp_all
    then obtain p where p: "r j = Some p" by blast
    obtain sa where sa: "lsa i = Some sa" "sin6_addr sa = la i" using Cons.prems(4) [of i] ok(2,3) by auto
    from built_leaf [of ra la ds r ls h V root j p sa i 0] obtain h' V' where
      h': "create_leaf sa 0 p h = Some (brk h, h')" "built ra la (ds @ [c]) r (ls @ [brk h]) h' V' root"
      using Cons.prems(1) p sa(2) New_leaf by blast
    from Cons.IH [OF h'(2) ok(4) Cons.prems(3,4)] show ?thesis using New_leaf sa(1) p h'(1) by simp
  qed
qed


section \<open>Distances\<close>

definition hops_up_to :: "creation list \<Rightarrow> (nat \<Rightarrow> ptr option) \<Rightarrow> heap \<Rightarrow> nat \<Rightarrow> bool" where
  "hops_up_to cs r h n \<longleftrightarrow> (\<forall>i j. New_router i j \<in> set cs \<and> i < n \<longrightarrow>
     hops_at h (the (r i)) = hops_at h (the (r j)) + 1)"

lemma built_par:
  assumes B: "built ra la cs r ls h V root" and ij: "New_router i j \<in> set cs"
  shows "routers h (the (r i)) \<noteq> None" "par h (the (r i)) = the (r j)" "routers h (the (r j)) \<noteq> None"
proof -
  have R: "repr h V" by (rule topo_repr [OF built_topo [OF B]])
  obtain x p where r: "r i = Some x" "r j = Some p" using built_call [OF B ij] by blast
  then have "(p, x) \<in> edges_of cs r" using ij by (auto simp: edges_of_def)
  then have "(p, x) \<in> kid_edges V" by (simp add: built_edges [OF B])
  then show "routers h (the (r i)) \<noteq> None" "par h (the (r i)) = the (r j)" using r by (auto simp: kid_edges_iff [OF R])
  show "routers h (the (r j)) \<noteq> None" using built_att [OF B r(2)] r(2) by (auto simp: attached_def)
qed

lemma built_set_hops:
  assumes B: "built ra la cs r ls h V root" and x: "routers h x \<noteq> None" "x \<noteq> root"
  shows "built ra la cs r ls (set_hops x n h) V root"
proof -
  have "raddr (set_hops x n h) = raddr h" "laddr (set_hops x n h) = laddr h"
    by (auto simp: raddr_def laddr_def mem_simps fun_eq_iff split: option.splits)
  moreover have "attached (set_hops x n h) = attached h"
    by (auto simp: attached_def mem_simps fun_eq_iff)
  moreover have "hops_at (set_hops x n h) root = hops_at h root" using x by (simp add: mem_simps)
  ultimately show ?thesis
    using B set_hops_topo [of h V root x n] unfolding built_def by (simp add: mem_simps)
qed

lemma init_hops_ok:
  "built ra la cs r ls h V root \<Longrightarrow> dom r = {0..nr} \<Longrightarrow> 0 < k \<Longrightarrow> k \<le> Suc nr \<Longrightarrow> hops_up_to cs r h k \<Longrightarrow>
    \<exists>h'. init_hops [k..<Suc nr] r h = Some h' \<and> built ra la cs r ls h' V root \<and> hops_up_to cs r h' (Suc nr)"
proof (induction "Suc nr - k" arbitrary: k h)
  case 0
  then show ?case by auto
next
  case (Suc d)
  note B = Suc.prems(1)
  have k: "k \<in> dom r" "k \<noteq> 0" "[k..<Suc nr] = k # [Suc k..<Suc nr]"
    using Suc.prems(2,3) Suc.hyps(2) by (auto simp: upt_conv_Cons)
  obtain j where kj: "New_router k j \<in> set cs" using built_called [OF B k(1,2)] by blast
  have lt: "m < i \<and> i \<in> dom r \<and> m \<in> dom r" if "New_router i m \<in> set cs" for i m
    using built_call [OF B that] by blast
  let ?x = "the (r k)" and ?p = "the (r j)"
  note par = built_par [OF B kj]
  have x0: "?x \<noteq> root"
    using built_inj [OF B k(1), of 0] k(2) built_root [OF B] by auto
  let ?h = "set_hops ?x (Suc (hops_at h ?p)) h"
  obtain rx rp where rx: "routers h ?x = Some rx" "routers h ?p = Some rp" using par by blast
  have "leafs h ?x = None"
    by (rule node_ok_disj' [OF repr_node_ok [OF topo_repr [OF built_topo [OF B]]] rx(1)])
  then have "node_parent (router_node rx) = ?p" using par_router [OF _ rx(1)] par(2) by simp
  moreover have "router_hops rp = hops_at h ?p" using rx(2) by (simp add: hops_at_def rdata_def)
  ultimately have step: "init_hops [k..<Suc nr] r h = init_hops [Suc k..<Suc nr] r ?h"
    using k rx upd_router_hops [OF par(1)] by (auto simp del: upt_Suc)
  have B': "built ra la cs r ls ?h V root" by (rule built_set_hops [OF B par(1) x0])
  have "hops_up_to cs r ?h (Suc k)"
    unfolding hops_up_to_def
  proof (intro allI impI)
    fix i m
    assume im: "New_router i m \<in> set cs \<and> i < Suc k"
    note l = lt [of i m]
    have h: "hops_at ?h q = (if q = ?x then Suc (hops_at h ?p) else hops_at h q)" for q
      by (rule hops_at_set_hops [OF par(1)])
    have m: "the (r m) \<noteq> ?x" using built_inj [OF B _ k(1), of m] l im by auto
    show "hops_at ?h (the (r i)) = hops_at ?h (the (r m)) + 1"
    proof (cases "i = k")
      case True
      then have "the (r m) = ?p" using built_par(2) [OF B, of k m] par(2) im by simp
      then show ?thesis using m True h [of ?p] h [of ?x] by simp
    next
      case False
      then have "the (r i) \<noteq> ?x" using built_inj [OF B _ k(1), of i] l im by auto
      then show ?thesis using m False im Suc.prems(5) by (simp add: h hops_up_to_def)
    qed
  qed
  from Suc.hyps(1) [OF _ B' Suc.prems(2) _ _ this] show ?case using Suc.hyps(2) step by simp
qed


section \<open>The topologies\<close>

text \<open>\<open>inet_pton\<close> knows the addresses of the test.\<close>

definition addrs_ok :: "(string \<Rightarrow> in6_addr option) \<Rightarrow> nat \<Rightarrow> nat \<Rightarrow> bool" where
  "addrs_ok pton nr ne \<longleftrightarrow> pton ''::'' \<noteq> None \<and>
     (\<forall>i \<in> {1..nr}. pton (''f::'' @ fmt_u i) \<noteq> None) \<and> (\<forall>i \<in> {1..ne}. pton (''a::'' @ fmt_u i) \<noteq> None)"

abbreviation addr_no :: "(string \<Rightarrow> in6_addr option) \<Rightarrow> string \<Rightarrow> nat \<Rightarrow> in6_addr" where
  "addr_no pton pref i \<equiv> the (pton (pref @ fmt_u i))"

lemma init_sas_ok:
  "\<forall>i \<in> {1..n}. pton (pref @ fmt_u i) \<noteq> None \<Longrightarrow> \<exists>sas. init_sas pton pref n = Some sas \<and>
    (\<forall>i \<in> {1..n}. \<exists>sa. sas i = Some sa \<and> sin6_addr sa = addr_no pton pref i)"
proof (induction n)
  case (Suc n)
  then obtain sas where sas: "init_sas pton pref n = Some sas"
      "\<forall>i \<in> {1..n}. \<exists>sa. sas i = Some sa \<and> sin6_addr sa = addr_no pton pref i" by auto
  obtain a where "pton (pref @ fmt_u (Suc n)) = Some a" using Suc.prems by force
  then show ?case using sas by (auto simp: le_Suc_eq)
qed simp

lemma init_sas_fails:
  "i \<in> {1..n} \<Longrightarrow> pton (pref @ fmt_u i) = None \<Longrightarrow> init_sas pton pref n = None"
  by (induction n) (auto simp: le_Suc_eq split: Option.bind_splits)

text \<open>
  The tree that \<open>create_nodes\<close> builds: the edges are those of the calls, every router is one hop
  further away than its parent, and the receivers are the called ones at the routers of the calls.
\<close>

lemma create_nodes_ok:
  assumes A: "addrs_ok pton nr ne" and C: "creations_ok nr ne cs {0}"
  shows "\<exists>root h V r ls. create_nodes pton nr ne cs empty_heap = Some (Inr (root, h)) \<and>
    built (addr_no pton ''f::'') (addr_no pton ''a::'') cs r ls h V root \<and> dom r = {0..nr} \<and>
    (\<forall>(p, x) \<in> kid_edges V. hops_at h x = hops_at h p + 1)"
proof -
  obtain a where a: "pton ''::'' = Some a" using A by (auto simp: addrs_ok_def)
  obtain rsa where rsa: "init_sas pton ''f::'' nr = Some rsa"
      "\<forall>i \<in> {1..nr}. \<exists>sa. rsa i = Some sa \<and> sin6_addr sa = addr_no pton ''f::'' i"
    using init_sas_ok [of nr pton "''f::''"] A by (auto simp: addrs_ok_def)
  obtain lsa where lsa: "init_sas pton ''a::'' ne = Some lsa"
      "\<forall>i \<in> {1..ne}. \<exists>sa. lsa i = Some sa \<and> sin6_addr sa = addr_no pton ''a::'' i"
    using init_sas_ok [of ne pton "''a::''"] A by (auto simp: addrs_ok_def)
  let ?sa = "\<lparr>sin6_family = AF_INET6, sin6_port = 0, sin6_addr = a\<rparr>"
  obtain h0 where h0: "create_router ?sa NULL empty_heap = Some (1, h0)" "topo_ok h0 (\<lambda>_. []) 1"
      "rdata h0 = [1 \<mapsto> (?sa, 0)]" "ldata h0 = Map.empty" using create_root by blast
  let ?ra = "addr_no pton ''f::''" and ?la = "addr_no pton ''a::''"
  have "built ?ra ?la [] [0 \<mapsto> 1] [] h0 (\<lambda>_. []) 1"
    using h0(2-4) topo_root [OF h0(2)] ldata_None [of h0]
    by (auto simp: built_def hops_at_def attached_def kid_edges_def edges_of_def)
  from create_all_ok [OF this, of nr ne cs rsa lsa] C rsa(2) lsa(2) obtain r ls h1 V where
    1: "create_all rsa lsa cs [0 \<mapsto> 1] h0 = Some (r, h1)" "built ?ra ?la cs r ls h1 V 1" "dom r = {0..nr}"
    by auto
  have "hops_up_to cs r h1 1"
    using built_call [OF 1(2)] by (fastforce simp: hops_up_to_def)
  from init_hops_ok [OF 1(2,3) _ _ this] obtain h where
    h: "init_hops [1..<Suc nr] r h1 = Some h" "built ?ra ?la cs r ls h V 1" "hops_up_to cs r h (Suc nr)" by auto
  have "hops_at h x = hops_at h p + 1" if e: "(p, x) \<in> kid_edges V" for p x
  proof -
    obtain i j where "New_router i j \<in> set cs" "r j = Some p" "r i = Some x"
      using e [unfolded built_edges [OF h(2)]] unfolding edges_of_def by blast
    moreover have "i < Suc nr" using calculation(3) 1(3) by force
    ultimately show ?thesis using h(3) by (force simp: hops_up_to_def)
  qed
  moreover have "create_nodes pton nr ne cs empty_heap = Some (Inr (1, h))"
    using a rsa(1) lsa(1) h0(1) 1(1) h(1) by (simp add: create_nodes_def del: upt_Suc)
  ultimately show ?thesis using h(2) 1(3) by blast
qed

text \<open>An address that \<open>inet_pton\<close> does not know ends the program.\<close>

lemma create_nodes_fails:
  assumes "\<not> addrs_ok pton nr ne"
  shows "\<exists>msg. create_nodes pton nr ne cs h = Some (Inl msg)"
  using assms init_sas_fails [of _ nr pton "''f::''"] init_sas_fails [of _ ne pton "''a::''"]
  unfolding addrs_ok_def create_nodes_def by (fastforce split: option.splits)

lemma built_laddr:
  assumes "built ra la cs r ls h V root"
  shows "map (laddr h) ls = map (la \<circ> fst) (leaf_calls cs)"
proof -
  have "list_all2 (\<lambda>l (i, j). r j = Some (par h l) \<and> laddr h l = la i) ls (leaf_calls cs)"
    using assms by (simp add: built_def)
  then show ?thesis by (induction rule: list_all2_induct) auto
qed

lemma topo_nodes_ok: "creations_ok 12 28 topo_nodes {0}"
  by code_simp

lemma testbed_nodes_ok: "creations_ok 13 9 testbed_nodes {0}"
  by code_simp


section \<open>The test\<close>

text \<open>
  On a tree with distances, thinning, printing, grouping, printing and resetting run to the end, without
  any hash table behind the nodes.
\<close>

lemma test_steps:
  assumes J: "judy_hs J" and A: "args_ok A" and T: "topo_ok h V root" and h0: "hops_at h root = 0"
    and H: "\<forall>(p, x) \<in> kid_edges V. hops_at h x = hops_at h p + 1"
  shows "\<exists>h1 t1 V1 s grp h2 gs us bs h3. reduce_tree J A root h t = Some (h1, t1) \<and>
    topo_ok h1 V1 root \<and> (\<forall>(p, x) \<in> kid_edges V1. enough A V1 x) \<and> ldata h1 = ldata h \<and>
    util_print_tree ntop root h1 = Some s \<and>
    prints ntop h1 (Pair Kid ` {q. attached h1 root q} \<union> Pair Leaf ` {l. leafs h l \<noteq> None}) (Some s) \<and>
    greedy_grouping A root reset_merging_stats h1 = Some (Some grp, reset_merging_stats, h2) \<and>
    txg_serves h2 (gg_max A) grp gs us \<and> ldata h2 = ldata h \<and> list_all2 (\<lambda>b g. bits_ok b (flags g)) bs gs \<and>
    util_print_txg ntop (Some grp) h2 = Some (txg_text ntop h2 gs bs us) \<and>
    rec_reset_tree root root h2 = Some h3 \<and> (\<exists>V3. topo_ok h3 V3 root \<and> flat h3 V3 root) \<and> ldata h3 = ldata h"
proof -
  have "hops_mono h V root" using H h0 by (auto simp: hops_mono_def)
  then have "disc_inv False J h V root t" using T by (simp add: disc_inv_def)
  from reduce_tree_ok [OF J this, of A] obtain h1 t1 V1 where
    1: "reduce_tree J A root h t = Some (h1, t1)" "disc_inv False J h1 V1 root t1" "ldata h1 = ldata h"
      "\<forall>(p, x) \<in> kid_edges V1. enough A V1 x" by blast
  have T1: "topo_ok h1 V1 root" "hops_mono h1 V1 root" using 1(2) by (simp_all add: disc_inv_def)
  obtain s where s: "util_print_tree ntop root h1 = Some s"
      "prints ntop h1 (Pair Kid ` {q. attached h1 root q} \<union> Pair Leaf ` {l. leafs h1 l \<noteq> None}) (Some s)"
    using print_tree_ok [OF T1(1), of h1 ntop] topo_repr [OF T1(1)] by (auto simp: same_tree_def)
  have mx: "2 \<le> max_addrs A" using A by (simp add: args_ok_def)
  from greedy_grouping_serves [OF T1(1) enough_no_dead [OF A 1(4)] mx] obtain grp h2 gs us where
    2: "greedy_grouping A root reset_merging_stats h1 = Some (Some grp, reset_merging_stats, h2)"
      "txg_serves h2 (gg_max A) grp gs us" "same_tree h1 V1 h2" by blast
  obtain bs where bs: "list_all2 (\<lambda>b g. bits_ok b (flags g)) bs gs"
      "util_print_txg ntop (Some grp) h2 = Some (txg_text ntop h2 gs bs us)"
    using print_txg_ok [OF 2(2), of ntop] by blast
  have "hops_at h2 root = 0" using T1(2) by (simp add: hops_mono_def hops_at_def st_rdata [OF 2(3)])
  from rec_reset_tree_ok [OF same_tree_ok [OF T1(1) 2(3)] this] obtain h3 V3 where
    3: "rec_reset_tree root root h2 = Some h3" "ldata h3 = ldata h2" "topo_ok h3 V3 root"
      "snd ` set (V3 (Leaf, root)) = {l. leafs h2 l \<noteq> None}" "\<forall>k q. (k, q) \<noteq> (Leaf, root) \<longrightarrow> V3 (k, q) = []" by blast
  have f3: "flat h3 V3 root" using 3(4,5) ldata_dom [OF 3(2)] by (simp add: flat_def)
  have "leafs h1 l = None \<longleftrightarrow> leafs h l = None" for l by (rule ldata_dom [OF 1(3)])
  then have "{l. leafs h1 l \<noteq> None} = {l. leafs h l \<noteq> None}" by simp
  with s(2) have s': "prints ntop h1 (Pair Kid ` {q. attached h1 root q} \<union> Pair Leaf ` {l. leafs h l \<noteq> None}) (Some s)"
    by simp
  have "ldata h2 = ldata h" "ldata h3 = ldata h" using st_ldata [OF 2(3)] 3(2) 1(3) by simp_all
  then show ?thesis using 1(1,3,4) T1(1) s(1) s' 2(1,2) bs 3(1,3) f3 by blast
qed

lemma testbed_leafs: "map fst (leaf_calls testbed_nodes) = [1..<10]"
  by code_simp

lemma test_ok:
  assumes J: "judy_hs J" and A: "args_ok A" and P: "addrs_ok pton 13 9"
  shows "\<exists>root h ls h1 t1 V1 s h2 grp gs us bs h3 V3. create_testbed pton empty_heap = Some (Inr (root, h)) \<and>
    distinct ls \<and> map (laddr h) ls = map (addr_no pton ''a::'') [1..<10] \<and> {l. leafs h l \<noteq> None} = set ls \<and>
    reduce_tree J A root h t = Some (h1, t1) \<and> topo_ok h1 V1 root \<and>
    (\<forall>(p, x) \<in> kid_edges V1. enough A V1 x) \<and>
    prints ntop h1 (Pair Kid ` {q. attached h1 root q} \<union> Pair Leaf ` set ls) (Some s) \<and>
    greedy_grouping A root reset_merging_stats h1 = Some (Some grp, reset_merging_stats, h2) \<and>
    txg_serves h2 (gg_max A) grp gs us \<and> ldata h2 = ldata h \<and> list_all2 (\<lambda>b g. bits_ok b (flags g)) bs gs \<and>
    rec_reset_tree root root h2 = Some h3 \<and> topo_ok h3 V3 root \<and> flat h3 V3 root \<and> ldata h3 = ldata h \<and>
    test pton ntop J A reset_merging_stats empty_heap t =
      Some (Inr (s @ txg_text ntop h2 gs bs us, reset_merging_stats, h3, t1))"
proof -
  obtain root h V r ls where C: "create_testbed pton empty_heap = Some (Inr (root, h))"
    and B: "built (addr_no pton ''f::'') (addr_no pton ''a::'') testbed_nodes r ls h V root"
    and H: "\<forall>(p, x) \<in> kid_edges V. hops_at h x = hops_at h p + 1"
    using create_nodes_ok [OF P testbed_nodes_ok] unfolding create_testbed_def by blast
  obtain h1 t1 V1 s grp h2 gs us bs h3 V3 where R: "reduce_tree J A root h t = Some (h1, t1)"
      "util_print_tree ntop root h1 = Some s"
      "prints ntop h1 (Pair Kid ` {q. attached h1 root q} \<union> Pair Leaf ` {l. leafs h l \<noteq> None}) (Some s)"
      "greedy_grouping A root reset_merging_stats h1 = Some (Some grp, reset_merging_stats, h2)"
      "txg_serves h2 (gg_max A) grp gs us" "ldata h2 = ldata h" "list_all2 (\<lambda>b g. bits_ok b (flags g)) bs gs"
      "util_print_txg ntop (Some grp) h2 = Some (txg_text ntop h2 gs bs us)"
      "rec_reset_tree root root h2 = Some h3" "ldata h3 = ldata h"
      "topo_ok h1 V1 root" "\<forall>(p, x) \<in> kid_edges V1. enough A V1 x" "topo_ok h3 V3 root" "flat h3 V3 root"
    using test_steps [OF J A built_topo [OF B] built_root(1) [OF B] H, of t ntop] by blast
  have ls: "{l. leafs h l \<noteq> None} = set ls" using built_leafs [OF B] by simp
  have "map (laddr h) ls = map (addr_no pton ''a::'') [1..<10]"
    using built_laddr [OF B] testbed_leafs by (metis map_map)
  moreover have "test pton ntop J A reset_merging_stats empty_heap t =
      Some (Inr (s @ txg_text ntop h2 gs bs us, reset_merging_stats, h3, t1))"
    using C R(1,2,4,8,9) by (simp add: test_def)
  moreover have "distinct ls" using B by (simp add: built_def)
  ultimately show ?thesis
    using C R(1,4-7,9-14) R(3) [unfolded ls] ls
    by (intro exI [of _ root] exI [of _ h] exI [of _ ls] exI [of _ h1] exI [of _ t1] exI [of _ V1] exI [of _ s]
      exI [of _ h2] exI [of _ grp] exI [of _ gs] exI [of _ us] exI [of _ bs] exI [of _ h3] exI [of _ V3] conjI)
qed

end
