(* ===== verification/PhaseOutput.thy ===== *)
theory PhaseOutput
  imports PrintProof Published
begin

text \<open>
  What the end of a discovery phase prints: the tree after the grouping, and the published group after
  the reset, whose cells and headers the reset has left alone.
\<close>


section \<open>The output\<close>

text \<open>
  \<open>tout_handler\<close> once more, with the output to \<open>stdout\<close> as its result; the messages of \<open>perror\<close> are left out.
\<close>

definition tout_output ::
    "(in6_addr \<Rightarrow> string) \<Rightarrow> 't judy \<Rightarrow> arguments \<Rightarrow> int \<Rightarrow> dx_conf \<Rightarrow> 't dx \<Rightarrow> string option" where
  "tout_output ntop J A rd c st = do {
     let out = ''Found '' @ fmt_u (dx_n st) @ '' routers'' @ nl @ ''Ending discovery phase'' @ nl;
     if rd < 1 then Some out
     else do {
       let r = g_root (dx_g st);
       (h, t) \<leftarrow> reduce_tree J A r (dx_h st) (g_ht (dx_g st));
       (grp, ms, h) \<leftarrow> greedy_grouping A r (dx_ms st) h;
       case grp of
         None \<Rightarrow> Some (out @ ''Grouping failed'' @ nl)
       | Some grp \<Rightarrow> do {
           s \<leftarrow> (if print_tree A then util_print_tree ntop r h else Some []);
           h \<leftarrow> rec_reset_tree r r h;
           let (n, tm) = flip_timers (tout_fd c) (tint_fd c) (tint_ts c) (dx_tm st);
           s' \<leftarrow> (if n < 0 \<or> \<not> print_txg A then Some [] else util_print_txg ntop (Some grp) h);
           Some (out @ s @ s')
         }
     }
   }"


section \<open>Printing the published group\<close>

text \<open>The reset leaves the new group alone.\<close>

lemma reset_intact:
  assumes T: "topo_ok h1 V root" and "hops_at h1 root = 0" and S: "same_tree h1 V h2"
    and G: "txg_serves h2 mx grp gs us"
  shows "\<exists>h3. rec_reset_tree root root h2 = Some h3 \<and> intact h2 h3 grp"
proof -
  let ?E = "extra_of V h2" and ?k = "core_of V h2"
  note R = st_repr [OF S] and S' = core_same_tree [OF S]
  have "hops_at ?k root = 0" using assms(2) st_rdata [OF S'] by (simp add: hops_at_def)
  from rec_reset_tree_ok [OF same_tree_ok [OF T S'] this] obtain k3 where
    k3: "rec_reset_tree root root ?k = Some k3" by blast
  have "gr ?E ?k h2" by (rule core_gr [OF repr_node_ok [OF R]])
  then have "ext (gr ?E) (rec_reset_tree root root ?k) (rec_reset_tree root root h2)"
    using rec_reset_tree_ext [of ?E] by (simp add: rel_fun_def)
  then obtain h3 where "rec_reset_tree root root h2 = Some h3" "gr ?E k3 h3"
    using k3 by (auto simp: ext_def)
  then show ?thesis using group_in_extra [OF G R] by blast
qed

lemma print_hdrs_cong:
  "chain (cells h) c xs \<Longrightarrow> \<forall>(c, d) \<in> set xs. cells h' c = cells h c \<and> hdrs h' d = hdrs h d \<Longrightarrow>
    print_hdrs ntop c h' = print_hdrs ntop c h"
proof (induction xs arbitrary: c)
  case Nil
  then show ?case by (simp add: print_hdrs.simps)
next
  case (Cons x xs)
  then obtain v ce where x: "x = (c, v)" "c \<noteq> NULL" "cells h c = Some ce" "child_v ce = v"
    "chain (cells h) (child_n ce) xs" by (auto elim: chain_ConsE)
  then have "cells h' c = Some ce" "hdrs h' v = hdrs h v" using Cons.prems(2) by auto
  then show ?case
    using x Cons.IH [OF x(5)] Cons.prems(2) by (subst (1 2) print_hdrs.simps) simp
qed

lemma print_txg_intact:
  assumes "intact h h' grp"
  shows "util_print_txg ntop (Some grp) h' = util_print_txg ntop (Some grp) h"
proof -
  obtain xs where xs: "chain (cells h) (txg_mdc grp) xs"
      "\<forall>(c, d) \<in> set xs. cells h' c = cells h c \<and> hdrs h' d = hdrs h d"
    using assms by (fastforce simp: intact_def)
  then show ?thesis by (simp add: util_print_txg_def print_hdrs_cong [OF xs])
qed


section \<open>The end of a phase\<close>

lemma tout_output_ok:
  assumes J: "judy_hs J" and A: "args_ok A" and c: "conf_ok c" and I: "dx_ok J c st" and rd: "1 \<le> rd"
  shows "\<exists>h1 t1 st' grp h gs us bs s. reduce_tree J A (g_root (dx_g st)) (dx_h st) (g_ht (dx_g st)) = Some (h1, t1) \<and>
    greedy_grouping A (g_root (dx_g st)) reset_merging_stats h1 = Some (Some grp, reset_merging_stats, h) \<and>
    tout_handler J A rd c st = Some (0, st') \<and> get_txg (dx_g st') = Some grp \<and>
    txg_serves h (gg_max A) grp gs us \<and> ldata h = ldata (dx_h st) \<and>
    list_all2 (\<lambda>b g. bits_ok b (flags g)) bs gs \<and>
    prints ntop h (Pair Kid ` {q. attached h (g_root (dx_g st)) q} \<union> Pair Leaf ` {l. leafs (dx_h st) l \<noteq> None}) (Some s) \<and>
    tout_output ntop J A rd c st = Some (''Found '' @ fmt_u (dx_n st) @ '' routers'' @ nl @
      ''Ending discovery phase'' @ nl @ (if print_tree A then s else []) @
      (if print_txg A then txg_text ntop h gs bs us else []))"
proof -
  let ?g = "dx_g st"
  obtain V where G: "group_ok J ?g (dx_h st) V" and ms: "dx_ms st = reset_merging_stats"
      and tm: "timers_ok c (dx_tm st)"
    using I by (auto simp: dx_ok_def)
  obtain h1 t1 V1 grp h2 gs us where E: "reduce_tree J A (g_root ?g) (dx_h st) (g_ht ?g) = Some (h1, t1)"
      "greedy_grouping A (g_root ?g) reset_merging_stats h1 = Some (Some grp, reset_merging_stats, h2)"
      "txg_serves h2 (gg_max A) grp gs us" "same_tree h1 V1 h2" "disc_inv True J h1 V1 (g_root ?g) t1"
      "ldata h1 = ldata (dx_h st)"
    using grouped_phase [OF J A G] by metis
  have T1: "topo_ok h1 V1 (g_root ?g)" "hops_at h1 (g_root ?g) = 0"
    using E(5) by (simp_all add: disc_inv_def hops_mono_def)
  obtain h3 where h3: "rec_reset_tree (g_root ?g) (g_root ?g) h2 = Some h3" "intact h2 h3 grp"
    using reset_intact [OF T1 E(4,3)] by blast
  obtain tm' where tm': "flip_timers (tout_fd c) (tint_fd c) (tint_ts c) (dx_tm st) = (0, tm')"
    using flip_to_tint [OF c tm] by blast
  obtain s where s: "util_print_tree ntop (g_root ?g) h2 = Some s"
      "prints ntop h2 (Pair Kid ` {q. attached h2 (g_root ?g) q} \<union> Pair Leaf ` {l. leafs h2 l \<noteq> None}) (Some s)"
    using print_tree_ok [OF T1(1) E(4), of ntop] by blast
  obtain bs where bs: "list_all2 (\<lambda>b g. bits_ok b (flags g)) bs gs"
      "util_print_txg ntop (Some grp) h2 = Some (txg_text ntop h2 gs bs us)"
    using print_txg_ok [OF E(3), of ntop] by blast
  have l: "ldata h2 = ldata (dx_h st)" using st_ldata [OF E(4)] E(6) by simp
  have "leafs h2 x = None \<longleftrightarrow> leafs (dx_h st) x = None" for x by (rule ldata_dom [OF l])
  then have "{l. leafs h2 l \<noteq> None} = {l. leafs (dx_h st) l \<noteq> None}" by simp
  with s(2) have s': "prints ntop h2 (Pair Kid ` {q. attached h2 (g_root ?g) q} \<union>
      Pair Leaf ` {l. leafs (dx_h st) l \<noteq> None}) (Some s)" by simp
  let ?st = "st\<lparr>dx_n := 0, dx_h := h3, dx_g := ?g\<lparr>g_ht := t1, g_txg := Some grp\<rparr>, dx_tm := tm'\<rparr>"
  have "tout_handler J A rd c st = Some (0, ?st)"
    using rd E(1,2) h3(1) tm' ms by (simp add: tout_handler_def Let_def set_txg_def)
  moreover have "tout_output ntop J A rd c st = Some (''Found '' @ fmt_u (dx_n st) @ '' routers'' @ nl @
      ''Ending discovery phase'' @ nl @ (if print_tree A then s else []) @
      (if print_txg A then txg_text ntop h2 gs bs us else []))"
    using rd E(1,2) h3(1) tm' ms s(1) bs(2) print_txg_intact [OF h3(2), of ntop]
    by (simp add: tout_output_def Let_def)
  moreover have "get_txg (dx_g ?st) = Some grp" by (simp add: get_txg_def)
  ultimately show ?thesis using E(1-3) l bs(1) s' by blast
qed

end
