(* ===== verification/GroupingFrame.thy ===== *)
theory GroupingFrame
  imports Published
begin

text \<open>
  The frame of the grouping alone. \<open>greedy_grouping\<close> changes the free counters of routers and
  allocates cells and headers; whatever was in memory before, in a list of the tree or not, is what it was.
  On the cells of the tree the grouping is proved to keep the tree, and the rest of the memory is carried along by
  the frame property of \<open>Frame\<close>.
\<close>


definition no_counters :: "router \<Rightarrow> router" where
  "no_counters rr = rr\<lparr>router_fchild := 0, router_fleaf := 0\<rparr>"

text \<open>Every object of the first memory is in the second one, the same up to the free counters.\<close>

definition only_counters :: "heap \<Rightarrow> heap \<Rightarrow> bool" where
  "only_counters h h' \<longleftrightarrow> cells h \<subseteq>\<^sub>m cells h' \<and> hdrs h \<subseteq>\<^sub>m hdrs h' \<and> leafs h' = leafs h \<and>
     (\<forall>r. map_option no_counters (routers h' r) = map_option no_counters (routers h r))"

text \<open>The head of a list and its elements are determined by the view.\<close>

lemma chain_start: "chain m p xs \<Longrightarrow> p = (case xs of [] \<Rightarrow> NULL | x # _ \<Rightarrow> fst x)"
  by (cases xs) (auto elim: chain_ConsE)

lemma chain_same_cell:
  "chain m p xs \<Longrightarrow> chain m' q xs \<Longrightarrow> c \<in> fst ` set xs \<Longrightarrow> m' c = m c"
proof (induction xs arbitrary: p q)
  case (Cons x xs)
  obtain v ce where 1: "x = (p, v)" "m p = Some ce" "child_v ce = v" "chain m (child_n ce) xs"
    using Cons.prems(1) by (rule chain_ConsE)
  obtain w de where 2: "x = (q, w)" "m' q = Some de" "child_v de = w" "chain m' (child_n de) xs"
    using Cons.prems(2) by (rule chain_ConsE)
  have "child_n ce = child_n de" using chain_start [OF 1(4)] chain_start [OF 2(4)] by simp
  then have "ce = de" using 1 2 by simp
  then show ?case using 1 2 Cons.IH [OF 1(4) 2(4)] Cons.prems(3) by auto
qed simp

lemma repr_list_ok: "repr h V \<Longrightarrow> routers h r = Some rr \<Longrightarrow> list_ok (cells h) (list_of k rr) (V (k, r))"
  by (rule repr_list) (auto simp: rlist_def)

lemma tree_cells_same:
  assumes S: "same_tree h0 V h" and R0: "repr h0 V" and c: "c \<in> tree_cells V"
  shows "cells h c = cells h0 c"
proof -
  obtain k r v where v: "(c, v) \<in> set (V (k, r))" using c by (auto simp: tree_cells_def)
  have "V (k, r) \<noteq> []" using v by auto
  then obtain r0 where r0: "routers h0 r = Some r0" using R0 unfolding repr_def by (metis not_Some_eq rlist_None)
  then obtain r1 where r1: "routers h r = Some r1" using rdata_dom [OF st_rdata [OF S], of r] by auto
  show ?thesis
    using chain_same_cell [of "cells h0" _ "V (k, r)" "cells h" _ c] v
      repr_list_ok [OF R0 r0, of k] repr_list_ok [OF st_repr [OF S] r1, of k]
    unfolding list_ok_def by (metis fst_conv image_eqI)
qed

lemma same_tree_leafs:
  assumes S: "same_tree h0 V h" and R0: "repr h0 V"
  shows "leafs h = leafs h0"
proof
  fix l
  note N = repr_node_ok [OF st_repr [OF S]] repr_node_ok [OF R0]
  show "leafs h l = leafs h0 l"
  proof (cases "leafs h0 l")
    case None
    then show ?thesis using ldata_dom [OF st_ldata [OF S], of l] by simp
  next
    case (Some f0)
    then obtain f where f: "leafs h l = Some f" using ldata_dom [OF st_ldata [OF S], of l] by auto
    have "leaf_val f = leaf_val f0" using fun_cong [OF st_ldata [OF S], of l] Some f by (simp add: ldata_def)
    moreover have "node_parent (leaf_node f) = node_parent (leaf_node f0)"
      using fun_cong [OF st_par [OF S], of l] Some f by (simp add: par_def get_node_def)
    moreover have "node_type (leaf_node f) = node_type (leaf_node f0)"
      using N Some f unfolding node_ok_def by simp
    ultimately show ?thesis using Some f by (intro trans [OF f] trans [OF _ Some [symmetric]]) simp
  qed
qed

lemma same_tree_no_counters:
  assumes S: "same_tree h0 V h" and R0: "repr h0 V"
  shows "map_option no_counters (routers h r) = map_option no_counters (routers h0 r)"
proof (cases "routers h0 r")
  case None
  then show ?thesis using rdata_dom [OF st_rdata [OF S], of r] by simp
next
  case (Some r0)
  then obtain r1 where r1: "routers h r = Some r1" using rdata_dom [OF st_rdata [OF S], of r] by auto
  note N = repr_node_ok [OF st_repr [OF S]] repr_node_ok [OF R0]
  have l: "leafs h r = None" "leafs h0 r = None"
    using node_ok_disj' [OF N(1) r1] node_ok_disj' [OF N(2) Some] by simp_all
  have d: "router_sa r1 = router_sa r0" "router_hops r1 = router_hops r0"
    using fun_cong [OF st_rdata [OF S], of r] Some r1 by (simp_all add: rdata_def)
  have "node_parent (router_node r1) = node_parent (router_node r0)"
    using fun_cong [OF st_par [OF S], of r] Some r1 l by (simp add: par_def get_node_def)
  moreover have "node_type (router_node r1) = node_type (router_node r0)"
    using N Some r1 unfolding node_ok_def by simp
  ultimately have n: "router_node r1 = router_node r0" by simp
  have "lh_l (list_of k r1) = lh_l (list_of k r0)" "lh_n (list_of k r1) = lh_n (list_of k r0)" for k
    using repr_list_ok [OF R0 Some, of k] repr_list_ok [OF st_repr [OF S] r1, of k] chain_start
    unfolding list_ok_def by metis+
  from this [of Kid] this [of Leaf] n d show ?thesis
    using Some r1 by (simp add: no_counters_def child_list_def leaf_list_def)
qed

text \<open>The core of a memory, without what is in no list of the tree, has the same topology.\<close>

lemma topo_ok_core:
  assumes "topo_ok h V root"
  shows "topo_ok (core_of V h) V root"
proof -
  have "repr (core_of V h) V"
    using st_repr [OF core_same_tree [OF same_tree_refl [OF topo_repr [OF assms]]]] .
  moreover have "par (core_of V h) = par h" "rlist (core_of V h) = rlist h"
    by (rule obs_objects; simp add: core_of_def)+
  moreover have "routers (core_of V h) = routers h" "leafs (core_of V h) = leafs h"
    by (simp_all add: core_of_def)
  ultimately show ?thesis using assms by (simp add: topo_ok_def all_free_def free_of_def)
qed

lemma core_grown:
  assumes S: "same_tree (core_of V h) V k'" and R: "repr h V" and g: "gr (extra_of V h) k' h'"
  shows "only_counters h h'"
proof -
  have R0: "repr (core_of V h) V" using core_same_tree [OF same_tree_refl [OF R]] by (rule st_repr)
  have c: "cells h' c = cells h c" if "cells h c \<noteq> None" for c
  proof (cases "c \<in> tree_cells V")
    case True
    then show ?thesis using g tree_cells_same [OF S R0 True]
      by (auto simp: gr_def grow_def extra_of_def core_of_def map_add_def restrict_map_def)
  next
    case False
    then show ?thesis using g that
      by (auto simp: gr_def grow_def extra_of_def map_add_def restrict_map_def)
  qed
  have d: "hdrs h' x = hdrs h x" if "hdrs h x \<noteq> None" for x
    using g that by (auto simp: gr_def grow_def extra_of_def map_add_def)
  have o: "routers h' = routers k'" "leafs h' = leafs k'" using gr_objects [OF g] by simp_all
  show ?thesis
    using c d same_tree_leafs [OF S R0] same_tree_no_counters [OF S R0]
    unfolding only_counters_def map_le_def o by (auto simp: core_of_def)
qed

lemma greedy_grouping_frame:
  assumes T: "topo_ok h V root" and D: "no_dead V" and A: "2 \<le> max_addrs A"
    and r: "greedy_grouping A root reset_merging_stats h = Some (og, ms, h')"
  shows "only_counters h h'"
proof -
  let ?E = "extra_of V h" and ?k = "core_of V h"
  note R = topo_repr [OF T]
  have g: "gr ?E ?k h" by (rule core_gr [OF repr_node_ok [OF R]])
  obtain grp k' where k: "greedy_grouping A root reset_merging_stats ?k = Some (Some grp, reset_merging_stats, k')"
      "same_tree ?k V k'"
    using greedy_grouping_serves [OF topo_ok_core [OF T] D A] by blast
  have "ext (rel_prod (=) (rel_prod (=) (gr ?E))) (greedy_grouping A root reset_merging_stats ?k)
      (greedy_grouping A root reset_merging_stats h)"
    using greedy_grouping_ext [of ?E] g by (simp add: rel_fun_def)
  then have "gr ?E k' h'" using k(1) r by (auto simp: ext_def)
  then show ?thesis by (rule core_grown [OF k(2) R])
qed

end
