(* ===== verification/Spec2Isabelle.thy ===== *)
theory Spec2Isabelle
  imports Limits StartExample RouterExample Options TestbedProof PhaseOutput GroupingFrame
begin

text \<open>
  The MEADcast sender, \<open>src/mdc_sender/src\<close>: a program that reads packets from a TUN interface and sends
  each to many receivers, where it can with one packet per group of receivers under a MEADcast
  header, which routers on the way split up, and otherwise by unicast. This development models its
  code, from the command line to the packets, and the routers' side, the kernel patch
  \<open>linux-6.5.y.patch\<close>, and proves both correct as far as they are.

  \<^bold>\<open>The program.\<close> \<open>main\<close> parses the arguments, creates the group of receivers and starts two threads.
  The discovery thread sends requests to the receivers (\<open>tint_handler\<close>), learns from the responses
  which routers are on the paths to them and keeps those in a tree (\<open>update_topo\<close>), and at the end of each
  phase thins the tree, turns it into a transmission group and flattens it again (\<open>tout_handler\<close>).
  The sending thread (\<open>tx_loop\<close>) delivers each packet it reads to the group that is published at that
  moment. The threads share nothing but the pointer to the group.

  \<^bold>\<open>The model.\<close> C functions are HOL functions on an explicit memory with one map per type of object;
  pointers are natural numbers, 0 is the null pointer, a fresh one is the least unused. \<open>None\<close> means
  undefined behaviour (access to no object, a write behind an array, a use of what was never
  written) or that a loop does not end, so every theorem with a result \<open>Some\<close> says that the code is
  defined and returns. Loops over linked objects are \<open>partial_function (option)\<close>; there is no fuel
  anywhere. Fixed-width numbers are words where they can wrap (\<open>uint8\<close>, \<open>uint16\<close>, \<open>uint32\<close>, addresses as 128
  bits); \<open>size_t\<close> is \<open>nat\<close> with the wrap-around of subtraction written out (\<open>size_sub\<close>).

  \<^item> \<open>Prelude\<close>: types, the loop \<open>run\<close> with the contract of measured loops (locale), lemmas on lists.
  \<^item> \<open>Header\<close>: \<open>struct ip6_mdc_hdr\<close> of \<open>core.h\<close>, its size, and the setters of \<open>tx.c\<close>.
  \<^item> \<open>Memory\<close>, \<open>Lists\<close>, \<open>Topology\<close>, \<open>Tree\<close>: the objects of \<open>tree.h\<close>; \<open>list.c\<close> and \<open>list.h\<close>; the relation
    \<open>repr\<close> between the memory and the abstract view of the tree (which nodes are in which
    list), and the operations of \<open>tree.c\<close> on single nodes as updates of the view.
  \<^item> \<open>TopoInv\<close>, \<open>TreeView\<close>: the invariant \<open>topo_ok\<close> of the topology between events.
  \<^item> \<open>Judy\<close>: the interface of the JudyHS table, a locale, with association lists as an instance.
  \<^item> \<open>Rx\<close>: \<open>rx.c\<close>, and that a response puts its router on the path.
  \<^item> \<open>Reduce\<close>, \<open>ReduceProof\<close>, \<open>Reset\<close>: \<open>reduce_tree\<close> and \<open>rec_reset_tree\<close> of \<open>tree.c\<close>.
  \<^item> \<open>Args\<close>, \<open>Parse\<close>, \<open>ParseProof\<close>: \<open>argp.h\<close> and \<open>argp.c\<close>.
  \<^item> \<open>Grouping\<close>, \<open>Counters\<close>, \<open>GroupingOps\<close>, \<open>Segments\<close>, \<open>GroupingAdd\<close>, \<open>GroupingRun\<close>, \<open>GroupingProof\<close>,
    \<open>GroupingSpec\<close>: \<open>greedy_grouping\<close> of \<open>tree.c\<close>, its labels as states of a loop; the abstract counters of
    used and free elements; the segments of a header; the invariant and the measure.
  \<^item> \<open>Checksum\<close>, \<open>Tx\<close>, \<open>TxProof\<close>: \<open>checksum.c\<close>; requests and delivery in \<open>tx.c\<close>.
  \<^item> \<open>Group\<close>: \<open>group.c\<close>, and the invariant \<open>group_ok\<close> of the receivers, the tree and the table.
  \<^item> \<open>Discover\<close>, \<open>DiscoverProof\<close>, \<open>Delivery\<close>: timers, handlers and loop of \<open>discover.c\<close>; the whole way of
    one packet.
  \<^item> \<open>Frame\<close>, \<open>Published\<close>: every operation of the discovery thread works in the same way in a memory with
    additional cells and headers and leaves those alone (by parametricity), so that the
    published group outlives later phases.
  \<^item> \<open>GroupingFrame\<close>: by the same property, the grouping changes the free counters of routers and allocates cells
    and headers, and leaves everything else in memory what it was (\<open>only_counters\<close>).
  \<^item> \<open>TxLoop\<close>, \<open>Sending\<close>: the loops of the sending thread, and the start of discovery by the first packet
    as a step relation of the two threads (\<open>wait_step\<close>), in which a reading has the effect of the code of
    \<open>wait_init_input\<close> on it (\<open>wait_read\<close>, \<open>tx_wait\<close>).
  \<^item> \<open>System\<close>, \<open>Startup\<close>, \<open>StartupProof\<close>: \<open>tun.c\<close>, \<open>core.c\<close>, \<open>main.c\<close> and the start of both threads, over
    system calls that are parameters.
  \<^item> \<open>Example\<close>, \<open>StartExample\<close>: concrete states, on which the properties below are applied.
  \<^item> \<open>Limits\<close>: what the program does not guard against.
  \<^item> \<open>Printing\<close>, \<open>PrintProof\<close>, \<open>PhaseOutput\<close>: \<open>util.c\<close> and the other functions that print, as functions to strings; printing
    the tree has a line for each node below the root, printing a group one for each header and each
    unicast receiver; the output of \<open>tout_handler\<close>, for which the reset must leave the group alone.
  \<^item> \<open>Options\<close>: the table of options of \<open>argp.c\<close>, what the parser does with each; printed settings as options
    of a whole command line.
  \<^item> \<open>Testbed\<close>, \<open>TestbedProof\<close>: \<open>test.c\<close>. A topology is the list of its calls; building it is proved for all lists in
    which a router comes after its parent (\<open>creations_ok\<close>), which the two lists of the file are.
  \<^item> \<open>Router\<close>: \<open>net/ipv6/mdcast.c\<close> of the patch, with its calls from \<open>ip6_forward\<close> and \<open>ipv6_rthdr_rcv\<close>.
  \<^item> \<open>RouterProof\<close>, \<open>RouterDelivery\<close>: the loop over the entries of a header finds the segments of the routers to
    deliver to; whom a packet is for (\<open>pkt_due\<close>), and that a router passes it on for just those; the
    incremental update of the checksum.
  \<^item> \<open>Network\<close>: packets under way as a multiset, with a step relation (\<open>transit\<close>) in which any packet passes any
    router; the packets of \<open>tx\<close> stay packets for all receivers.
  \<^item> \<open>Answers\<close>: the requests of \<open>send_dcvr\<close> on a path of routers, and the packets a router leaves alone.
  \<^item> \<open>RouterExample\<close>: routers and packets as examples, and what the patch does not guard against.

  \<^bold>\<open>Parameters.\<close> The JudyHS library is the argument \<open>J\<close> with the laws of the locale \<open>judy_hs\<close>, which
  association lists satisfy. \<open>inet_pton\<close> and \<open>inet_ntop\<close>, the results of system calls, what \<open>read\<close> and \<open>recvfrom\<close> leave in their
  buffers, and what \<open>malloc\<close> leaves in a \<open>struct paddr\<close> (\<open>junk\<close>) are arguments. \<open>malloc\<close> does not fail.
  The theorems about the command line assume that it names at most one peer or that \<open>junk\<close> is null, which C
  does not promise and without which the list of several peers has no end; those about responses assume that a router answers at one distance within a phase, without which
  the tree gets a cycle; those about delivery assume that the packet is a UDP datagram whose length
  is right. \<open>Limits\<close> shows what happens otherwise. The functions of the kernel that a router calls are the
  parameter \<open>md_net\<close>; the theorems about routers assume that they do not fail (\<open>net_up\<close>) and that the
  checksum functions compute ones' complement sums (\<open>csum_ok\<close>).

  \<^bold>\<open>Not modelled.\<close> Messages on the error stream and single messages between other steps, the help texts of
  the options, and that \<open>tun_alloc\<close> writes 16 bytes to the name it was given. In the patch: the registration of its two settings, and packets whose routing header is not as long
  as its length field says. The testbed scripts are programs of their own. Which way packets take
  in the network is not in the source: the theorems hold for every order of routers, and they do not
  say that a packet meets the router it is meant for.
\<close>

section \<open>The program as a whole\<close>

text \<open>
  C1: The discovery thread never runs into undefined behaviour. From a well-formed state, for every
  sequence of events (datagrams, well formed or not, and expirations of its timers, with failing
  reads and sends among them), as long as no router answers at two distances within a phase and
  the sender does not answer itself, the loop goes on, keeps the group, the tree, the table and the
  timers well formed, and keeps every receiver.
\<close>

theorem discovery_loop_safe:
  assumes "judy_hs J" and "args_ok A" and "conf_ok c" and "mdc_addr txbuf \<noteq> []"
    and "dx_ok J c st" and "events_ok J A txbuf c es st"
  shows "\<exists>out st'. dx_loop J A txbuf c es st = Some (out, st') \<and> dx_ok J c st' \<and>
    ldata (dx_h st') = ldata (dx_h st)"
  by (rule dx_loop_ok [OF assms])

lemma discovery_loop_safe_witness:
  "\<exists>out st'. dx_loop alist_judy ex_args (zero_hdr 1) ex_conf
      [Response ex_dgram, Timeout 8, Interval 8 (\<lambda>_. 32), Interval (- 1) (\<lambda>_. - 1)] ex_dx = Some (out, st') \<and>
    dx_ok alist_judy ex_conf st' \<and> ldata (dx_h st') = ldata (dx_h ex_dx)"
  by (rule discovery_loop_safe)
    (auto simp: alist.judy_hs_axioms ex_args_ok ex_conf_ok ex_dx_ok ex_response_ok zero_hdr_def
      split: option.split prod.split)



text \<open>
  C3: A UDP packet reaches every receiver once. In the group that the grouping of a topology
  returns, if no call of sendto fails, the receivers named by the headers of the MEADcast packets
  and the destinations of the unicast packets are, together, all receivers, each once; every packet
  carries the payload that was read, up to its destination port and checksum, and every
  checksum is right.
\<close>

theorem packet_reaches_everyone:
  assumes T: "topo_ok h V root" and D: "no_dead V" and A: "2 \<le> max_addrs A"
    and fd: "1 \<le> ip6_fd" "1 \<le> mdc_fd"
    and pkt: "ip_nexthdr ip = IPPROTO_UDP" "udp_len_ok pl plen"
    and res: "\<And>i. 1 \<le> ures i" "\<And>i. 1 \<le> mres i"
  shows "\<exists>grp h' ls. greedy_grouping A root reset_merging_stats h = Some (Some grp, reset_merging_stats, h') \<and>
    distinct ls \<and> set ls = {l. leafs h l \<noteq> None} \<and>
    (\<forall>g :: 't group. get_txg g = Some grp \<longrightarrow> (\<exists>ups mps.
       tx ures mres (init_tx (max_addrs A) mtu) bia ip6_fd mdc_fd g h' (44 + plen) ip pl = Some (ups, mps) \<and>
       concat (map mdc_receivers mps) @ map up_dst ups = map (laddr h) ls \<and>
       (\<forall>p \<in> set ups. udp_like (take plen pl) (up_payload p) \<and>
         udp_checks (ip_saddr ip) (up_dst p) (up_payload p)) \<and>
       (\<forall>p \<in> set mps. udp_like (take plen pl) (mp_payload p) \<and>
         udp_checks bia (mp_dst p) (mp_payload p))))"
proof -
  obtain grp h' gs us where r: "greedy_grouping A root reset_merging_stats h =
        Some (Some grp, reset_merging_stats, h')"
      "txg_serves h' (gg_max A) grp gs us" "same_tree h V h'"
    using greedy_grouping_serves [OF T D A] by blast
  have ld: "laddr h' = laddr h" "leafs h' l = None \<longleftrightarrow> leafs h l = None" for l
    using st_ldata [OF r(3)] ldata_dom [OF st_ldata [OF r(3)]] by (auto simp: laddr_def)
  have "\<exists>ups mps. tx ures mres (init_tx (max_addrs A) mtu) bia ip6_fd mdc_fd g h' (44 + plen) ip pl =
        Some (ups, mps) \<and>
      concat (map mdc_receivers mps) @ map up_dst ups = map (laddr h) (seg_leafs (concat gs) @ us) \<and>
      (\<forall>p \<in> set ups. udp_like (take plen pl) (up_payload p) \<and>
         udp_checks (ip_saddr ip) (up_dst p) (up_payload p)) \<and>
      (\<forall>p \<in> set mps. udp_like (take plen pl) (mp_payload p) \<and> udp_checks bia (mp_dst p) (mp_payload p))"
    if g: "get_txg g = Some grp" for g :: "'t group"
  proof -
    obtain ups mps where
      "tx ures mres (init_tx (max_addrs A) mtu) bia ip6_fd mdc_fd g h' (44 + plen) ip pl = Some (ups, mps)"
      "list_all2 (uni_packet_ok ip pl plen) (rcvr_addrs h' us) ups"
      "\<forall>p \<in> set mps. udp_like (take plen pl) (mp_payload p) \<and> udp_checks bia (mp_dst p) (mp_payload p)"
      "concat (map mdc_receivers mps) @ map up_dst ups = map (laddr h') (seg_leafs (concat gs) @ us)"
      using tx_delivers [OF r(2) g fd pkt, of ures mres mtu bia] res by blast
    moreover have "udp_like (take plen pl) (up_payload p) \<and> udp_checks (ip_saddr ip) (up_dst p) (up_payload p)"
      if p: "p \<in> set ups" for p
      using list_all2_in_right [OF calculation(2) p] pkt(1) by (auto simp: uni_packet_ok_def)
    ultimately show ?thesis unfolding ld(1) by blast
  qed
  moreover have "distinct (seg_leafs (concat gs) @ us)" "set (seg_leafs (concat gs) @ us) = {l. leafs h l \<noteq> None}"
    using r(2) ld(2) by (auto simp: txg_serves_def)
  ultimately show ?thesis
    using r(1) by (intro exI [of _ grp] exI [of _ h'] exI [of _ "seg_leafs (concat gs) @ us"]) blast
qed

lemma packet_reaches_everyone_witness:
  "\<exists>grp h' ls. greedy_grouping ex_args 1 reset_merging_stats ex_heap =
      Some (Some grp, reset_merging_stats, h') \<and>
    distinct ls \<and> set ls = {l. leafs ex_heap l \<noteq> None} \<and>
    (\<forall>g :: (in6_addr \<times> ptr) list group. get_txg g = Some grp \<longrightarrow> (\<exists>ups mps.
       tx (\<lambda>_. 1) (\<lambda>_. 1) (init_tx (max_addrs ex_args) 1500) 101 7 8 g h' (44 + 10) ex_ip ex_payload =
         Some (ups, mps) \<and>
       concat (map mdc_receivers mps) @ map up_dst ups = map (laddr ex_heap) ls \<and>
       (\<forall>p \<in> set ups. udp_like (take 10 ex_payload) (up_payload p) \<and>
         udp_checks (ip_saddr ex_ip) (up_dst p) (up_payload p)) \<and>
       (\<forall>p \<in> set mps. udp_like (take 10 ex_payload) (mp_payload p) \<and>
         udp_checks 101 (mp_dst p) (mp_payload p))))"
  by (rule packet_reaches_everyone [OF ex_topo ex_hops(3) ex_args_ok(3)])
    (simp_all add: ex_ip_def IPPROTO_UDP_def ex_payload_ok)


text \<open>
  C4: The packets of the sender reach everyone through the routers. The group that the grouping returns serves the
  receivers ls, all of them, each once. If the packet read is UDP, right in its length fields and short enough for a
  header in front of it (less than 65008 bytes), no call of sendto fails, and every router has the extension enabled, a route to
  every address, memory for its copies, no error on output and checksum functions that compute ones'
  complement sums (routers_up), then in whatever order the packets that tx sends for the group pass routers, and
  whatever their addresses and thresholds are, the packets under way are always for exactly these receivers,
  each once, and right, with the payload that was read up to its destination port and checksum. As
  soon as no packet has a MEADcast header any more, their destinations are the receivers. Without the
  assumption on the routers this is false: an error on output makes a router deliver to a receiver twice.
\<close>

theorem network_delivers:
  assumes T: "topo_ok h V root" and D: "no_dead V" and A: "2 \<le> max_addrs A"
    and fd: "1 \<le> ip6_fd" "1 \<le> mdc_fd"
    and ip: "ip_nexthdr ip = IPPROTO_UDP" "unat (ip_payload_len ip) = plen" and pl: "udp_len_ok pl plen"
    and n: "plen + 528 < 2 ^ 16" and res: "\<And>i. 1 \<le> ures i" "\<And>i. 1 \<le> mres i"
    and Ns: "routers_up Ns"
  shows "\<exists>grp h' ls. greedy_grouping A root reset_merging_stats h = Some (Some grp, reset_merging_stats, h') \<and>
    distinct ls \<and> set ls = {l. leafs h l \<noteq> None} \<and>
    (\<forall>g :: 't group. get_txg g = Some grp \<longrightarrow> (\<exists>ups mps.
       tx ures mres (init_tx (max_addrs A) mtu) bia ip6_fd mdc_fd g h' (44 + plen) ip pl = Some (ups, mps) \<and>
       (\<forall>ps C. on_wire bia ups mps ps \<and> (transit Ns)\<^sup>*\<^sup>* (mset ps) C \<longrightarrow>
          all_due C = mset (map (laddr h) ls) \<and>
          (\<forall>q \<in># C. pkt_ok q \<and> udp_like (take plen pl) (sk_pl q)) \<and>
          ((\<forall>q \<in># C. sk_hdr q = None) \<longrightarrow> image_mset (\<lambda>q. ip_daddr (sk_ip q)) C = mset (map (laddr h) ls)))))"
proof -
  obtain grp h' gs us where r: "greedy_grouping A root reset_merging_stats h =
        Some (Some grp, reset_merging_stats, h')"
      "txg_serves h' (gg_max A) grp gs us" "same_tree h V h'"
    using greedy_grouping_serves [OF T D A] by blast
  let ?ls = "seg_leafs (concat gs) @ us"
  have ld: "laddr h' = laddr h" "leafs h' l = None \<longleftrightarrow> leafs h l = None" for l
    using st_ldata [OF r(3)] ldata_dom [OF st_ldata [OF r(3)]] by (auto simp: laddr_def)
  have "\<exists>ups mps. tx ures mres (init_tx (max_addrs A) mtu) bia ip6_fd mdc_fd g h' (44 + plen) ip pl = Some (ups, mps) \<and>
      (\<forall>ps C. on_wire bia ups mps ps \<and> (transit Ns)\<^sup>*\<^sup>* (mset ps) C \<longrightarrow>
        all_due C = mset (map (laddr h) ?ls) \<and> (\<forall>q \<in># C. pkt_ok q \<and> udp_like (take plen pl) (sk_pl q)) \<and>
        ((\<forall>q \<in># C. sk_hdr q = None) \<longrightarrow> image_mset (\<lambda>q. ip_daddr (sk_ip q)) C = mset (map (laddr h) ?ls)))"
    if g: "get_txg g = Some grp" for g :: "'t group"
  proof -
    obtain ups mps where
      "tx ures mres (init_tx (max_addrs A) mtu) bia ip6_fd mdc_fd g h' (44 + plen) ip pl = Some (ups, mps)"
      "\<forall>ps. on_wire bia ups mps ps \<longrightarrow> under_way (mset ps) (mset (map (laddr h) ?ls)) (mset ps) \<and>
        (\<forall>p \<in> set ps. udp_like (take plen pl) (sk_pl p))"
      using tx_under_way [OF r(2) g fd ip pl n, of ures mres mtu bia] res unfolding ld(1) by blast
    then show ?thesis using under_way_end [OF Ns] by (intro exI [of _ ups] exI [of _ mps]) blast
  qed
  moreover have "distinct ?ls" "set ?ls = {l. leafs h l \<noteq> None}"
    using r(2) ld(2) by (auto simp: txg_serves_def)
  ultimately show ?thesis
    using r(1) by (intro exI [of _ grp] exI [of _ h'] exI [of _ ?ls]) blast
qed

lemma network_delivers_witness:
  "\<exists>grp h' ls. greedy_grouping ex_args 1 reset_merging_stats ex_heap = Some (Some grp, reset_merging_stats, h') \<and>
    distinct ls \<and> set ls = {l. leafs ex_heap l \<noteq> None} \<and>
    (\<forall>g :: (in6_addr \<times> ptr) list group. get_txg g = Some grp \<longrightarrow> (\<exists>ups mps.
       tx (\<lambda>_. 1) (\<lambda>_. 1) (init_tx (max_addrs ex_args) 1500) 101 7 8 g h' (44 + 10) ex_ip ex_payload = Some (ups, mps) \<and>
       (\<forall>ps C. on_wire 101 ups mps ps \<and> (transit {mead_router 201 1, mead_router 202 3})\<^sup>*\<^sup>* (mset ps) C \<longrightarrow>
          all_due C = mset (map (laddr ex_heap) ls) \<and>
          (\<forall>q \<in># C. pkt_ok q \<and> udp_like (take 10 ex_payload) (sk_pl q)) \<and>
          ((\<forall>q \<in># C. sk_hdr q = None) \<longrightarrow>
            image_mset (\<lambda>q. ip_daddr (sk_ip q)) C = mset (map (laddr ex_heap) ls)))))"
  by (rule network_delivers [OF ex_topo ex_hops(3) ex_args_ok(3)])
    (simp_all add: ex_ip_def IPPROTO_UDP_def ex_payload_ok routers_up_def)

text \<open>
  C5: The published group outlives what follows. After the end of a discovery phase, whatever events
  come next, further phases with their own groups among them, as long as no router answers at two
  distances within a phase and the sender does not answer itself, the cells and headers of the published
  group stay what they were when it was published, so that tx, at any later time, sends
  from it exactly what it would have sent then.
\<close>

theorem published_group_stays:
  assumes "judy_hs J" and "args_ok A" and "conf_ok c" and "mdc_addr txbuf \<noteq> []" and "dx_ok J c st"
    and "1 \<le> rd"
  shows "\<exists>st1 grp h gs us. tout_handler J A rd c st = Some (0, st1) \<and>
    get_txg (dx_g st1) = Some grp \<and> txg_serves h (gg_max A) grp gs us \<and> ldata h = ldata (dx_h st) \<and>
    (\<forall>es. events_ok J A txbuf c es st1 \<longrightarrow> (\<exists>out st2. dx_loop J A txbuf c es st1 = Some (out, st2) \<and>
      intact h (dx_h st2) grp \<and>
      (\<forall>(g :: 't group) ures mres b bia fd1 fd2 n ip pl. get_txg g = Some grp \<longrightarrow>
        tx ures mres b bia fd1 fd2 g (dx_h st2) n ip pl = tx ures mres b bia fd1 fd2 g h n ip pl)))"
  using group_stays [OF assms] tx_intact by meson

lemma published_group_stays_witness:
  "\<exists>st1 grp h out st2. tout_handler alist_judy ex_args 8 ex_conf ex_dx = Some (0, st1) \<and>
    get_txg (dx_g st1) = Some grp \<and> ldata h = ldata ex_heap \<and>
    dx_loop alist_judy ex_args (zero_hdr 1) ex_conf [Interval 8 (\<lambda>_. 32), Timeout 8] st1 = Some (out, st2) \<and>
    intact h (dx_h st2) grp"
proof -
  have b: "mdc_addr (zero_hdr 1) \<noteq> []" by (simp add: zero_hdr_def)
  obtain st1 grp h where 1: "tout_handler alist_judy ex_args 8 ex_conf ex_dx = Some (0, st1)"
    "get_txg (dx_g st1) = Some grp" "ldata h = ldata (dx_h ex_dx)"
    "\<forall>es. events_ok alist_judy ex_args (zero_hdr 1) ex_conf es st1 \<longrightarrow>
      (\<exists>out st2. dx_loop alist_judy ex_args (zero_hdr 1) ex_conf es st1 = Some (out, st2) \<and> intact h (dx_h st2) grp)"
    using published_group_stays [OF alist.judy_hs_axioms ex_args_ok(1) ex_conf_ok b ex_dx_ok, of 8] by force
  have "events_ok alist_judy ex_args (zero_hdr 1) ex_conf [Interval 8 (\<lambda>_. 32), Timeout 8] st1"
    by (simp split: option.split prod.split)
  then obtain out st2 where "dx_loop alist_judy ex_args (zero_hdr 1) ex_conf [Interval 8 (\<lambda>_. 32), Timeout 8] st1 = Some (out, st2)"
    "intact h (dx_h st2) grp" using 1(4) by blast
  then show ?thesis using 1(1-3) by (auto simp: ex_dx_def)
qed

text \<open>
  C6: Every UDP packet reaches every receiver. The sending thread, without an initial wait, reads
  packets from the TUN interface. Suppose that up to the first failing read every IPv6 packet it reads is
  a UDP packet whose length field lies within what was read; that for each of them it sees some group,
  published for the receivers L, that is intact in the memory of that moment; and that no call of
  sendto fails. Then up to the first failing read it delivers every IPv6 packet to all receivers, each
  once, with the payload unchanged up to the destination port and the checksum and with a right
  checksum, in the order of reading, and drops the packets that are not IPv6.
\<close>

theorem all_packets_delivered:
  assumes "\<not> dcvr_wait A" and "1 \<le> ta_tun ta" and "1 \<le> ta_ip6 ta" and "1 \<le> ta_mdc ta"
    and "\<And>r e. (r, e) \<in> set (ipv6_reads xs) \<Longrightarrow> udp_read r \<and> sees_group A L e \<and>
      (\<forall>i. 1 \<le> te_ures e i \<and> 1 \<le> te_mres e i)"
  shows "\<exists>ps. tx_loop A (init_tx (max_addrs A) mtu) bia ta xs = Some (ps, False, \<not> (\<forall>x \<in> set xs. read_ok (fst x))) \<and>
    list_all2 (\<lambda>x s. delivered L bia (fst x) s) (ipv6_reads xs) ps"
proof -
  obtain ps where "tx_loop_forever (init_tx (max_addrs A) mtu) bia ta xs = Some (ps, \<not> (\<forall>x \<in> set xs. read_ok (fst x)))"
    "list_all2 (\<lambda>x s. delivered L bia (fst x) s) (ipv6_reads xs) ps"
    using all_reads_delivered [OF assms(3,4), of xs A L mtu bia] assms(5) unfolding no_send_fails_def by blast
  then show ?thesis using assms(1-3) by (simp add: tx_loop_def)
qed

lemma all_packets_delivered_witness:
  "\<exists>ps. tx_loop ex_args (init_tx (max_addrs ex_args) 1500) 101 \<lparr>ta_tun = 3, ta_mdc = 8, ta_ip6 = 7\<rparr>
      [(ex_read, ex_env), (ex_read\<lparr>tr_proto := 0x800\<rparr>, ex_env), (ex_read, ex_env), (ex_read\<lparr>tr_ret := - 1\<rparr>, ex_env)] =
        Some (ps, False, True) \<and>
    list_all2 (\<lambda>x s. delivered (ldata ex_heap) 101 (fst x) s) [(ex_read, ex_env), (ex_read, ex_env)] ps"
proof -
  let ?xs = "[(ex_read, ex_env), (ex_read\<lparr>tr_proto := 0x800\<rparr>, ex_env), (ex_read, ex_env), (ex_read\<lparr>tr_ret := - 1\<rparr>, ex_env)]"
  have x: "ipv6_reads ?xs = [(ex_read, ex_env), (ex_read, ex_env)]"
    by (simp add: ex_read_def read_ok_def is_ipv6_def ETH_P_IPV6_def)
  have f: "\<not> (\<forall>x \<in> set ?xs. read_ok (fst x))" by (simp add: read_ok_def)
  show ?thesis
    using all_packets_delivered [where A = ex_args and ta = "\<lparr>ta_tun = 3, ta_mdc = 8, ta_ip6 = 7\<rparr>" and xs = ?xs
        and L = "ldata ex_heap" and mtu = 1500 and bia = 101]
      ex_read_ok ex_env_ok [unfolded no_send_fails_def] f unfolding x by (simp add: ex_args_def)
qed


section \<open>Grouping\<close>

text \<open>
  C7: Grouping always returns, from every well-formed topology in which no router is without
  receivers and child routers, and serves every receiver exactly once. It changes nothing in
  memory but the counters of free elements: every list cell and every header that was there, whether it
  belongs to the tree or not, every leaf, and every router up to its two counters is what it was, and no
  leaf or router is new. The rest of what it does is new cells and headers.
\<close>

theorem grouping_serves_everyone:
  assumes "topo_ok h V root" and "no_dead V" and "2 \<le> max_addrs A"
  shows "\<exists>grp h' gs us. greedy_grouping A root reset_merging_stats h =
      Some (Some grp, reset_merging_stats, h') \<and> txg_serves h' (gg_max A) grp gs us \<and> same_tree h V h' \<and>
    (\<forall>c. cells h c \<noteq> None \<longrightarrow> cells h' c = cells h c) \<and> (\<forall>x. hdrs h x \<noteq> None \<longrightarrow> hdrs h' x = hdrs h x) \<and>
    leafs h' = leafs h \<and>
    (\<forall>r. map_option no_counters (routers h' r) = map_option no_counters (routers h r))"
  using greedy_grouping_serves [OF assms] greedy_grouping_frame [OF assms]
  unfolding only_counters_def map_le_def by (metis domIff)

lemma grouping_serves_everyone_witness:
  "\<exists>grp h' gs us. greedy_grouping ex_args 1 reset_merging_stats ex_heap =
      Some (Some grp, reset_merging_stats, h') \<and> txg_serves h' 10 grp gs us \<and> same_tree ex_heap ex_view h' \<and>
    (\<forall>c. cells ex_heap c \<noteq> None \<longrightarrow> cells h' c = cells ex_heap c) \<and>
    (\<forall>x. hdrs ex_heap x \<noteq> None \<longrightarrow> hdrs h' x = hdrs ex_heap x) \<and> leafs h' = leafs ex_heap \<and>
    (\<forall>r. map_option no_counters (routers h' r) = map_option no_counters (routers ex_heap r))"
  using grouping_serves_everyone [OF ex_topo ex_hops(3) ex_args_ok(3)] unfolding ex_args_ok .

text \<open>
  C8: The headers read back. A router that splits the addresses of a header at the set bits of its
  bitmap finds what the grouping put into it: every router with the receivers it is
  responsible for, of which no receiver is missing and none occurs twice.
\<close>

theorem grouping_headers_read_back:
  assumes T: "topo_ok h V root" and D: "no_dead V" and A: "2 \<le> max_addrs A"
  shows "\<exists>grp h' xs ds gs us. greedy_grouping A root reset_merging_stats h =
      Some (Some grp, reset_merging_stats, h') \<and> chain (cells h') (txg_mdc grp) xs \<and>
    list_all2 (\<lambda>x d. hdrs h' (snd x) = Some d) xs ds \<and>
    map hdr_groups ds = map (map (\<lambda>(y, ls). (raddr h y, map (laddr h) ls))) gs \<and>
    distinct (seg_leafs (concat gs) @ us) \<and>
    set (seg_leafs (concat gs) @ us) = {l. leafs h l \<noteq> None} \<and> txg_uni grp = rcvr_addrs h us"
proof -
  obtain grp h' gs us where r: "greedy_grouping A root reset_merging_stats h =
        Some (Some grp, reset_merging_stats, h')"
      "txg_serves h' (gg_max A) grp gs us" "same_tree h V h'"
    using greedy_grouping_serves [OF T D A] by blast
  obtain xs ds where xs: "chain (cells h') (txg_mdc grp) xs"
      "list_all2 (\<lambda>x d. hdrs h' (snd x) = Some d) xs ds" "list_all2 (\<lambda>d g. hdr_ok h' (gg_max A) d g) ds gs"
    using txg_serves_hdrs [OF r(2)] by blast
  have "hdr_groups d = map (\<lambda>(y, ls). (raddr h' y, map (laddr h') ls)) g" if "hdr_ok h' (gg_max A) d g" for d g
    using hdr_groups_ok [OF that] by (simp add: gg_max_def BITMAP_LIMIT_def)
  then have "map hdr_groups ds = map (map (\<lambda>(y, ls). (raddr h' y, map (laddr h') ls))) gs"
    using xs(3) by (auto simp: list_all2_conv_all_nth intro: nth_equalityI)
  moreover have "raddr h' = raddr h" "laddr h' = laddr h" "rcvr_addrs h' us = rcvr_addrs h us"
    "{l. leafs h' l \<noteq> None} = {l. leafs h l \<noteq> None}"
    using st_rdata [OF r(3)] st_ldata [OF r(3)] ldata_dom [OF st_ldata [OF r(3)]]
    by (auto simp: raddr_def laddr_def rcvr_addrs_def)
  moreover have "distinct (seg_leafs (concat gs) @ us)" "txg_uni grp = rcvr_addrs h' us"
    "set (seg_leafs (concat gs) @ us) = {l. leafs h' l \<noteq> None}"
    using r(2) by (auto simp: txg_serves_def)
  ultimately show ?thesis
    using r(1) xs(1,2)
    by (intro exI [of _ grp] exI [of _ h'] exI [of _ xs] exI [of _ ds] exI [of _ gs] exI [of _ us] conjI)
      simp_all
qed

lemma grouping_headers_read_back_witness:
  "\<exists>grp h' xs ds gs us. greedy_grouping ex_args 1 reset_merging_stats ex_heap =
      Some (Some grp, reset_merging_stats, h') \<and> chain (cells h') (txg_mdc grp) xs \<and>
    list_all2 (\<lambda>x d. hdrs h' (snd x) = Some d) xs ds \<and>
    map hdr_groups ds = map (map (\<lambda>(y, ls). (raddr ex_heap y, map (laddr ex_heap) ls))) gs \<and>
    distinct (seg_leafs (concat gs) @ us) \<and>
    set (seg_leafs (concat gs) @ us) = {l. leafs ex_heap l \<noteq> None} \<and> txg_uni grp = rcvr_addrs ex_heap us"
  by (rule grouping_headers_read_back [OF ex_topo ex_hops(3) ex_args_ok(3)])

text \<open>
  C9: A router is made responsible only for receivers behind it: if distances grow from router to
  router, the router of a segment lies on the path from the sender to each of the segment's
  receivers, whatever was split and merged.
\<close>

theorem grouping_routers_on_path:
  assumes T: "topo_ok h V root" and "no_dead V" and "2 \<le> max_addrs A" and H: "strict_hops h V"
  shows "\<exists>grp h' ds gs. greedy_grouping A root reset_merging_stats h =
      Some (Some grp, reset_merging_stats, h') \<and> chain (cells h') (txg_mdc grp) ds \<and>
    list_all2 (\<lambda>x g. \<exists>d. hdrs h' (snd x) = Some d \<and> hdr_ok h (gg_max A) d g) ds gs \<and>
    (\<forall>(y, ls) \<in> set (concat gs). \<forall>l \<in> set ls. (y, par h l) \<in> (kid_edges V)\<^sup>*)"
proof -
  obtain grp h' ds gs us where r: "greedy_grouping A root reset_merging_stats h =
        Some (Some grp, reset_merging_stats, h')" "chain (cells h') (txg_mdc grp) ds"
      "list_all2 (\<lambda>x g. \<exists>d. hdrs h' (snd x) = Some d \<and> hdr_ok h (gg_max A) d g \<and> \<not> is_node h (snd x)) ds gs"
      "strict_hops h V \<longrightarrow> cover h V (concat gs)"
    using greedy_grouping_all [OF assms(1-3)] by blast
  have "list_all2 (\<lambda>x g. \<exists>d. hdrs h' (snd x) = Some d \<and> hdr_ok h (gg_max A) d g) ds gs"
    by (rule list_all2_mono [OF r(3)]) blast
  then show ?thesis using r(1,2,4) H unfolding cover_def by blast
qed

lemma grouping_routers_on_path_witness:
  "\<exists>grp h' ds gs. greedy_grouping ex_args 1 reset_merging_stats ex_heap =
      Some (Some grp, reset_merging_stats, h') \<and> chain (cells h') (txg_mdc grp) ds \<and>
    list_all2 (\<lambda>x g. \<exists>d. hdrs h' (snd x) = Some d \<and> hdr_ok ex_heap 10 d g) ds gs \<and>
    (\<forall>(y, ls) \<in> set (concat gs). \<forall>l \<in> set ls. (y, par ex_heap l) \<in> (kid_edges ex_view)\<^sup>*)"
  using grouping_routers_on_path [OF ex_topo ex_hops(3) ex_args_ok(3) ex_hops(2)] by (simp add: ex_args_ok)

text \<open>
  C10: Every header of a group has between two entries and the smaller of the configured maximum and
  32, its count is right, and there is room for it in front of a packet: the header stays clear
  of the bytes in which the discovery thread composes its requests.
\<close>

theorem grouping_headers_fit:
  assumes T: "topo_ok h V root" and D: "no_dead V" and A: "2 \<le> max_addrs A"
  shows "\<exists>grp h' xs. greedy_grouping A root reset_merging_stats h =
      Some (Some grp, reset_merging_stats, h') \<and> chain (cells h') (txg_mdc grp) xs \<and>
    (\<forall>x \<in> set xs. \<exists>d. hdrs h' (snd x) = Some d \<and> unat (hdr_dsts d) = length (mdc_addr d) \<and>
      2 \<le> length (mdc_addr d) \<and> length (mdc_addr d) \<le> min (max_addrs A) 32 \<and>
      get_mdc_hdr_size 1 + 12 + get_mdc_hdr_size (length (mdc_addr d)) \<le> tx_room (init_tx (max_addrs A) mtu))"
proof -
  obtain grp h' gs us where r: "greedy_grouping A root reset_merging_stats h =
        Some (Some grp, reset_merging_stats, h')" "txg_serves h' (gg_max A) grp gs us"
    using greedy_grouping_serves [OF T D A] by blast
  obtain xs ds where xs: "chain (cells h') (txg_mdc grp) xs"
      "list_all2 (\<lambda>x d. hdrs h' (snd x) = Some d) xs ds" "list_all2 (\<lambda>d g. hdr_ok h' (gg_max A) d g) ds gs"
    using txg_serves_hdrs [OF r(2)] by blast
  have "unat (hdr_dsts d) = length (mdc_addr d) \<and> 2 \<le> length (mdc_addr d) \<and>
      length (mdc_addr d) \<le> min (max_addrs A) 32 \<and>
      get_mdc_hdr_size 1 + 12 + get_mdc_hdr_size (length (mdc_addr d)) \<le> tx_room (init_tx (max_addrs A) mtu)"
    if "hdr_ok h' (gg_max A) d g" for d g
    using that hdr_ok_sendable [OF that, of mtu] sendable_apart [OF that, of mtu]
    by (auto simp: mdc_sendable_def hdr_ok_def gg_max_def BITMAP_LIMIT_def split: if_splits)
  note fits = this
  have "\<exists>d. hdrs h' (snd x) = Some d \<and> unat (hdr_dsts d) = length (mdc_addr d) \<and>
      2 \<le> length (mdc_addr d) \<and> length (mdc_addr d) \<le> min (max_addrs A) 32 \<and>
      get_mdc_hdr_size 1 + 12 + get_mdc_hdr_size (length (mdc_addr d)) \<le> tx_room (init_tx (max_addrs A) mtu)"
    if x: "x \<in> set xs" for x
  proof -
    obtain d where d: "d \<in> set ds" "hdrs h' (snd x) = Some d" using list_all2_in_left [OF xs(2) x] by blast
    obtain g where "hdr_ok h' (gg_max A) d g" using list_all2_in_left [OF xs(3) d(1)] by blast
    from fits [OF this] d(2) show ?thesis by blast
  qed
  then show ?thesis using r(1) xs(1) by blast
qed

lemma grouping_headers_fit_witness:
  "\<exists>grp h' xs. greedy_grouping ex_args 1 reset_merging_stats ex_heap =
      Some (Some grp, reset_merging_stats, h') \<and> chain (cells h') (txg_mdc grp) xs \<and>
    (\<forall>x \<in> set xs. \<exists>d. hdrs h' (snd x) = Some d \<and> unat (hdr_dsts d) = length (mdc_addr d) \<and>
      2 \<le> length (mdc_addr d) \<and> length (mdc_addr d) \<le> min (max_addrs ex_args) 32 \<and>
      get_mdc_hdr_size 1 + 12 + get_mdc_hdr_size (length (mdc_addr d)) \<le>
        tx_room (init_tx (max_addrs ex_args) 1500))"
  by (rule grouping_headers_fit [OF ex_topo ex_hops(3) ex_args_ok(3)])


section \<open>Responses\<close>

text \<open>
  C11: A response is learnt. A well-formed response about a known receiver, from a router that is
  new, outside the tree or in it at the distance it answers with, leaves a well-formed topology in
  which the router is at that distance, on the path from the sender to the receiver, and found
  under its address in the table; no receiver is lost.
\<close>

theorem response_learnt:
  assumes J: "judy_hs J" and T: "topo_ok h V root" "hops_mono h V root" "table_ok J t h"
    and w: "rsp_wellformed d" "mdc_addr (dg_hdr d) = a # as"
    and l: "jhsg J t a = Some l" "leafs h l \<noteq> None"
    and mem: "jhsi J t (sin6_addr (dg_src d)) = Some t1"
    and C: "rsp_consistent J t h root (sin6_addr (dg_src d)) (unat (ucast (hdr_hops (dg_hdr d)) :: uint8))"
  shows "\<exists>n' h' t' V' r. rx_dcvr J d n h t = Some (0, n', h', t') \<and>
    learnt J h h' t' V' root (sin6_addr (dg_src d)) (unat (ucast (hdr_hops (dg_hdr d)) :: uint8)) r l"
proof -
  obtain n' h' t' V' r where
    "update_topo J (dg_src d) a (ucast (hdr_hops (dg_hdr d))) n h t = Some (0, n', h', t')"
    "learnt J h h' t' V' root (sin6_addr (dg_src d)) (unat (ucast (hdr_hops (dg_hdr d)) :: uint8)) r l"
    using update_topo_learns [OF J T l mem C, of n] by blast
  with rx_dcvr_wellformed [OF w this(1)] show ?thesis by blast
qed

lemma response_learnt_witness:
  "\<exists>n' h' t' V' r. rx_dcvr alist_judy ex_dgram 0 ex_heap ex_table = Some (0, n', h', t') \<and>
    learnt alist_judy ex_heap h' t' V' 1 (sin6_addr (dg_src ex_dgram))
      (unat (ucast (hdr_hops (dg_hdr ex_dgram)) :: uint8)) r 5"
proof (rule response_learnt [OF alist.judy_hs_axioms ex_topo ex_hops(1) ex_table_ok ex_wellformed])
  show "mdc_addr (dg_hdr ex_dgram) = 105 # []" by (simp add: ex_dgram_def)
  show "jhsg alist_judy ex_table 105 = Some 5" "leafs ex_heap 5 \<noteq> None" by (simp_all add: ex_jhsg ex_leafs)
  show "jhsi alist_judy ex_table (sin6_addr (dg_src ex_dgram)) = Some ((106, 0) # ex_table)"
    by (simp add: alist_judy_def ex_table_def ex_dgram_def ex_sa_def)
  show "rsp_consistent alist_judy ex_table ex_heap 1 (sin6_addr (dg_src ex_dgram))
      (unat (ucast (hdr_hops (dg_hdr ex_dgram)) :: uint8))"
    by (simp add: rsp_consistent_def ex_jhsg ex_dgram_def ex_sa_def)
qed

text \<open>
  C12: A response is refused in four cases: it is about an unknown address, or about one that is a
  router's, it comes from an address that is a receiver's, or the table has no memory left. Then
  update_topo fails, and the tree, the counter and the content of the table are what they were.
\<close>

theorem response_refused:
  assumes "judy_hs J" and "node_ok h" and "table_ok J t h"
    and "jhsg J t paddr = None \<or> (\<exists>v. jhsg J t paddr = Some v \<and> leafs h v = None) \<or>
      jhsi J t (sin6_addr rsa) = None \<or>
      (\<exists>v. jhsg J t (sin6_addr rsa) = Some v \<and> leafs h v \<noteq> None)"
  shows "\<exists>t'. update_topo J rsa paddr hops n h t = Some (- 1, n, h, t') \<and> jhsg J t' = jhsg J t"
  by (rule update_topo_refuses [OF assms])

lemma response_refused_witness:
  "\<exists>t'. update_topo alist_judy (ex_sa 103) 105 1 0 ex_heap ex_table = Some (- 1, 0, ex_heap, t') \<and>
    jhsg alist_judy t' = jhsg alist_judy ex_table"
  by (rule response_refused [OF alist.judy_hs_axioms ex_node_ok ex_table_ok])
    (simp add: ex_jhsg ex_leafs ex_sa_def)

text \<open>
  C13: A datagram that is not a well-formed response, of any length, and a failed read of the
  socket, change nothing. The function returns -1, but for an empty datagram, for which it returns 0.
\<close>

theorem malformed_ignored:
  assumes "- 1 \<le> dg_ret d" and "dg_ret d < 2 ^ 63" and "\<not> rsp_wellformed d"
  shows "rx_dcvr J d n h t = Some (if dg_ret d = 0 then 0 else - 1, n, h, t)"
  by (rule rx_dcvr_malformed [OF assms])

lemma malformed_ignored_witness:
  "rx_dcvr alist_judy (ex_dgram\<lparr>dg_ret := 33\<rparr>) 0 ex_heap ex_table = Some (- 1, 0, ex_heap, ex_table) \<and>
   rx_dcvr alist_judy (ex_dgram\<lparr>dg_ret := 0\<rparr>) 0 ex_heap ex_table = Some (0, 0, ex_heap, ex_table)"
  using malformed_ignored [of "ex_dgram\<lparr>dg_ret := 33\<rparr>" alist_judy 0 ex_heap ex_table]
    malformed_ignored [of "ex_dgram\<lparr>dg_ret := 0\<rparr>" alist_judy 0 ex_heap ex_table]
  by (simp add: rsp_wellformed_def get_mdc_hdr_size_eq)

section \<open>The topology\<close>

text \<open>
  C14: Thinning the tree ends, keeps the topology and the table well formed and every receiver, and
  leaves below the sender only routers with enough child routers or enough receivers.
\<close>

theorem thinning:
  assumes "judy_hs J" and "topo_ok h V root" and "hops_mono h V root" and "table_ok J t h"
  shows "\<exists>h' t' V'. reduce_tree J A root h t = Some (h', t') \<and>
    topo_ok h' V' root \<and> hops_mono h' V' root \<and> table_ok J t' h' \<and> ldata h' = ldata h \<and>
    (\<forall>(p, x) \<in> kid_edges V'. min_routers A \<le> length (V' (Kid, x)) \<or> min_leafs A \<le> length (V' (Leaf, x)))"
  using reduce_tree_ok [OF assms(1), of True h V root t A] assms(2-4)
  unfolding disc_inv_def enough_def by blast

lemma thinning_witness:
  "\<exists>h' t' V'. reduce_tree alist_judy ex_args 1 ex_heap ex_table = Some (h', t') \<and>
    topo_ok h' V' 1 \<and> hops_mono h' V' 1 \<and> table_ok alist_judy t' h' \<and> ldata h' = ldata ex_heap \<and>
    (\<forall>(p, x) \<in> kid_edges V'. min_routers ex_args \<le> length (V' (Kid, x)) \<or>
      min_leafs ex_args \<le> length (V' (Leaf, x)))"
  by (rule thinning [OF alist.judy_hs_axioms ex_topo ex_hops(1) ex_table_ok])

text \<open>
  C15: The reset after a grouping ends, whatever the grouping left in the counters. Afterwards every
  receiver is the sender's own, every other router is outside the tree with empty lists, those that
  were in the tree have lost their distance, and all counters fit the lists; no address changes.
\<close>

theorem reset_flattens:
  assumes "tree_ok h V root" and "hops_at h root = 0"
  shows "\<exists>h' V'. rec_reset_tree root root h = Some h' \<and> topo_ok h' V' root \<and> hops_mono h' V' root \<and>
    ldata h' = ldata h \<and> raddrs h' = raddrs h \<and>
    snd ` set (V' (Leaf, root)) = {l. leafs h l \<noteq> None} \<and>
    (\<forall>k q. (k, q) \<noteq> (Leaf, root) \<longrightarrow> V' (k, q) = []) \<and>
    (\<forall>q. q \<noteq> root \<and> routers h q \<noteq> None \<longrightarrow> par h' q = NULL) \<and>
    (\<forall>q. q \<noteq> root \<and> attached h root q \<longrightarrow> hops_at h' q = 0)"
  by (rule rec_reset_tree_ok [OF assms])

lemma reset_flattens_witness:
  "\<exists>h' V'. rec_reset_tree 1 1 ex_heap = Some h' \<and> topo_ok h' V' 1 \<and> hops_mono h' V' 1 \<and>
    ldata h' = ldata ex_heap \<and> raddrs h' = raddrs ex_heap \<and>
    snd ` set (V' (Leaf, 1)) = {l. leafs ex_heap l \<noteq> None} \<and>
    (\<forall>k q. (k, q) \<noteq> (Leaf, 1) \<longrightarrow> V' (k, q) = []) \<and>
    (\<forall>q. q \<noteq> 1 \<and> routers ex_heap q \<noteq> None \<longrightarrow> par h' q = NULL) \<and>
    (\<forall>q. q \<noteq> 1 \<and> attached ex_heap 1 q \<longrightarrow> hops_at h' q = 0)"
proof (rule reset_flattens)
  show "tree_ok ex_heap ex_view 1" using ex_topo by (simp add: topo_tree_ok)
  show "hops_at ex_heap 1 = 0" by (simp add: ex_hops_at)
qed

text \<open>
  C16: Moving a node below another router refines the update of the two lists, and keeps the tree a
  tree as long as a router only moves below one that is nearer to the sender.
\<close>

theorem adopting:
  assumes "topo_ok h V root" and "hops_mono h V root" and "(c, n) \<in> set (V (k, q))"
    and "attached h root p" and "k = Kid \<Longrightarrow> hops_at h p < hops_at h n"
  shows "\<exists>h'. adopt p c h = Some (0, h') \<and> topo_ok h' (view_add k p (c, n) (view_rm k q n V)) root \<and>
    hops_mono h' (view_add k p (c, n) (view_rm k q n V)) root \<and> same_data h h' \<and> par h' = (par h)(n := p)"
  using adopt_topo [OF assms] by blast

lemma adopting_witness:
  "\<exists>h'. adopt 1 10 ex_heap = Some (0, h') \<and>
    topo_ok h' (view_add Leaf 1 (10, 3) (view_rm Leaf 2 3 ex_view)) 1 \<and>
    hops_mono h' (view_add Leaf 1 (10, 3) (view_rm Leaf 2 3 ex_view)) 1 \<and> same_data ex_heap h' \<and>
    par h' = (par ex_heap)(3 := 1)"
  by (rule adopting [OF ex_topo ex_hops(1)]) (simp_all add: ex_view_def attached_def ex_routers)

text \<open>
  C17: Inserting a router above a node refines the update of the lists: the new router takes the
  node's place in the tree and has it as its only child.
\<close>

theorem inserting:
  assumes "repr h V" and "(c, n) \<in> set (V (k, p))" and "all_free h V"
  shows "\<exists>h'. insert_router sa c h = Some (brk h, h') \<and>
    repr h' (view_insert k c n p (Suc (brk h)) (brk h) V) \<and>
    all_free h' (view_insert k c n p (Suc (brk h)) (brk h) V) \<and>
    rdata h' = (rdata h)(brk h \<mapsto> (sa, 0)) \<and> ldata h' = ldata h \<and>
    par h' = (par h)(brk h := p, n := brk h)"
  using insert_router_ok [OF assms(1,2), of sa] assms(3) by blast

lemma inserting_witness:
  "\<exists>h'. insert_router (ex_sa 106) 12 ex_heap = Some (brk ex_heap, h') \<and>
    repr h' (view_insert Leaf 12 5 1 (Suc (brk ex_heap)) (brk ex_heap) ex_view) \<and>
    all_free h' (view_insert Leaf 12 5 1 (Suc (brk ex_heap)) (brk ex_heap) ex_view) \<and>
    rdata h' = (rdata ex_heap)(brk ex_heap \<mapsto> (ex_sa 106, 0)) \<and> ldata h' = ldata ex_heap \<and>
    par h' = (par ex_heap)(brk ex_heap := 1, 5 := brk ex_heap)"
  by (rule inserting [OF ex_repr]) (use topo_free [OF ex_topo] in \<open>simp_all add: ex_view_def\<close>)

text \<open>
  C18: Cutting a router out refines the update of the lists: its parent takes both of its lists over,
  in front of its own, with the right counters; the router and its address are gone.
\<close>

theorem cutting:
  assumes "judy_hs J" and "repr h V" and "all_free h V" and "(p, r) \<in> kid_edges V" and "(r, p) \<notin> kid_edges V"
  shows "\<exists>h' t'. cut_router J r h t = Some (0, h', t') \<and> repr h' (view_cut r p V) \<and>
    all_free h' (view_cut r p V) \<and> rdata h' = (rdata h)(r := None) \<and> ldata h' = ldata h \<and>
    (\<forall>v. par h' v = (if v = r then NULL
       else if v \<in> snd ` set (V (Kid, r)) \<union> snd ` set (V (Leaf, r)) then p else par h v)) \<and>
    (\<exists>sa hops. rdata h r = Some (sa, hops) \<and> jhsg J t' = (jhsg J t)(sin6_addr sa := None))"
  using cut_router_ok [OF assms(1,2,4,5), of t] assms(3) judy_hs.jhsg_jhsd_fun [OF assms(1), of t] by metis

lemma cutting_witness:
  "\<exists>h' t'. cut_router alist_judy 2 ex_heap ex_table = Some (0, h', t') \<and> repr h' (view_cut 2 1 ex_view) \<and>
    all_free h' (view_cut 2 1 ex_view) \<and> rdata h' = (rdata ex_heap)(2 := None) \<and> ldata h' = ldata ex_heap \<and>
    (\<forall>v. par h' v = (if v = 2 then NULL
       else if v \<in> snd ` set (ex_view (Kid, 2)) \<union> snd ` set (ex_view (Leaf, 2)) then 1 else par ex_heap v)) \<and>
    (\<exists>sa hops. rdata ex_heap 2 = Some (sa, hops) \<and>
      jhsg alist_judy t' = (jhsg alist_judy ex_table)(sin6_addr sa := None))"
  by (rule cutting [OF alist.judy_hs_axioms ex_repr topo_free [OF ex_topo]]) (simp_all add: ex_edges)



section \<open>The group of receivers\<close>

text \<open>
  C19: A new receiver joins: it is a new leaf with the address and the port, the head of the receiver
  list, which has one element more, and found under its address; the other receivers are what they
  were, and the group stays well formed.
\<close>

theorem receiver_joins:
  assumes "judy_hs J" and "group_ok J g h V" and "jhsg J (g_ht g) a = None"
    and "jhsi J (g_ht g) a = Some t1"
  shows "\<exists>g' h' V'. join J a port g h = Some (0, g', h') \<and> group_ok J g' h' V' \<and>
    g_root g' = g_root g \<and> g_nrcvr g' = g_nrcvr g + 1 \<and> addr_of h' (g_rcvr g') = Some a \<and>
    jhsg J (g_ht g') = (jhsg J (g_ht g))(a \<mapsto> g_rcvr g') \<and> leafs h (g_rcvr g') = None \<and>
    ldata h' = (ldata h)(g_rcvr g' \<mapsto> new_rcvr a port (g_rcvr g))"
  using join_new [OF assms, of port] by blast

lemma receiver_joins_witness:
  "\<exists>g' h' V'. join alist_judy 107 9 ex_group ex_heap = Some (0, g', h') \<and> group_ok alist_judy g' h' V' \<and>
    g_root g' = g_root ex_group \<and> g_nrcvr g' = g_nrcvr ex_group + 1 \<and> addr_of h' (g_rcvr g') = Some 107 \<and>
    jhsg alist_judy (g_ht g') = (jhsg alist_judy (g_ht ex_group))(107 \<mapsto> g_rcvr g') \<and>
    leafs ex_heap (g_rcvr g') = None \<and>
    ldata h' = (ldata ex_heap)(g_rcvr g' \<mapsto> new_rcvr 107 9 (g_rcvr ex_group))"
proof (rule receiver_joins [OF alist.judy_hs_axioms ex_group_ok])
  show "jhsg alist_judy (g_ht ex_group) 107 = None" by (simp add: ex_group_def ex_jhsg)
  show "jhsi alist_judy (g_ht ex_group) 107 = Some ((107, 0) # ex_table)"
    by (simp add: ex_group_def ex_table_def alist_judy_def)
qed

text \<open>
  C20: A known address does not join, nor does any when the table has no memory left: the tree, the
  receiver list and the content of the table stay as they are.
\<close>

theorem receiver_refused:
  assumes J: "judy_hs J" and G: "group_ok J g h V"
    and bad: "jhsg J (g_ht g) a \<noteq> None \<or> jhsi J (g_ht g) a = None"
  shows "\<exists>t'. join J a port g h = Some (- 1, g\<lparr>g_ht := t'\<rparr>, h) \<and> jhsg J t' = jhsg J (g_ht g)"
proof (cases "jhsi J (g_ht g) a")
  case None
  then show ?thesis using join_no_memory [OF J G None] by (intro exI [of _ "g_ht g"]) simp
next
  case (Some t1)
  then obtain v where "jhsg J (g_ht g) a = Some v" using bad by auto
  from join_known [OF J G this] show ?thesis .
qed

lemma receiver_refused_witness:
  "\<exists>t'. join alist_judy 104 9 ex_group ex_heap = Some (- 1, ex_group\<lparr>g_ht := t'\<rparr>, ex_heap) \<and>
    jhsg alist_judy t' = jhsg alist_judy (g_ht ex_group)"
  by (rule receiver_refused [OF alist.judy_hs_axioms ex_group_ok]) (simp add: ex_group_def ex_jhsg)

section \<open>Sending\<close>

text \<open>
  C21: The start of a discovery phase sends every receiver one request, up to the first error of
  sendto, each with the receiver's address and the receiver as its destination; then the timer
  that ends the phase is armed, and the other one is not.
\<close>

theorem requests_sent:
  assumes "conf_ok c" and "dx_ok J c st" and "1 \<le> rd" and "mdc_addr txbuf \<noteq> []"
  shows "\<exists>ls tm'. distinct ls \<and> set ls = dom (leafs (dx_h st)) \<and>
    tint_handler rd res txbuf c st = Some (0,
      map (dcvr_packet_of (dx_h st) (fst (set_dcvr_hdr txbuf)) 32) (take (fst (sends res 0 (length ls))) ls),
      st\<lparr>dx_tm := tm'\<rparr>) \<and>
    dx_ok J c (st\<lparr>dx_tm := tm'\<rparr>) \<and> armed tm' (tout_fd c)"
  by (rule tint_handler_ok [OF assms])

lemma requests_sent_witness:
  "\<exists>ls tm'. distinct ls \<and> set ls = dom (leafs (dx_h ex_dx)) \<and>
    tint_handler 8 (\<lambda>i. if i = 1 then - 1 else 32) (zero_hdr 1) ex_conf ex_dx = Some (0,
      map (dcvr_packet_of (dx_h ex_dx) (fst (set_dcvr_hdr (zero_hdr 1))) 32)
        (take (fst (sends (\<lambda>i. if i = 1 then - 1 else 32) 0 (length ls))) ls),
      ex_dx\<lparr>dx_tm := tm'\<rparr>) \<and>
    dx_ok alist_judy ex_conf (ex_dx\<lparr>dx_tm := tm'\<rparr>) \<and> armed tm' (tout_fd ex_conf)"
  by (rule requests_sent [OF ex_conf_ok ex_dx_ok]) (simp_all add: zero_hdr_def)

text \<open>
  C22: Unicast delivery: up to the first error of sendto, the receivers of the group's array get one
  packet each, in order, addressed to them, with their port and a right checksum if it is UDP, and
  otherwise with the payload as it was read.
\<close>

theorem unicast_delivery:
  assumes "1 \<le> fd" and "txg_uni g = us" and "txg_nuni g = length us"
    and "if ip_nexthdr ip = IPPROTO_UDP then udp_len_ok pl plen else plen \<le> length pl"
  shows "\<exists>ps pl'. tx_uni res fd (Some g) ip pl (40 + plen) =
      Some (snd (sends res 0 (length us)), ps, pl') \<and> udp_like pl pl' \<and>
    list_all2 (uni_packet_ok ip pl plen) (take (fst (sends res 0 (length us))) us) ps"
  by (rule tx_uni_ok [OF assms])

lemma unicast_delivery_witness:
  "\<exists>ps pl'. tx_uni (\<lambda>i. if i = 1 then - 1 else 50) 7
      (Some \<lparr>txg_mdc = 0, txg_nuni = length (rcvr_addrs ex_heap [3, 4, 5]), txg_uni = rcvr_addrs ex_heap [3, 4, 5]\<rparr>)
      ex_ip ex_payload (40 + 10) =
      Some (snd (sends (\<lambda>i. if i = 1 then - 1 else 50) 0 (length (rcvr_addrs ex_heap [3, 4, 5]))), ps, pl') \<and>
    udp_like ex_payload pl' \<and>
    list_all2 (uni_packet_ok ex_ip ex_payload 10)
      (take (fst (sends (\<lambda>i. if i = 1 then - 1 else 50) 0 (length (rcvr_addrs ex_heap [3, 4, 5]))))
        (rcvr_addrs ex_heap [3, 4, 5])) ps"
  by (rule unicast_delivery) (simp_all add: ex_payload_ok ex_ip_def IPPROTO_UDP_def)

text \<open>
  C23: MEADcast delivery: up to the first error of sendto, every header of the group's list goes out
  once, in order and unchanged, in front of the payload, to the first receiver it lists, with a
  checksum that is right for that receiver.
\<close>

theorem mdc_delivery:
  assumes "1 \<le> fd" and "chain (cells h) (txg_mdc g) xs"
    and "list_all2 (\<lambda>x d. hdrs h (snd x) = Some d \<and> mdc_sendable room d) xs ds"
    and "udp_len_ok pl plen"
  shows "\<exists>ps pl'. tx_mdc res room bia fd (Some g) pl plen h =
      Some (snd (sends res 0 (length ds)), ps, pl') \<and>
    list_all2 (mdc_packet_ok bia pl plen) (take (fst (sends res 0 (length ds))) ds) ps"
  by (rule tx_mdc_ok [OF assms])

lemma mdc_delivery_witness:
  "\<exists>h d. d = set_data_hdr [102, 103, 104] 3 (push_bit 31 1) \<and>
    (\<exists>ps pl'. tx_mdc (\<lambda>_. 100) 220 101 8 (Some \<lparr>txg_mdc = 21, txg_nuni = 0, txg_uni = []\<rparr>) ex_payload 10 h =
      Some (snd (sends (\<lambda>_. 100) 0 (length [d])), ps, pl') \<and>
    list_all2 (mdc_packet_ok 101 ex_payload 10) (take (fst (sends (\<lambda>_. 100) 0 (length [d]))) [d]) ps)"
proof -
  define d where "d = set_data_hdr [102, 103, 104] 3 (push_bit 31 1)"
  define h where "h = ex_heap\<lparr>cells := (cells ex_heap)(21 \<mapsto> \<lparr>child_v = 20, child_n = 0\<rparr>), hdrs := [20 \<mapsto> d]\<rparr>"
  have "\<exists>ps pl'. tx_mdc (\<lambda>_. 100) 220 101 8 (Some \<lparr>txg_mdc = 21, txg_nuni = 0, txg_uni = []\<rparr>) ex_payload 10 h =
      Some (snd (sends (\<lambda>_. 100) 0 (length [d])), ps, pl') \<and>
    list_all2 (mdc_packet_ok 101 ex_payload 10) (take (fst (sends (\<lambda>_. 100) 0 (length [d]))) [d]) ps"
    by (rule mdc_delivery [where xs = "[(21, 20)]"])
      (simp_all add: ex_payload_ok mdc_sendable_def hdr_simps d_def h_def)
  then show ?thesis using d_def by blast
qed

section \<open>Checksums and headers\<close>

text \<open>
  C24: The checksum checks. Stored at an even offset of a segment in which these two bytes were zero,
  it makes the checksum of the segment zero, which is how a receiver verifies it.
\<close>

theorem checksum_verifies:
  assumes "unat len \<le> length buf" and "16 \<le> length src" and "16 \<le> length dst"
    and "even i" and "i + 1 < unat len" and "buf ! i = 0" and "buf ! (i + 1) = 0"
    and "net_checksum_tcpudp len 0 proto src dst buf = Some c"
  shows "net_checksum_tcpudp len 0 proto src dst (store16 i c buf) = Some 0"
  by (rule checksum_checks [OF assms])

lemma checksum_verifies_witness:
  "net_checksum_tcpudp 10 0 17 (in6_bytes 1) (in6_bytes 2)
    (store16 6 (net_checksum_finish (word_of_nat (segment_sum 10 17 (in6_bytes 1) (in6_bytes 2) ex_payload)))
      ex_payload) = Some 0"
proof (rule checksum_verifies)
  show "net_checksum_tcpudp 10 0 17 (in6_bytes 1) (in6_bytes 2) ex_payload =
      Some (net_checksum_finish (word_of_nat (segment_sum 10 17 (in6_bytes 1) (in6_bytes 2) ex_payload)))"
    by (rule net_checksum_tcpudp_sum) (simp_all add: ex_payload_def)
qed (simp_all add: ex_payload_def)

text \<open>
  C25: The checksum is the complement of the ones' complement sum: without any 32-bit overflow, it is
  65535 minus the remainder modulo 65535 of the sum of all 16-bit words, where a remainder of 0 is
  represented by 65535, unless the sum itself is 0.
\<close>

theorem checksum_is_ones_complement:
  assumes "unat len \<le> length buf" and "16 \<le> length src" and "16 \<le> length dst"
  shows "\<exists>r. map_option unat (net_checksum_tcpudp len 0 proto src dst buf) = Some (65535 - r) \<and> r \<le> 65535 \<and>
    r mod 65535 = segment_sum len proto src dst buf mod 65535 \<and>
    (r = 0 \<longleftrightarrow> segment_sum len proto src dst buf = 0)"
proof -
  have "segment_sum len proto src dst buf < 2 ^ 32" using segment_sum_bound [of len proto src dst buf] by simp
  then show ?thesis using finish_sum net_checksum_tcpudp_sum [OF assms, of proto] by simp
qed

lemma checksum_is_ones_complement_witness:
  "\<exists>r. map_option unat (net_checksum_tcpudp 10 0 17 (in6_bytes 1) (in6_bytes 2) ex_payload) = Some (65535 - r) \<and>
    r \<le> 65535 \<and> r mod 65535 = segment_sum 10 17 (in6_bytes 1) (in6_bytes 2) ex_payload mod 65535 \<and>
    (r = 0 \<longleftrightarrow> segment_sum 10 17 (in6_bytes 1) (in6_bytes 2) ex_payload = 0)"
  by (rule checksum_is_ones_complement) (simp_all add: ex_payload_def)

section \<open>From the command line to the threads\<close>

text \<open>
  C26: The program starts or ends with an error. Suppose that the numbers on the command line are ints and
  the intervals positive; that at most one peer is named, or else that malloc happens to leave null in the
  member n of the later peers, which C does not promise and without which main is undefined; that
  getifaddrs succeeds; and that the descriptor 0 is in use, so that opening the TUN device, the third
  system call, does not return it. Then main is defined and either exits with status 1, as when the table has no
  memory for a peer or a call fails, or its threads run. In that case the command line was acceptable, its
  peers are the receivers, all different and none the sender's own address, in an otherwise empty well-formed
  group, the first transmission group serves them by unicast, and whenever the discovery
  thread reaches its loop, with two different timers, it does so in a state from which the loop is safe.
\<close>

theorem program_starts:
  assumes "judy_hs J" and "\<forall>c \<in> set cs. call_defined c \<and> fst c \<noteq> ARGP_KEY_END"
    and pos: "\<forall>c \<in> set cs. positive_time c"
    and "length (peers_of pton cs) \<le> 1 \<or> (\<forall>p. junk p = NULL)"
    and "if_ret T = 0" and "os_ret os 2 \<noteq> 0"
  shows "\<exists>r. main J pton junk os T (cs @ [(ARGP_KEY_END, x, y)]) = Some r \<and>
    (case r of
       Inl e \<Rightarrow> e = 1
     | Inr rt \<Rightarrow> line_ok pton cs \<and>
         (\<exists>A ps g h V. init_args pton junk (cs @ [(ARGP_KEY_END, x, y)]) = Some (Inr (A, ps)) \<and> args_ok A \<and>
           distinct (baddr A # peers_of pton cs) \<and>
           members J g h V (baddr A) (pport A) (peers_of pton cs) \<and> started_ok A g h rt \<and>
           (\<forall>os' tm s c tm' s'. start_dx os' (fd_mdc (rt_fds rt)) (dcvr_tout A) (dcvr_int A) tm s = (Inr (c, tm'), s') \<longrightarrow>
             tint_fd c \<noteq> tout_fd c \<longrightarrow> conf_ok c \<and> dx_ok J c (dx_start rt tm'))))"
proof -
  let ?cs = "cs @ [(ARGP_KEY_END, x, y)]"
  from sender_starts [OF assms(1,2,4-6), of x y] obtain r where
    r: "main J pton junk os T ?cs = Some r" "case r of Inl e \<Rightarrow> e = 1 | Inr rt \<Rightarrow> line_ok pton cs \<and>
      (\<exists>A ps g h V. init_args pton junk ?cs = Some (Inr (A, ps)) \<and> args_bounded A \<and>
        distinct (baddr A # peers_of pton cs) \<and>
        members J g h V (baddr A) (pport A) (peers_of pton cs) \<and> started_ok A g h rt)" by blast
  show ?thesis
  proof (cases r)
    case (Inr rt)
    with r(2) obtain A ps g h V where A: "line_ok pton cs" "init_args pton junk ?cs = Some (Inr (A, ps))"
      "args_bounded A" "distinct (baddr A # peers_of pton cs)"
      "members J g h V (baddr A) (pport A) (peers_of pton cs)" "started_ok A g h rt" by (auto simp del: distinct.simps)
    have "\<forall>c \<in> set ?cs. positive_time c" using pos by simp
    then have T: "times_ok A" by (rule init_args_times [OF _ A(2)])
    have "conf_ok c \<and> dx_ok J c (dx_start rt tm')"
      if "start_dx os' (fd_mdc (rt_fds rt)) (dcvr_tout A) (dcvr_int A) tm s = (Inr (c, tm'), s')" "tint_fd c \<noteq> tout_fd c"
      for os' tm s c tm' s'
      using start_dx_ok [OF T that] started_dx_ok [OF A(5,6)] by blast
    then have "\<exists>A ps g h V. init_args pton junk ?cs = Some (Inr (A, ps)) \<and> args_ok A \<and>
        distinct (baddr A # peers_of pton cs) \<and>
        members J g h V (baddr A) (pport A) (peers_of pton cs) \<and> started_ok A g h rt \<and>
        (\<forall>os' tm s c tm' s'. start_dx os' (fd_mdc (rt_fds rt)) (dcvr_tout A) (dcvr_int A) tm s = (Inr (c, tm'), s') \<longrightarrow>
          tint_fd c \<noteq> tout_fd c \<longrightarrow> conf_ok c \<and> dx_ok J c (dx_start rt tm'))"
      using A(2,4-6) bounded_args_ok [OF A(3)]
      by (intro exI [of _ A] exI [of _ ps] exI [of _ g] exI [of _ h] exI [of _ V]) blast
    then show ?thesis using r(1) Inr A(1) by simp
  qed (use r in auto)
qed

lemma program_starts_witness:
  "(\<exists>r. main alist_judy ex_pton (\<lambda>_. 7) ex_os ex_threads (ex_single @ [(ARGP_KEY_END, [], ex_parser)]) = Some r \<and>
    (case r of Inl e \<Rightarrow> e = 1 | Inr rt \<Rightarrow> line_ok ex_pton ex_single)) \<and>
   (\<exists>r. main alist_judy ex_pton (\<lambda>_. NULL) ex_os ex_threads (ex_line @ [(ARGP_KEY_END, [], ex_parser)]) = Some r \<and>
    (case r of Inl e \<Rightarrow> e = 1 | Inr rt \<Rightarrow> line_ok ex_pton ex_line))"
proof -
  have s: "length (peers_of ex_pton ex_single) \<le> 1 \<or> (\<forall>p. (\<lambda>_. 7 :: ptr) p = NULL)" by (simp add: ex_single_ok)
  have l: "length (peers_of ex_pton ex_line) \<le> 1 \<or> (\<forall>p. (\<lambda>_. NULL) p = NULL)" by simp
  show ?thesis
    using program_starts [OF alist.judy_hs_axioms ex_single_ok(1,2) s ex_system, of "[]" ex_parser]
      program_starts [OF alist.judy_hs_axioms ex_line_defined ex_line_times l ex_system, of "[]" ex_parser]
    by (fastforce split: sum.splits)
qed

text \<open>
  C27: The parser accepts a command line whose numbers are ints if and only if every argument is in its
  range, there is an interface to bind to and a peer: then the arguments are within the bounds that the
  other components rely on, and the peers are in the order of the command line. Otherwise the program
  exits with status 1. This is so if the command line names at most one peer, whatever malloc leaves in its
  memory; for more peers malloc has to leave null in the member n of theirs, which C does not promise.
\<close>

theorem arguments_parsed:
  assumes "\<forall>c \<in> set cs. call_defined c \<and> fst c \<noteq> ARGP_KEY_END"
    and "length (peers_of pton cs) \<le> 1 \<or> (\<forall>p. junk p = NULL)"
  shows "if line_ok pton cs
    then \<exists>A ps. init_args pton junk (cs @ [(ARGP_KEY_END, s, st)]) = Some (Inr (A, ps)) \<and>
      args_bounded A \<and> peers_ok A ps (peers_of pton cs)
    else init_args pton junk (cs @ [(ARGP_KEY_END, s, st)]) = Some (Inl 1)"
  by (rule init_args_accepts [OF assms])

lemma arguments_parsed_witness:
  "(\<exists>A ps. init_args ex_pton (\<lambda>_. NULL) (ex_line @ [(ARGP_KEY_END, [], ex_parser)]) = Some (Inr (A, ps)) \<and>
      args_bounded A \<and> peers_ok A ps [3, 4]) \<and>
   (\<exists>A ps. init_args ex_pton (\<lambda>_. 7) (ex_single @ [(ARGP_KEY_END, [], ex_parser)]) = Some (Inr (A, ps)) \<and>
      args_bounded A \<and> peers_ok A ps [3]) \<and>
    init_args ex_pton (\<lambda>_. 7) [(ARGP_KEY_END, [], ex_parser)] = Some (Inl 1)"
  using arguments_parsed [OF ex_line_defined, of ex_pton "\<lambda>_. NULL" "[]" ex_parser]
    arguments_parsed [OF ex_single_ok(1), of ex_pton "\<lambda>_. 7" "[]" ex_parser]
    arguments_parsed [of "[]" ex_pton "\<lambda>_. 7" "[]" ex_parser] ex_line_ok ex_single_ok(3,4) by (simp add: line_ok_def)




section \<open>Waiting for traffic\<close>

text \<open>
  C29: With the option to wait, nothing is sent before the first IPv6 packet to the address of the TUN
  device; this packet signals the discovery thread, and it and all IPv6 packets behind it are
  sent in order.
\<close>

theorem first_packet_starts:
  assumes "dcvr_wait A" and "1 \<le> ta_tun ta" and "1 \<le> ta_ip6 ta"
    and "\<And>x. x \<in> set ys \<Longrightarrow> read_ok (fst x) \<and> \<not> first_input A (fst x)"
    and "first_input A (fst y)" and "\<And>x. x \<in> set (ipv6_reads (y # zs)) \<Longrightarrow> tx_read b bia ta x \<noteq> None"
  shows "tx_loop A b bia ta ys = Some ([], False, False) \<and>
    tx_loop A b bia ta (ys @ y # zs) = Some (map (\<lambda>x. the (tx_read b bia ta x)) (ipv6_reads (y # zs)), True,
      \<not> (\<forall>x \<in> set zs. read_ok (fst x)))"
  using tx_loop_waiting [OF assms(1-4)] assms(5,6) by blast

lemma first_packet_starts_witness:
  "\<exists>ps. tx_loop (ex_args\<lparr>dcvr_wait := True\<rparr>) (init_tx 10 1500) 101 \<lparr>ta_tun = 3, ta_mdc = 8, ta_ip6 = 7\<rparr>
      [(ex_read\<lparr>tr_proto := 0x800\<rparr>, ex_env), (ex_read, ex_env)] = Some ([ps], True, False)"
proof -
  let ?A = "ex_args\<lparr>dcvr_wait := True\<rparr>" and ?ta = "\<lparr>ta_tun = 3, ta_mdc = 8, ta_ip6 = 7\<rparr>"
  have "tx_read (init_tx (max_addrs ex_args) 1500) 101 ?ta (ex_read, ex_env) \<noteq> None"
    using tx_read_delivers [OF _ _ ex_env_ok ex_read_ok(1), of ?ta 1500 101] by auto
  then show ?thesis
    using first_packet_starts [of ?A ?ta "[(ex_read\<lparr>tr_proto := 0x800\<rparr>, ex_env)]" "(ex_read, ex_env)" "[]" "init_tx 10 1500" 101]
      ex_read_ok by (simp add: ex_args_def first_input_def read_ok_def is_ipv6_def ETH_P_IPV6_def)
qed

text \<open>
  C30: The discovery thread that waits starts if and only if the wait returns spuriously, or the first reading of the
  sending thread that is not passed over is an IPv6 packet to the address of the TUN device and comes
  when the discovery thread already waits: before it only packets of other protocols and to other addresses
  have been read. In these runs the sending thread is in its initial wait exactly as long as the code of
  wait_init_input is on the same readings, where what it sends is defined, and a start without a spurious return has been signalled by that code.
\<close>

theorem discovery_waits:
  assumes "wait_run A as (t, d)"
  shows "(d = Dx_started \<longleftrightarrow> Spurious \<in> set as \<or>
      (\<exists>bs r cs. as = bs @ Read r # cs \<and> Block \<in> set bs \<and>
        (\<forall>q. Read q \<in> set bs \<longrightarrow> 1 \<le> tr_ret q \<and> \<not> (tr_proto q = ETH_P_IPV6 \<and> ip_daddr (tr_ip q) = taddr A)) \<and>
        1 \<le> tr_ret r \<and> tr_proto r = ETH_P_IPV6 \<and> ip_daddr (tr_ip r) = taddr A)) \<and>
    (\<forall>b bia ta (xs :: (tun_read \<times> 't tx_env) list) ps sg rest.
      map fst xs = reads as \<and> wait_init_input A b bia ta xs = Some (ps, sg, rest) \<longrightarrow>
        (t = Tx_waiting \<longleftrightarrow> rest = None) \<and> (d = Dx_started \<longrightarrow> Spurious \<in> set as \<or> sg))"
proof (rule conjI)
  have "d = Dx_started \<longleftrightarrow> Spurious \<in> set as \<or> signalled A as"
    using wait_run_state [OF assms] by simp
  then show "d = Dx_started \<longleftrightarrow> Spurious \<in> set as \<or>
      (\<exists>bs r cs. as = bs @ Read r # cs \<and> Block \<in> set bs \<and>
        (\<forall>q. Read q \<in> set bs \<longrightarrow> 1 \<le> tr_ret q \<and> \<not> (tr_proto q = ETH_P_IPV6 \<and> ip_daddr (tr_ip q) = taddr A)) \<and>
        1 \<le> tr_ret r \<and> tr_proto r = ETH_P_IPV6 \<and> ip_daddr (tr_ip r) = taddr A)"
    unfolding signalled_def passed_over_def set_reads Ball_def .
qed (use wait_run_input [OF assms] in blast)

lemma discovery_waits_witness:
  "wait_run ex_args [Block, Read (ex_read\<lparr>tr_proto := 0x800\<rparr>), Read ex_read] (Tx_looping, Dx_started) \<and>
   (\<exists>ps rest. wait_init_input ex_args (init_tx (max_addrs ex_args) 1500) 101 \<lparr>ta_tun = 3, ta_mdc = 8, ta_ip6 = 7\<rparr>
      [(ex_read\<lparr>tr_proto := 0x800\<rparr>, ex_env), (ex_read, ex_env)] = Some (ps, True, Some rest))"
proof -
  let ?r = "ex_read\<lparr>tr_proto := 0x800\<rparr>" and ?ta = "\<lparr>ta_tun = 3, ta_mdc = 8, ta_ip6 = 7\<rparr>"
  let ?b = "init_tx (max_addrs ex_args) 1500" and ?xs = "[(?r, ex_env), (ex_read, ex_env)]"
  have w: "wait_read ex_args ?r = Again" "wait_read ex_args ex_read = Go"
    by (simp_all add: wait_read_def read_ok_def is_ipv6_def ETH_P_IPV6_def ex_read_def ex_ip_def ex_args_def)
  have 1: "wait_run ex_args [Block] (Tx_waiting, Dx_blocked)"
    using wait_run.Step [OF wait_run.Init wait_step.Block, of ex_args] by simp
  have 2: "wait_run ex_args [Block, Read ?r] (Tx_waiting, Dx_blocked)"
    using wait_run.Step [OF 1 wait_step.Read, of ?r] w(1) by simp
  have run: "wait_run ex_args [Block, Read ?r, Read ex_read] (Tx_looping, Dx_started)"
    using wait_run.Step [OF 2 wait_step.Read, of ex_read] w(2) by simp
  have x: "map fst ?xs = reads [Block, Read ?r, Read ex_read]" by simp
  obtain p where "tx_read ?b 101 ?ta (ex_read, ex_env) = Some p"
    using tx_read_delivers [OF _ _ ex_env_ok ex_read_ok(1), of ?ta 1500 101] by auto
  then obtain ps sg rest where i: "wait_init_input ex_args ?b 101 ?ta ?xs = Some (ps, sg, rest)" by (simp add: w)
  have "rest \<noteq> None \<and> sg"
    using discovery_waits [OF run, THEN conjunct2, rule_format, OF conjI [OF x i]] by simp
  then show ?thesis using run i by auto
qed


section \<open>Routers\<close>

text \<open>
  C31: A router replaces a MEADcast packet by packets for the same receivers, in the order of the header: for
  each router the packet is to be delivered to, either a unicast packet to each of its receivers, if the router is
  itself or if these are fewer than its threshold, or one packet, sent to the first of them, that is to be
  delivered to that router only. All are right and carry the same data.
\<close>

theorem router_splits:
  assumes "net_up N" and "csum_ok N" and "pkt_ok p" and "sk_hdr p \<noteq> None"
  shows "\<exists>qs. ip6_forward N p = Some (qs, 0) \<and> concat (map pkt_due qs) = pkt_due p \<and>
    (\<forall>q \<in> set qs. pkt_ok q \<and> same_content p q \<and>
      (case sk_hdr q of
         None \<Rightarrow> \<exists>(r, ls) \<in> set (pkt_groups p). by_unicast N r ls \<and> ip_daddr (sk_ip q) \<in> set ls
       | Some d \<Rightarrow> \<exists>(r, ls) \<in> set (pkt_groups p). \<not> by_unicast N r ls \<and> pkt_groups q = [(r, ls)] \<and>
           ip_daddr (sk_ip q) = hd ls))"
  by (rule forward_data_ok [OF assms])

lemma router_splits_witness:
  "\<exists>qs. ip6_forward (mead_router 9 2) ex_packet = Some (qs, 0) \<and> concat (map pkt_due qs) = [101, 102, 103, 104] \<and>
    (\<forall>q \<in> set qs. case sk_hdr q of None \<Rightarrow> ip_daddr (sk_ip q) = 104
       | Some d \<Rightarrow> pkt_groups q = [(201, [101, 102, 103])] \<and> ip_daddr (sk_ip q) = 101)"
proof -
  have "sk_hdr ex_packet \<noteq> None" by (simp add: ex_packet_def)
  from router_splits [OF mead_router_up mead_router_csum ex_packet_ok(2) this, of 9 2] obtain qs where
    qs: "ip6_forward (mead_router 9 2) ex_packet = Some (qs, 0)" "concat (map pkt_due qs) = [101, 102, 103, 104]"
      "\<forall>q \<in> set qs. case sk_hdr q of
         None \<Rightarrow> \<exists>(r, ls) \<in> {(201, [101, 102, 103]), (202, [104])}. by_unicast (mead_router 9 2) r ls \<and> ip_daddr (sk_ip q) \<in> set ls
       | Some d \<Rightarrow> \<exists>(r, ls) \<in> {(201, [101, 102, 103]), (202, [104])}. \<not> by_unicast (mead_router 9 2) r ls \<and>
           pkt_groups q = [(r, ls)] \<and> ip_daddr (sk_ip q) = hd ls"
    unfolding ex_packet_groups list.set by blast
  have "\<not> by_unicast (mead_router 9 2) 201 [101, 102, 103]" "by_unicast (mead_router 9 2) 202 [104]"
    by (simp_all add: by_unicast_def)
  then have "\<forall>q \<in> set qs. case sk_hdr q of None \<Rightarrow> ip_daddr (sk_ip q) = 104
       | Some d \<Rightarrow> pkt_groups q = [(201, [101, 102, 103])] \<and> ip_daddr (sk_ip q) = 101"
    using qs(3) by (auto split: option.splits)
  then show ?thesis using qs(1,2) by blast
qed

text \<open>
  C32: A router that is responsible for all that a packet is to be delivered to ends the MEADcast: only
  unicast packets leave it, one for each of the receivers, in their order.
\<close>

theorem responsible_router_delivers:
  assumes "net_up N" and "csum_ok N" and "pkt_ok p" and "sk_hdr p \<noteq> None"
    and "\<forall>(r, ls) \<in> set (pkt_groups p). mn_own N r"
  shows "\<exists>qs. ip6_forward N p = Some (qs, 0) \<and> (\<forall>q \<in> set qs. sk_hdr q = None \<and> pkt_ok q \<and> same_content p q) \<and>
    map (\<lambda>q. ip_daddr (sk_ip q)) qs = pkt_due p"
  by (rule forward_own_ok [OF assms])

lemma responsible_router_delivers_witness:
  "\<exists>qs. ip6_forward ((mead_router 201 1)\<lparr>mn_own := \<lambda>r. r \<in> {201, 202}\<rparr>) ex_packet = Some (qs, 0) \<and>
    map (\<lambda>q. ip_daddr (sk_ip q)) qs = [101, 102, 103, 104]"
proof -
  let ?N = "(mead_router 201 1)\<lparr>mn_own := \<lambda>r. r \<in> {201, 202}\<rparr>"
  have up: "net_up ?N" "csum_ok ?N" by (simp_all add: net_own)
  have h: "sk_hdr ex_packet \<noteq> None" by (simp add: ex_packet_def)
  have own: "\<forall>(r, ls) \<in> set (pkt_groups ex_packet). mn_own ?N r" by (simp add: ex_packet_groups)
  from responsible_router_delivers [OF up ex_packet_ok(2) h own] show ?thesis
    unfolding ex_packet_groups by (elim exE conjE) (intro exI conjI)
qed

text \<open>
  C33: A checksum stays right when a packet gets a new destination: where it was right for the old address, the
  incremental update of m2u makes it right for the new one, whether there is a route to it or not, and changes
  nothing else of the payload.
\<close>

theorem checksum_updated:
  assumes "csum_ok N" and "udp_len_ok (sk_pl p) (length (sk_pl p))"
    and "udp_checks src (ip_daddr (sk_ip p)) (sk_pl p)" and "m2u N a p = Some (e, q)"
  shows "udp_checks src a (sk_pl q) \<and> ip_daddr (sk_ip q) = a \<and> sk_hdr q = None \<and> udp_like (sk_pl p) (sk_pl q) \<and>
    load16 2 (sk_pl q) = load16 2 (sk_pl p)"
  using m2u_pl [OF assms(4)] fix_check_ok [OF assms(1-3), of a] by simp

lemma checksum_updated_witness:
  "\<exists>e q. m2u (mead_router 201 1) 104 ex_packet = Some (e, q) \<and> udp_checks 1 104 (sk_pl q)"
proof -
  let ?N = "mead_router 201 1"
  have m: "m2u ?N 104 ex_packet = Some (0, uni_of ?N ex_hdr ex_packet 104)"
    by (rule m2u_ok [OF mead_router_up _ data_hdr_rthdr_len])
      (use ex_hdr_lists in \<open>auto simp: ex_packet_def hdr_lists_def\<close>)
  have "udp_len_ok (sk_pl ex_packet) (length (sk_pl ex_packet))" "udp_checks 1 (ip_daddr (sk_ip ex_packet)) (sk_pl ex_packet)"
    using ex_packet_ok(2) by (auto simp: pkt_ok_def ex_packet_def)
  from checksum_updated [OF mead_router_csum this m] m show ?thesis by blast
qed

text \<open>
  C34: The requests of the sender are answered. A request that send_dcvr has made and that passes a path of at
  most 63 routers makes each of them answer the sender: the i-th one, counted from 1, with its own
  address as the source, the distance i and the receiver the request is about, by a response that the
  sender accepts; and the request leaves the path as a request.
\<close>

theorem requests_answered:
  assumes "dcvr_on_wire bia (dcvr_packet_of h (fst (set_dcvr_hdr txbuf)) 32 l) p" and "mdc_addr txbuf \<noteq> []"
    and "list_all2 (\<lambda>N a. net_up N \<and> mn_saddr N bia = Some a) Ns as" and "length Ns < 64"
  shows "\<exists>qs q. along Ns p = Some (qs, q) \<and> length qs = length Ns \<and> request q \<and>
    (\<forall>i < length Ns. ip_daddr (sk_ip (qs ! i)) = bia \<and>
      (\<exists>d. as_dgram (qs ! i) = Some d \<and> rsp_wellformed d \<and> sin6_addr (dg_src d) = as ! i \<and>
        unat (hdr_hops (dg_hdr d)) = i + 1 \<and> hd (mdc_addr (dg_hdr d)) = ip_daddr (sk_ip p)))"
  by (rule sent_request_answers [OF assms])

lemma requests_answered_witness:
  "\<exists>qs q. along ex_path ex_request = Some (qs, q) \<and> length qs = 2 \<and>
    (\<forall>i < 2. \<exists>d. as_dgram (qs ! i) = Some d \<and> rsp_wellformed d \<and> sin6_addr (dg_src d) = [201, 202] ! i \<and>
      unat (hdr_hops (dg_hdr d)) = i + 1)"
proof -
  have "mdc_addr (zero_hdr 1) \<noteq> []" "length ex_path < 64" by (simp_all add: zero_hdr_def ex_path_ok)
  from requests_answered [OF ex_request_wire this(1) ex_path_ok(1) this(2)] show ?thesis
    unfolding ex_path_ok(2) by blast
qed

text \<open>
  C35: A router leaves alone what is not for it: packets without a routing header, and with one of another type; every
  packet if the extension is disabled; responses; requests that are not well formed; and data packets
  with the flag of a response. Only the hop limit changes.
\<close>

theorem foreign_packets_pass:
  assumes "ip_nexthdr (sk_ip p) = IPPROTO_ROUTING \<longrightarrow> (\<exists>d. sk_hdr p = Some d \<and> not_for_router N d)"
  shows "ip6_forward N p = Some ([p\<lparr>sk_ip := (sk_ip p)\<lparr>ip_hop_limit := ip_hop_limit (sk_ip p) - 1\<rparr>\<rparr>], 0)"
  by (rule forward_foreign [OF assms])

lemma foreign_packets_pass_witness:
  "ip6_forward (mead_router 201 1) (ex_packet\<lparr>sk_hdr := Some (ex_dcvr\<lparr>mdc_flags := 0x301\<rparr>)\<rparr>) =
    Some ([ex_packet\<lparr>sk_hdr := Some (ex_dcvr\<lparr>mdc_flags := 0x301\<rparr>),
      sk_ip := (sk_ip ex_packet)\<lparr>ip_hop_limit := 63\<rparr>\<rparr>], 0)"
proof -
  let ?p = "ex_packet\<lparr>sk_hdr := Some (ex_dcvr\<lparr>mdc_flags := 0x301\<rparr>)\<rparr>"
  have "not_for_router (mead_router 201 1) (ex_dcvr\<lparr>mdc_flags := 0x301\<rparr>)"
    by (simp add: not_for_router_def hdr_dcv_def hdr_rsp_def)
  then have "ip_nexthdr (sk_ip ?p) = IPPROTO_ROUTING \<longrightarrow> (\<exists>d. sk_hdr ?p = Some d \<and> not_for_router (mead_router 201 1) d)" by simp
  from foreign_packets_pass [OF this] show ?thesis by (simp add: ex_packet_def)
qed
section \<open>Printing, options and the hand-written test\<close>

text \<open>
  C36: The output of the end of a discovery phase is defined whenever the handler is. If the options ask for it,
  the tree is printed as the thinning and the grouping have left it, every router in it and every receiver on
  one line each, and the published group is printed after the reset, as the grouping has made it: a group
  that serves every receiver once.
\<close>

theorem phase_printed:
  assumes "judy_hs J" and "args_ok A" and "conf_ok c" and "dx_ok J c st" and "1 \<le> rd"
  shows "\<exists>h1 t1 st' grp h gs us bs s. reduce_tree J A (g_root (dx_g st)) (dx_h st) (g_ht (dx_g st)) = Some (h1, t1) \<and>
    greedy_grouping A (g_root (dx_g st)) reset_merging_stats h1 = Some (Some grp, reset_merging_stats, h) \<and>
    tout_handler J A rd c st = Some (0, st') \<and> get_txg (dx_g st') = Some grp \<and>
    txg_serves h (gg_max A) grp gs us \<and> ldata h = ldata (dx_h st) \<and>
    list_all2 (\<lambda>b g. bits_ok b (flags g)) bs gs \<and>
    prints ntop h (Pair Kid ` {q. attached h (g_root (dx_g st)) q} \<union> Pair Leaf ` {l. leafs (dx_h st) l \<noteq> None}) (Some s) \<and>
    tout_output ntop J A rd c st = Some (''Found '' @ fmt_u (dx_n st) @ '' routers'' @ nl @
      ''Ending discovery phase'' @ nl @ (if print_tree A then s else []) @
      (if print_txg A then txg_text ntop h gs bs us else []))"
  by (rule tout_output_ok [OF assms])

lemma phase_printed_witness:
  "\<exists>h1 t1 h gs us bs s grp. reduce_tree alist_judy (ex_args\<lparr>print_tree := True, print_txg := True\<rparr>) 1 ex_heap ex_table = Some (h1, t1) \<and>
    greedy_grouping (ex_args\<lparr>print_tree := True, print_txg := True\<rparr>) 1 reset_merging_stats h1 =
      Some (Some grp, reset_merging_stats, h) \<and> txg_serves h 10 grp gs us \<and>
    prints (\<lambda>_. ''::1'') h (Pair Kid ` {q. attached h 1 q} \<union> Pair Leaf ` {3, 4, 5}) (Some s) \<and>
    tout_output (\<lambda>_. ''::1'') alist_judy (ex_args\<lparr>print_tree := True, print_txg := True\<rparr>) 8 ex_conf ex_dx =
      Some (''Found '' @ fmt_u 1 @ '' routers'' @ nl @ ''Ending discovery phase'' @ nl @ s @
        txg_text (\<lambda>_. ''::1'') h gs bs us)"
proof -
  have A: "args_ok (ex_args\<lparr>print_tree := True, print_txg := True\<rparr>)" by (simp add: args_ok_def ex_args_def)
  have e: "{l. leafs ex_heap l \<noteq> None} = {3, 4, 5}" "g_root (dx_g ex_dx) = 1" "dx_n ex_dx = 1"
    "gg_max (ex_args\<lparr>print_tree := True, print_txg := True\<rparr>) = 10" "dx_h ex_dx = ex_heap" "g_ht (dx_g ex_dx) = ex_table"
    by (auto simp: ex_dx_def ex_leafs ex_group_def gg_max_def ex_args_def BITMAP_LIMIT_def)
  have f: "(if print_tree (ex_args\<lparr>print_tree := True, print_txg := True\<rparr>) then s else []) = s"
    "(if print_txg (ex_args\<lparr>print_tree := True, print_txg := True\<rparr>) then s else []) = s" for s :: string by simp_all
  have "(1 :: int) \<le> 8" by simp
  from phase_printed [OF alist.judy_hs_axioms A ex_conf_ok ex_dx_ok this, of "\<lambda>_. ''::1''", unfolded e f]
  show ?thesis by blast
qed

text \<open>
  C37: Both topologies of the test are built as its calls say: if inet_pton knows the addresses, the edges
  of the tree are those of the calls, every router has its address and is one hop further away than its
  parent, and the receivers are the called ones, at the routers of their calls. If inet_pton does not
  know one of them, the program ends with a message.
\<close>

theorem testbeds_built:
  "(if addrs_ok pton 12 28
     then \<exists>root h V r ls. create_topo pton empty_heap = Some (Inr (root, h)) \<and> dom r = {0..12} \<and>
       built (addr_no pton ''f::'') (addr_no pton ''a::'') topo_nodes r ls h V root \<and>
       (\<forall>(p, x) \<in> kid_edges V. hops_at h x = hops_at h p + 1)
     else \<exists>msg. create_topo pton empty_heap = Some (Inl msg)) \<and>
   (if addrs_ok pton 13 9
     then \<exists>root h V r ls. create_testbed pton empty_heap = Some (Inr (root, h)) \<and> dom r = {0..13} \<and>
       built (addr_no pton ''f::'') (addr_no pton ''a::'') testbed_nodes r ls h V root \<and>
       (\<forall>(p, x) \<in> kid_edges V. hops_at h x = hops_at h p + 1)
     else \<exists>msg. create_testbed pton empty_heap = Some (Inl msg))"
  using create_nodes_ok [OF _ topo_nodes_ok, of pton] create_nodes_fails [of pton 12 28]
    create_nodes_ok [OF _ testbed_nodes_ok, of pton] create_nodes_fails [of pton 13 9]
  unfolding create_topo_def create_testbed_def by meson

lemma testbeds_built_witness:
  "\<exists>root h V r ls. create_testbed (\<lambda>_. Some 7) empty_heap = Some (Inr (root, h)) \<and> dom r = {0..13} \<and>
    built (\<lambda>_. 7) (\<lambda>_. 7) testbed_nodes r ls h V root \<and>
    (\<forall>(p, x) \<in> kid_edges V. hops_at h x = hops_at h p + 1)"
  using testbeds_built [of "\<lambda>_. Some 7"] by (simp add: addrs_ok_def)

text \<open>
  C38: The test runs to its end on its testbed, with a hash table that knows none of the nodes. On the nine
  receivers that create_testbed makes, it thins the tree, so that only routers with enough child routers or enough
  receivers stay in it; prints each router that is left and each receiver once; groups the thinned
  tree so that every receiver is served once; prints the groups; resets the tree to a flat one with the same
  receivers; and exits with success. The memory and the output at its end are those.
\<close>

theorem test_runs:
  assumes "judy_hs J" and "args_ok A" and "addrs_ok pton 13 9"
  shows "\<exists>root h ls h1 t1 V1 s h2 grp gs us bs h3 V3. create_testbed pton empty_heap = Some (Inr (root, h)) \<and>
    distinct ls \<and> map (laddr h) ls = map (addr_no pton ''a::'') [1..<10] \<and> {l. leafs h l \<noteq> None} = set ls \<and>
    reduce_tree J A root h t = Some (h1, t1) \<and> topo_ok h1 V1 root \<and>
    (\<forall>(p, x) \<in> kid_edges V1. enough A V1 x) \<and>
    prints ntop h1 (Pair Kid ` {q. attached h1 root q} \<union> Pair Leaf ` set ls) (Some s) \<and>
    greedy_grouping A root reset_merging_stats h1 = Some (Some grp, reset_merging_stats, h2) \<and>
    txg_serves h2 (gg_max A) grp gs us \<and> ldata h2 = ldata h \<and> list_all2 (\<lambda>b g. bits_ok b (flags g)) bs gs \<and>
    rec_reset_tree root root h2 = Some h3 \<and> topo_ok h3 V3 root \<and> flat h3 V3 root \<and> ldata h3 = ldata h \<and>
    test pton ntop J A reset_merging_stats empty_heap t =
      Some (Inr (s @ txg_text ntop h2 gs bs us, reset_merging_stats, h3, t1))"
  by (rule test_ok [OF assms])

lemma test_runs_witness:
  "\<exists>out ms h t V root. test (\<lambda>_. Some 7) (\<lambda>_. ''::7'') alist_judy ex_args reset_merging_stats empty_heap [] =
    Some (Inr (out, ms, h, t)) \<and> topo_ok h V root \<and> flat h V root \<and> card {l. leafs h l \<noteq> None} = 9"
proof -
  have "addrs_ok (\<lambda>_. Some 7) 13 9" by (simp add: addrs_ok_def)
  from test_runs [OF alist.judy_hs_axioms ex_args_ok(1) this, where t = "[]" and ntop = "\<lambda>_. ''::7''"] obtain root h ls h3 V3 out t1 where
    r: "test (\<lambda>_. Some 7) (\<lambda>_. ''::7'') alist_judy ex_args reset_merging_stats empty_heap [] =
      Some (Inr (out, reset_merging_stats, h3, t1))" "distinct ls" "{l. leafs h l \<noteq> None} = set ls"
      "map (laddr h) ls = map (\<lambda>_. 7) [1::nat..<10]" "ldata h3 = ldata h" "topo_ok h3 V3 root" "flat h3 V3 root"
    by (metis option.sel)
  have "leafs h3 l = None \<longleftrightarrow> leafs h l = None" for l by (rule ldata_dom [OF r(5)])
  moreover have "length ls = 9" using arg_cong [OF r(4), of length] by simp
  ultimately have "card {l. leafs h3 l \<noteq> None} = 9" using r(3) distinct_card [OF r(2)] by simp
  with r(1,6,7) show ?thesis by blast
qed

text \<open>
  C39: The settings that the program prints at its start can be given as options again, among any other
  acceptable arguments that do not set them, and then the same settings are printed at the end of the
  command line. Only a number of sufficient addresses of 1, the default for two addresses, is not
  accepted. The line names at most one peer, or malloc leaves null in the member n of the later ones.
\<close>

theorem settings_read_back:
  assumes "args_bounded A" and "2 \<le> ok_addrs A"
    and "\<forall>c \<in> set (cs @ ds). call_defined c \<and> fst c \<noteq> ARGP_KEY_END \<and>
      fst c \<notin> {OPT_MAX_ADDRS, OPT_OK_ADDRS, OPT_MIN_LEAFS, OPT_MIN_ROUTERS, OPT_MERGE_RANGE, OPT_SPLIT_NODES}"
    and "line_ok pton (cs @ ds)"
    and "length (peers_of pton (cs @ ds)) \<le> 1 \<or> (\<forall>p. junk p = NULL)"
  shows "\<exists>B ps. init_args pton junk (cs @ settings_line st A @ ds @ [(ARGP_KEY_END, x, y)]) = Some (Inr (B, ps)) \<and>
    print_grouping_args B = print_grouping_args A \<and> peers_ok B ps (peers_of pton (cs @ ds))"
  using settings_line_ok [OF assms(1,2) _ assms(4,5)] assms(3) unfolding setting_keys_def by blast

lemma settings_read_back_witness:
  "\<exists>A B ps. split_nodes A \<and> max_addrs A = 20 \<and>
    init_args ex_pton (\<lambda>_. 7) (settings_line ex_parser A @ ex_single @ [(ARGP_KEY_END, [], ex_parser)]) = Some (Inr (B, ps)) \<and>
    print_grouping_args B = print_grouping_args A \<and> peers_ok B ps [3]"
proof -
  let ?A = "ex_args\<lparr>max_addrs := 20, split_nodes := True, tifname := Some ''tun1'', bifname := Some ''eth0''\<rparr>"
  have A: "args_bounded ?A" "2 \<le> ok_addrs ?A" by (simp_all add: args_bounded_def ex_args_def IFNAMSIZ_def)
  have s: "\<forall>c \<in> set ([] @ ex_single). call_defined c \<and> fst c \<noteq> ARGP_KEY_END \<and>
      fst c \<notin> {OPT_MAX_ADDRS, OPT_OK_ADDRS, OPT_MIN_LEAFS, OPT_MIN_ROUTERS, OPT_MERGE_RANGE, OPT_SPLIT_NODES}"
    using ex_single_ok(1) by (simp add: ex_single_def)
  have l: "line_ok ex_pton ([] @ ex_single)" "length (peers_of ex_pton ([] @ ex_single)) \<le> 1 \<or> (\<forall>p. (\<lambda>_. 7 :: ptr) p = NULL)"
    by (simp_all add: ex_single_ok)
  obtain B ps where
    "init_args ex_pton (\<lambda>_. 7) (settings_line ex_parser ?A @ ex_single @ [(ARGP_KEY_END, [], ex_parser)]) = Some (Inr (B, ps))"
    "print_grouping_args B = print_grouping_args ?A" "peers_ok B ps [3]"
    using settings_read_back [OF A s l, of ex_parser "[]" ex_parser] ex_single_ok(4) by auto
  moreover have "split_nodes ?A" "max_addrs ?A = 20" by simp_all
  ultimately show ?thesis by blast
qed

text \<open>
  C40: The table of options and the parser agree: names and key values are unambiguous, and there is an entry
  for exactly the options the parser knows. The parser takes every option without argument; an option with one
  it takes if the argument is in its range, and exits with status 1 otherwise, and a number that atoi cannot
  represent aside, nothing else happens. A key that is neither in the table nor one of the two for
  positional arguments and the end of the line changes nothing, and the parser returns that it does not know it.
\<close>

theorem options_known:
  "distinct (map (\<lambda>e. the (opt_name e)) named_options) \<and>
   distinct (map (\<lambda>e. key_value (the (opt_code e))) named_options) \<and>
   opt_code ` set named_options = Some ` {k. k \<notin> {ARGP_KEY_ARG, ARGP_KEY_END} \<and> k \<notin> range Other_key} \<and>
   (\<forall>e \<in> set named_options. \<forall>k pton junk st A ps. opt_code e = Some k \<longrightarrow>
      (opt_arg e = None \<longrightarrow> (\<exists>A'. \<forall>arg. parse_opt pton junk k arg st A ps = Some (Inr (0, A', ps)))) \<and>
      (\<forall>arg. call_defined (k, arg, st) \<longrightarrow>
        (if call_ok pton (k, arg, st) then \<exists>A'. parse_opt pton junk k arg st A ps = Some (Inr (0, A', ps))
         else parse_opt pton junk k arg st A ps = Some (Inl 1)))) \<and>
   (\<forall>n pton junk arg st A ps. parse_opt pton junk (Other_key n) arg st A ps = Some (Inr (ARGP_ERR_UNKNOWN, A, ps)))"
proof (intro conjI ballI allI impI)
  fix e k pton junk st A ps
  assume e: "e \<in> set named_options" "opt_code e = Some k"
  show "\<exists>A'. \<forall>arg. parse_opt pton junk k arg st A ps = Some (Inr (0, A', ps))" if "opt_arg e = None"
    by (rule option_flag_known [OF e that])
  show "if call_ok pton (k, arg, st) then \<exists>A'. parse_opt pton junk k arg st A ps = Some (Inr (0, A', ps))
      else parse_opt pton junk k arg st A ps = Some (Inl 1)" if "call_defined (k, arg, st)" for arg
    by (rule option_known [OF e that])
qed (rule options_shape option_keys other_key_unknown)+

lemma options_known_witness:
  "(\<exists>A'. \<forall>arg. parse_opt (\<lambda>_. None) (\<lambda>_. NULL) OPT_DCVR_WAIT arg ex_parser ex_args no_peers = Some (Inr (0, A', no_peers))) \<and>
   (\<exists>A'. parse_opt (\<lambda>_. None) (\<lambda>_. NULL) OPT_TIFNAME ''tun9'' ex_parser ex_args no_peers = Some (Inr (0, A', no_peers)))"
proof -
  let ?w = "option_flag ''wait'' OPT_DCVR_WAIT 2" and ?t = "option_arg ''tun'' OPT_TIFNAME ''ifname'' 1"
  have m: "?w \<in> set named_options" "?t \<in> set named_options" by code_simp+
  have w: "opt_code ?w = Some OPT_DCVR_WAIT" "opt_arg ?w = None" by (simp_all add: option_flag_def)
  have t: "opt_code ?t = Some OPT_TIFNAME" by (simp add: option_arg_def)
  have c: "call_defined (OPT_TIFNAME, ''tun9'', ex_parser)" "call_ok (\<lambda>_. None) (OPT_TIFNAME, ''tun9'', ex_parser)"
    by (simp_all add: IFNAMSIZ_def)
  note K = options_known [THEN conjunct2, THEN conjunct2, THEN conjunct2, THEN conjunct1, THEN bspec]
  show ?thesis
  proof (rule conjI)
    show "\<exists>A'. \<forall>arg. parse_opt (\<lambda>_. None) (\<lambda>_. NULL) OPT_DCVR_WAIT arg ex_parser ex_args no_peers = Some (Inr (0, A', no_peers))"
      using K [OF m(1)] w by blast
    show "\<exists>A'. parse_opt (\<lambda>_. None) (\<lambda>_. NULL) OPT_TIFNAME ''tun9'' ex_parser ex_args no_peers = Some (Inr (0, A', no_peers))"
      using K [OF m(2), rule_format, OF t, THEN conjunct2, rule_format, OF c(1)] c(2) by (simp del: call_ok.simps)
  qed
qed

end
